(* ===== verification/Prelude.thy ===== *)
theory Prelude
  imports "HOL-Library.Word"
begin

text \<open>
  Shared material of the development: the machine types of the C sources, the
  collections that carry the component proofs, and generic lemmas on words and
  lists. Nothing here models code of the repository.
\<close>

unbundle bit_operations_syntax

type_synonym byte = "8 word"
type_synonym u16 = "16 word"
type_synonym u32 = "32 word"
type_synonym u64 = "64 word"

text \<open>
  \<open>frame_simps\<close> collects the equations that say which fields of a component's
  state an operation leaves alone, \<open>wire_simps\<close> those that compute what an
  operation reads from or writes to a byte stream, \<open>buf_simps\<close> those of the
  packet buffers.
\<close>

named_theorems frame_simps
named_theorems wire_simps
named_theorems buf_simps

subsection \<open>Words\<close>

lemma word_xor_cancel_left [simp]: "(a :: 'a::len word) XOR (a XOR b) = b"
  by (simp add: xor.assoc [symmetric])

lemma word_xor_eq_cancel: "(a :: 'a::len word) XOR b = a XOR c \<longleftrightarrow> b = c"
  by (metis word_xor_cancel_left)

lemma word_xor_eq_zero [simp]: "(a :: 'a::len word) XOR b = 0 \<longleftrightarrow> a = b"
  by (metis word_xor_cancel_left xor.right_neutral xor_self_eq)

lemma unat_add_of_nat:
  assumes "unat (w :: 'a::len word) + n < 2 ^ LENGTH('a)"
  shows "unat (w + word_of_nat n) = unat w + n"
proof -
  have "w + word_of_nat n = word_of_nat (unat w + n)" by simp
  then show ?thesis using assms by (simp only: unsigned_of_nat take_bit_nat_eq_self of_nat_id)
qed

lemma unat_diff_of_nat:
  assumes "n \<le> unat (w :: 'a::len word)"
  shows "unat (w - word_of_nat n) = unat w - n"
proof -
  have "w - word_of_nat n = word_of_nat (unat w - n)" using assms by (simp add: of_nat_diff)
  moreover have "unat w - n < 2 ^ LENGTH('a)" by (rule le_less_trans [OF diff_le_self unsigned_less])
  ultimately show ?thesis by (simp only: unsigned_of_nat take_bit_nat_eq_self of_nat_id)
qed

lemma byte_less: "unat (b :: byte) < 256"
  using unsigned_less [of b] by simp

lemma byte_uint_range [simp]: "0 \<le> uint (b :: byte)" "uint (b :: byte) < 256"
  using uint_lt2p [of b] by simp_all

lemma byte_uint_le [simp]: "uint (b :: byte) \<le> 255"
  using byte_uint_range(2) [of b] by linarith

lemma word_of_int_uint_byte [simp]: "word_of_int (uint (b :: byte)) = b"
  by simp

lemma take_bit_byte_range:
  assumes "0 \<le> x" "x < 256" "8 \<le> n"
  shows "take_bit n (x :: int) = x"
proof (rule take_bit_int_eq_self)
  have "(2 :: int) ^ 8 \<le> 2 ^ n" using assms(3) by (rule power_increasing) simp
  with assms(2) show "x < 2 ^ n" by simp
qed (rule assms)

lemma uint_byte_numeral:
  "uint (b :: byte) = numeral n \<longleftrightarrow> b = numeral n \<and> numeral n < (256 :: int)"
proof
  assume a: "uint b = numeral n"
  have "b = word_of_int (uint b)" by simp
  also have "\<dots> = numeral n" unfolding a by (rule word_of_int_numeral)
  finally show "b = numeral n \<and> numeral n < (256 :: int)"
    using byte_uint_range(2) [of b] unfolding a by simp
next
  assume n: "b = numeral n \<and> numeral n < (256 :: int)"
  have "take_bit 8 (numeral n) = (numeral n :: int)"
    by (rule take_bit_int_eq_self) (use n in simp_all)
  then have "uint (word_of_int (numeral n) :: byte) = numeral n"
    by (simp only: uint_word_of_int_eq) simp
  with n show "uint b = numeral n" by (simp only: word_of_int_numeral)
qed

lemma byte_bitD: "bit (b :: byte) n \<Longrightarrow> n < 8"
  by (drule bit_imp_le_length) simp

lemma byte_not_bit [simp]: "8 \<le> n \<Longrightarrow> \<not> bit (b :: byte) n"
  by (auto dest: byte_bitD)

lemma and_255_take_bit: "(w :: 'a::len word) AND 255 = take_bit 8 w"
  by (simp add: take_bit_eq_mask mask_eq_exp_minus_1)

lemma unat_take_bit_8: "unat (take_bit 8 (w :: 'a::len word)) < 256"
  using take_bit_nat_less_exp [of 8 "unat w"] by (simp add: unsigned_take_bit_eq)

text \<open>A fact about every byte follows from its 256 instances.\<close>

lemma byte_cases_upt:
  assumes "\<forall>n \<in> set [0..<256]. P (word_of_nat n :: byte)"
  shows "P b"
proof -
  have "unat b \<in> set [0..<256]"
    using byte_less [of b] by simp
  with assms have "P (word_of_nat (unat b))" by blast
  then show ?thesis by simp
qed

subsection \<open>Lists\<close>

lemma fold_append_single: "fold f (xs @ [x]) a = f x (fold f xs a)"
  by simp

lemma fold_pair:
  "fold (\<lambda>x (a, b). (f x a, g x b)) xs (a, b) = (fold f xs a, fold g xs b)"
  by (induction xs arbitrary: a b) simp_all

lemma length_2_conv: "length xs = 2 \<longleftrightarrow> (\<exists>a b. xs = [a, b])"
  by (auto simp: numeral_2_eq_2 length_Suc_conv)

lemma length_4_conv: "length xs = 4 \<longleftrightarrow> (\<exists>a b c d. xs = [a, b, c, d])"
  by (auto simp: numeral_eq_Suc length_Suc_conv)

end
