(* ===== verification/Crctab.thy ===== *)
theory Crctab
  imports Prelude
begin

text \<open>
  The cyclic redundancy checks of \<^verbatim>\<open>lszrz/crctab.c\<close>: the two feedback tables and the
  table-driven update steps \<open>updcrc\<close> (16 bit, also a macro of \<^verbatim>\<open>zglobal.h\<close>) and
  \<open>UPDC32\<close> (32 bit). The lemmas show that the tables are the feedback terms of the
  documented polynomials, that the check bytes the senders append bring the register
  to the value the receivers test for, and that a corruption of as many adjacent bytes
  as the register holds never passes that test. The contract the frame layer relies on
  is the locale \<open>frame_check\<close>, interpreted for both widths.
\<close>

subsection \<open>The tables and the update steps\<close>

definition crctab :: "u16 list" where
  "crctab =
    [0x0000, 0x1021, 0x2042, 0x3063, 0x4084, 0x50a5, 0x60c6, 0x70e7,
     0x8108, 0x9129, 0xa14a, 0xb16b, 0xc18c, 0xd1ad, 0xe1ce, 0xf1ef,
     0x1231, 0x0210, 0x3273, 0x2252, 0x52b5, 0x4294, 0x72f7, 0x62d6,
     0x9339, 0x8318, 0xb37b, 0xa35a, 0xd3bd, 0xc39c, 0xf3ff, 0xe3de,
     0x2462, 0x3443, 0x0420, 0x1401, 0x64e6, 0x74c7, 0x44a4, 0x5485,
     0xa56a, 0xb54b, 0x8528, 0x9509, 0xe5ee, 0xf5cf, 0xc5ac, 0xd58d,
     0x3653, 0x2672, 0x1611, 0x0630, 0x76d7, 0x66f6, 0x5695, 0x46b4,
     0xb75b, 0xa77a, 0x9719, 0x8738, 0xf7df, 0xe7fe, 0xd79d, 0xc7bc,
     0x48c4, 0x58e5, 0x6886, 0x78a7, 0x0840, 0x1861, 0x2802, 0x3823,
     0xc9cc, 0xd9ed, 0xe98e, 0xf9af, 0x8948, 0x9969, 0xa90a, 0xb92b,
     0x5af5, 0x4ad4, 0x7ab7, 0x6a96, 0x1a71, 0x0a50, 0x3a33, 0x2a12,
     0xdbfd, 0xcbdc, 0xfbbf, 0xeb9e, 0x9b79, 0x8b58, 0xbb3b, 0xab1a,
     0x6ca6, 0x7c87, 0x4ce4, 0x5cc5, 0x2c22, 0x3c03, 0x0c60, 0x1c41,
     0xedae, 0xfd8f, 0xcdec, 0xddcd, 0xad2a, 0xbd0b, 0x8d68, 0x9d49,
     0x7e97, 0x6eb6, 0x5ed5, 0x4ef4, 0x3e13, 0x2e32, 0x1e51, 0x0e70,
     0xff9f, 0xefbe, 0xdfdd, 0xcffc, 0xbf1b, 0xaf3a, 0x9f59, 0x8f78,
     0x9188, 0x81a9, 0xb1ca, 0xa1eb, 0xd10c, 0xc12d, 0xf14e, 0xe16f,
     0x1080, 0x00a1, 0x30c2, 0x20e3, 0x5004, 0x4025, 0x7046, 0x6067,
     0x83b9, 0x9398, 0xa3fb, 0xb3da, 0xc33d, 0xd31c, 0xe37f, 0xf35e,
     0x02b1, 0x1290, 0x22f3, 0x32d2, 0x4235, 0x5214, 0x6277, 0x7256,
     0xb5ea, 0xa5cb, 0x95a8, 0x8589, 0xf56e, 0xe54f, 0xd52c, 0xc50d,
     0x34e2, 0x24c3, 0x14a0, 0x0481, 0x7466, 0x6447, 0x5424, 0x4405,
     0xa7db, 0xb7fa, 0x8799, 0x97b8, 0xe75f, 0xf77e, 0xc71d, 0xd73c,
     0x26d3, 0x36f2, 0x0691, 0x16b0, 0x6657, 0x7676, 0x4615, 0x5634,
     0xd94c, 0xc96d, 0xf90e, 0xe92f, 0x99c8, 0x89e9, 0xb98a, 0xa9ab,
     0x5844, 0x4865, 0x7806, 0x6827, 0x18c0, 0x08e1, 0x3882, 0x28a3,
     0xcb7d, 0xdb5c, 0xeb3f, 0xfb1e, 0x8bf9, 0x9bd8, 0xabbb, 0xbb9a,
     0x4a75, 0x5a54, 0x6a37, 0x7a16, 0x0af1, 0x1ad0, 0x2ab3, 0x3a92,
     0xfd2e, 0xed0f, 0xdd6c, 0xcd4d, 0xbdaa, 0xad8b, 0x9de8, 0x8dc9,
     0x7c26, 0x6c07, 0x5c64, 0x4c45, 0x3ca2, 0x2c83, 0x1ce0, 0x0cc1,
     0xef1f, 0xff3e, 0xcf5d, 0xdf7c, 0xaf9b, 0xbfba, 0x8fd9, 0x9ff8,
     0x6e17, 0x7e36, 0x4e55, 0x5e74, 0x2e93, 0x3eb2, 0x0ed1, 0x1ef0]"

definition cr3tab :: "u32 list" where
  "cr3tab =
    [0x00000000, 0x77073096, 0xee0e612c, 0x990951ba, 0x076dc419, 0x706af48f, 0xe963a535, 0x9e6495a3,
     0x0edb8832, 0x79dcb8a4, 0xe0d5e91e, 0x97d2d988, 0x09b64c2b, 0x7eb17cbd, 0xe7b82d07, 0x90bf1d91,
     0x1db71064, 0x6ab020f2, 0xf3b97148, 0x84be41de, 0x1adad47d, 0x6ddde4eb, 0xf4d4b551, 0x83d385c7,
     0x136c9856, 0x646ba8c0, 0xfd62f97a, 0x8a65c9ec, 0x14015c4f, 0x63066cd9, 0xfa0f3d63, 0x8d080df5,
     0x3b6e20c8, 0x4c69105e, 0xd56041e4, 0xa2677172, 0x3c03e4d1, 0x4b04d447, 0xd20d85fd, 0xa50ab56b,
     0x35b5a8fa, 0x42b2986c, 0xdbbbc9d6, 0xacbcf940, 0x32d86ce3, 0x45df5c75, 0xdcd60dcf, 0xabd13d59,
     0x26d930ac, 0x51de003a, 0xc8d75180, 0xbfd06116, 0x21b4f4b5, 0x56b3c423, 0xcfba9599, 0xb8bda50f,
     0x2802b89e, 0x5f058808, 0xc60cd9b2, 0xb10be924, 0x2f6f7c87, 0x58684c11, 0xc1611dab, 0xb6662d3d,
     0x76dc4190, 0x01db7106, 0x98d220bc, 0xefd5102a, 0x71b18589, 0x06b6b51f, 0x9fbfe4a5, 0xe8b8d433,
     0x7807c9a2, 0x0f00f934, 0x9609a88e, 0xe10e9818, 0x7f6a0dbb, 0x086d3d2d, 0x91646c97, 0xe6635c01,
     0x6b6b51f4, 0x1c6c6162, 0x856530d8, 0xf262004e, 0x6c0695ed, 0x1b01a57b, 0x8208f4c1, 0xf50fc457,
     0x65b0d9c6, 0x12b7e950, 0x8bbeb8ea, 0xfcb9887c, 0x62dd1ddf, 0x15da2d49, 0x8cd37cf3, 0xfbd44c65,
     0x4db26158, 0x3ab551ce, 0xa3bc0074, 0xd4bb30e2, 0x4adfa541, 0x3dd895d7, 0xa4d1c46d, 0xd3d6f4fb,
     0x4369e96a, 0x346ed9fc, 0xad678846, 0xda60b8d0, 0x44042d73, 0x33031de5, 0xaa0a4c5f, 0xdd0d7cc9,
     0x5005713c, 0x270241aa, 0xbe0b1010, 0xc90c2086, 0x5768b525, 0x206f85b3, 0xb966d409, 0xce61e49f,
     0x5edef90e, 0x29d9c998, 0xb0d09822, 0xc7d7a8b4, 0x59b33d17, 0x2eb40d81, 0xb7bd5c3b, 0xc0ba6cad,
     0xedb88320, 0x9abfb3b6, 0x03b6e20c, 0x74b1d29a, 0xead54739, 0x9dd277af, 0x04db2615, 0x73dc1683,
     0xe3630b12, 0x94643b84, 0x0d6d6a3e, 0x7a6a5aa8, 0xe40ecf0b, 0x9309ff9d, 0x0a00ae27, 0x7d079eb1,
     0xf00f9344, 0x8708a3d2, 0x1e01f268, 0x6906c2fe, 0xf762575d, 0x806567cb, 0x196c3671, 0x6e6b06e7,
     0xfed41b76, 0x89d32be0, 0x10da7a5a, 0x67dd4acc, 0xf9b9df6f, 0x8ebeeff9, 0x17b7be43, 0x60b08ed5,
     0xd6d6a3e8, 0xa1d1937e, 0x38d8c2c4, 0x4fdff252, 0xd1bb67f1, 0xa6bc5767, 0x3fb506dd, 0x48b2364b,
     0xd80d2bda, 0xaf0a1b4c, 0x36034af6, 0x41047a60, 0xdf60efc3, 0xa867df55, 0x316e8eef, 0x4669be79,
     0xcb61b38c, 0xbc66831a, 0x256fd2a0, 0x5268e236, 0xcc0c7795, 0xbb0b4703, 0x220216b9, 0x5505262f,
     0xc5ba3bbe, 0xb2bd0b28, 0x2bb45a92, 0x5cb36a04, 0xc2d7ffa7, 0xb5d0cf31, 0x2cd99e8b, 0x5bdeae1d,
     0x9b64c2b0, 0xec63f226, 0x756aa39c, 0x026d930a, 0x9c0906a9, 0xeb0e363f, 0x72076785, 0x05005713,
     0x95bf4a82, 0xe2b87a14, 0x7bb12bae, 0x0cb61b38, 0x92d28e9b, 0xe5d5be0d, 0x7cdcefb7, 0x0bdbdf21,
     0x86d3d2d4, 0xf1d4e242, 0x68ddb3f8, 0x1fda836e, 0x81be16cd, 0xf6b9265b, 0x6fb077e1, 0x18b74777,
     0x88085ae6, 0xff0f6a70, 0x66063bca, 0x11010b5c, 0x8f659eff, 0xf862ae69, 0x616bffd3, 0x166ccf45,
     0xa00ae278, 0xd70dd2ee, 0x4e048354, 0x3903b3c2, 0xa7672661, 0xd06016f7, 0x4969474d, 0x3e6e77db,
     0xaed16a4a, 0xd9d65adc, 0x40df0b66, 0x37d83bf0, 0xa9bcae53, 0xdebb9ec5, 0x47b2cf7f, 0x30b5ffe9,
     0xbdbdf21c, 0xcabac28a, 0x53b39330, 0x24b4a3a6, 0xbad03605, 0xcdd70693, 0x54de5729, 0x23d967bf,
     0xb3667a2e, 0xc4614ab8, 0x5d681b02, 0x2a6f2b94, 0xb40bbe37, 0xc30c8ea1, 0x5a05df1b, 0x2d02ef8d]"

text \<open>
  \<^verbatim>\<open>#define updcrc(cp, crc) ( crctab[((crc >> 8) & 255)] ^ (crc << 8) ^ cp)\<close>, assigned to
  an \<^verbatim>\<open>unsigned short\<close>.
\<close>

definition updcrc :: "u16 \<Rightarrow> u16 \<Rightarrow> u16" where
  "updcrc cp crc = (crctab ! unat (drop_bit 8 crc AND 255)) XOR push_bit 8 crc XOR cp"

text \<open>
  \<^verbatim>\<open>#define UPDC32(b, c) (cr3tab[((int)c ^ b) & 0xff] ^ ((c >> 8) & 0x00FFFFFF))\<close>
\<close>

definition UPDC32 :: "u32 \<Rightarrow> u32 \<Rightarrow> u32" where
  "UPDC32 b c = (cr3tab ! unat ((c XOR b) AND 0xff)) XOR (drop_bit 8 c AND 0x00FFFFFF)"

subsection \<open>The byte-wise registers and the check bytes\<close>

text \<open>
  Both update steps as functions of a data byte, and the check bytes a sender appends:
  \<^verbatim>\<open>crc = updcrc(0, updcrc(0, crc))\<close> sent high byte first, and \<^verbatim>\<open>~crc\<close> sent low byte
  first.
\<close>

definition upd16 :: "byte \<Rightarrow> u16 \<Rightarrow> u16" where
  "upd16 b c = updcrc (ucast b) c"

definition upd32 :: "byte \<Rightarrow> u32 \<Rightarrow> u32" where
  "upd32 b c = UPDC32 (ucast b) c"

definition trailer16 :: "u16 \<Rightarrow> byte list" where
  "trailer16 c = (let x = updcrc 0 (updcrc 0 c) in [ucast (drop_bit 8 x), ucast x])"

definition trailer32 :: "u32 \<Rightarrow> byte list" where
  "trailer32 c = (let x = NOT c
     in [ucast x, ucast (drop_bit 8 x), ucast (drop_bit 16 x), ucast (drop_bit 24 x)])"

subsection \<open>Bit-serial reference\<close>

text \<open>
  The shift registers of the polynomials \<^verbatim>\<open>x^16 + x^12 + x^5 + 1\<close> (most significant bit
  first) and \<^verbatim>\<open>0xedb88320\<close> (reflected), one bit and eight bits at a time, and the check
  that a list is a table of eight-bit feedback terms.
\<close>

definition crc16_bit :: "u16 \<Rightarrow> u16" where
  "crc16_bit c = (if bit c 15 then push_bit 1 c XOR 0x1021 else push_bit 1 c)"

definition crc16_byte :: "u16 \<Rightarrow> u16" where
  "crc16_byte c = (crc16_bit ^^ 8) c"

definition crc32_bit :: "u32 \<Rightarrow> u32" where
  "crc32_bit c = (if bit c 0 then drop_bit 1 c XOR 0xedb88320 else drop_bit 1 c)"

definition crc32_byte :: "u32 \<Rightarrow> u32" where
  "crc32_byte c = (crc32_bit ^^ 8) c"

fun crctab_from :: "u16 \<Rightarrow> u16 list \<Rightarrow> bool" where
  "crctab_from i [] = True"
| "crctab_from i (x # xs) = (crc16_byte (push_bit 8 i) = x \<and> crctab_from (i + 1) xs)"

fun cr3tab_from :: "u32 \<Rightarrow> u32 list \<Rightarrow> bool" where
  "cr3tab_from i [] = True"
| "cr3tab_from i (x # xs) = (crc32_byte i = x \<and> cr3tab_from (i + 1) xs)"

definition be16 :: "byte \<Rightarrow> byte \<Rightarrow> u16" where
  "be16 a b = push_bit 8 (ucast a) XOR ucast b"

definition le32 :: "byte \<Rightarrow> byte \<Rightarrow> byte \<Rightarrow> byte \<Rightarrow> u32" where
  "le32 a b c d = ucast a XOR (push_bit 8 (ucast b) XOR (push_bit 16 (ucast c) XOR push_bit 24 (ucast d)))"

subsection \<open>The contract of a frame check\<close>

text \<open>
  What the frame layer relies on: the check bytes lead to one fixed residue, and a window
  of as many bytes as the register is wide determines the register and is determined by
  it.
\<close>

locale frame_check =
  fixes upd :: "byte \<Rightarrow> 'w \<Rightarrow> 'w"
    and trailer :: "'w \<Rightarrow> byte list"
    and good :: 'w
    and width :: nat
  assumes residue: "fold upd (trailer c) c = good"
    and length_trailer: "length (trailer c) = width"
    and upd_inj: "upd b c = upd b c' \<Longrightarrow> c = c'"
    and window: "length bs = width \<Longrightarrow> length bs' = width \<Longrightarrow>
      fold upd bs c = fold upd bs' c \<Longrightarrow> bs = bs'"
begin

lemma fold_sent: "fold upd (ds @ trailer (fold upd ds c)) c = good"
  by (simp add: residue)

lemma fold_inj: "fold upd bs c = fold upd bs c' \<Longrightarrow> c = c'"
  by (induction bs arbitrary: c c') (auto dest: upd_inj)

lemma short_window:
  assumes "length bs = length bs'" "length bs \<le> width" "fold upd bs c = fold upd bs' c"
  shows "bs = bs'"
proof -
  let ?pad = "replicate (width - length bs) 0"
  have "fold upd (bs @ ?pad) c = fold upd (bs' @ ?pad) c"
    using assms by simp
  then have "bs @ ?pad = bs' @ ?pad"
    using assms(1,2) by (intro window [where c = c]) auto
  then show ?thesis by simp
qed

lemma burst_detected:
  assumes "length bs = length bs'" "length bs \<le> width" "bs \<noteq> bs'"
    and "fold upd (xs @ bs @ ys) c = good"
  shows "fold upd (xs @ bs' @ ys) c \<noteq> good"
proof
  assume "fold upd (xs @ bs' @ ys) c = good"
  with assms(4) have "fold upd ys (fold upd bs (fold upd xs c))
      = fold upd ys (fold upd bs' (fold upd xs c))" by simp
  then have "fold upd bs (fold upd xs c) = fold upd bs' (fold upd xs c)" by (rule fold_inj)
  with assms(1-3) show False by (metis short_window)
qed

end

subsection \<open>The tables hold the feedback terms\<close>

lemma funpow_8: "(f ^^ 8) x = f (f (f (f (f (f (f (f x)))))))"
  by (simp add: numeral_eq_Suc)

lemma crc16_bit_step:
  "bit c 15 \<Longrightarrow> crc16_bit c = push_bit 1 c XOR 0x1021"
  "\<not> bit c 15 \<Longrightarrow> crc16_bit c = push_bit 1 c"
  by (simp_all add: crc16_bit_def)

lemma crc32_bit_step:
  "bit c 0 \<Longrightarrow> crc32_bit c = drop_bit 1 c XOR 0xedb88320"
  "\<not> bit c 0 \<Longrightarrow> crc32_bit c = drop_bit 1 c"
  by (simp_all add: crc32_bit_def)

lemma crctab_from_nth:
  "crctab_from i xs \<Longrightarrow> k < length xs \<Longrightarrow> xs ! k = crc16_byte (push_bit 8 (i + word_of_nat k))"
  by (induction i xs arbitrary: k rule: crctab_from.induct)
    (auto simp: nth_Cons add.assoc split: nat.splits)

lemma cr3tab_from_nth:
  "cr3tab_from i xs \<Longrightarrow> k < length xs \<Longrightarrow> xs ! k = crc32_byte (i + word_of_nat k)"
  by (induction i xs arbitrary: k rule: cr3tab_from.induct)
    (auto simp: nth_Cons add.assoc split: nat.splits)

lemma crc16_bit_xor: "crc16_bit (a XOR b) = crc16_bit a XOR crc16_bit b"
  by (auto simp: crc16_bit_def push_bit_xor bit_xor_iff ac_simps)

lemma crc32_bit_xor: "crc32_bit (a XOR b) = crc32_bit a XOR crc32_bit b"
  by (auto simp: crc32_bit_def drop_bit_xor bit_xor_iff ac_simps)

lemma crc16_byte_xor: "crc16_byte (a XOR b) = crc16_byte a XOR crc16_byte b"
  by (simp add: crc16_byte_def funpow_8 crc16_bit_xor)

lemma crc32_byte_xor: "crc32_byte (a XOR b) = crc32_byte a XOR crc32_byte b"
  by (simp add: crc32_byte_def funpow_8 crc32_bit_xor)

lemma bit_crc16_bit_0: "bit (crc16_bit c) 0 = bit c 15"
  by (simp only: crc16_bit_def bit_xor_iff bit_push_bit_iff split: if_split) (simp add: bit_0)

lemma bit_crc32_bit_31: "bit (crc32_bit c) 31 = bit c 0"
  by (simp only: crc32_bit_def bit_xor_iff bit_drop_bit_eq split: if_split)
    (auto dest: bit_imp_le_length)

lemma push_bit_1_eq: "push_bit 1 (a :: u16) = push_bit 1 b \<Longrightarrow> n < 15 \<Longrightarrow> bit a n = bit b n"
proof -
  assume "push_bit 1 a = push_bit 1 b" "n < 15"
  then have "bit (push_bit 1 a) (Suc n) = bit (push_bit 1 b) (Suc n)" by metis
  with \<open>n < 15\<close> show ?thesis by (simp only: bit_push_bit_iff) simp
qed

lemma crc16_bit_inj: 
  assumes eq: "crc16_bit a = crc16_bit b" shows "a = b"
proof -
  from eq have top: "bit a 15 = bit b 15" by (metis bit_crc16_bit_0)
  with eq have "push_bit 1 a = push_bit 1 b"
    by (simp only: crc16_bit_def split: if_splits) (metis word_xor_eq_cancel xor.commute)+
  then have low: "n < 15 \<Longrightarrow> bit a n = bit b n" for n by (rule push_bit_1_eq)
  show "a = b"
  proof (rule bit_word_eqI)
    fix n assume "n < LENGTH(16)"
    then have "n < 15 \<or> n = 15" by auto
    with low top show "bit a n = bit b n" by auto
  qed
qed

lemma crc32_bit_inj: 
  assumes eq: "crc32_bit a = crc32_bit b" shows "a = b"
proof -
  from eq have bot: "bit a 0 = bit b 0" by (metis bit_crc32_bit_31)
  with eq have "drop_bit 1 a = drop_bit 1 b"
    by (simp only: crc32_bit_def split: if_splits) (metis word_xor_eq_cancel xor.commute)+
  then have high: "bit a (Suc n) = bit b (Suc n)" for n
    by (metis bit_drop_bit_eq comp_apply plus_1_eq_Suc)
  show "a = b"
  proof (rule bit_word_eqI)
    fix n show "bit a n = bit b n" using high bot by (cases n) auto
  qed
qed

lemma crc16_byte_inj: "crc16_byte a = crc16_byte b \<longleftrightarrow> a = b"
  by (auto simp: crc16_byte_def funpow_8 dest!: crc16_bit_inj)

lemma crc32_byte_inj: "crc32_byte a = crc32_byte b \<longleftrightarrow> a = b"
  by (auto simp: crc32_byte_def funpow_8 dest!: crc32_bit_inj)

lemma crc16_byte_low:
  assumes low: "\<And>n. 8 \<le> n \<Longrightarrow> \<not> bit x n"
  shows "crc16_byte x = push_bit 8 x"
proof -
  have "k \<le> 8 \<Longrightarrow> (crc16_bit ^^ k) x = push_bit k x" for k
  proof (induction k)
    case (Suc k)
    then have "\<not> bit (push_bit k x) 15"
      using low by (simp add: bit_push_bit_iff)
    then have "crc16_bit (push_bit k x) = push_bit 1 (push_bit k x)"
      by (rule crc16_bit_step)
    with Suc show ?case by (simp only: push_bit_push_bit) simp
  qed simp
  then show ?thesis by (simp add: crc16_byte_def)
qed

lemma crc32_byte_high:
  assumes high: "\<And>n. n < 8 \<Longrightarrow> \<not> bit x n"
  shows "crc32_byte x = drop_bit 8 x"
proof -
  have "k \<le> 8 \<Longrightarrow> (crc32_bit ^^ k) x = drop_bit k x" for k
  proof (induction k)
    case (Suc k)
    then have "\<not> bit (drop_bit k x) 0"
      using high by (simp add: bit_drop_bit_eq)
    then have "crc32_bit (drop_bit k x) = drop_bit 1 (drop_bit k x)"
      by (rule crc32_bit_step)
    with Suc show ?case by (simp only: drop_bit_drop_bit) simp
  qed simp
  then show ?thesis by (simp add: crc32_byte_def)
qed

lemma crctab_length [simp]: "length crctab = 256"
  by (simp add: crctab_def)

lemma cr3tab_length [simp]: "length cr3tab = 256"
  by (simp add: cr3tab_def)

lemma crctab_from_0: "crctab_from 0 crctab"
  by (simp add: crctab_def crc16_byte_def funpow_8 crc16_bit_step)

lemma cr3tab_from_0: "cr3tab_from 0 cr3tab"
  by (simp add: cr3tab_def crc32_byte_def funpow_8 crc32_bit_step bit_0)


lemma crctab_nth: "k < 256 \<Longrightarrow> crctab ! k = crc16_byte (push_bit 8 (word_of_nat k))"
  using crctab_from_nth [OF crctab_from_0] by simp

lemma cr3tab_nth: "k < 256 \<Longrightarrow> cr3tab ! k = crc32_byte (word_of_nat k)"
  using cr3tab_from_nth [OF cr3tab_from_0] by simp

lemma updcrc_bits: "updcrc cp crc = crc16_byte crc XOR cp"
proof -
  let ?hi = "push_bit 8 (take_bit 8 (drop_bit 8 crc))" and ?lo = "take_bit 8 crc"
  have hi: "crctab ! unat (take_bit 8 (drop_bit 8 crc)) = crc16_byte ?hi"
    by (subst crctab_nth) (simp_all only: unat_take_bit_8 of_nat_unat ucast_id)
  have lo: "push_bit 8 crc = crc16_byte ?lo"
    by (subst crc16_byte_low) (auto simp: bit_simps intro: bit_word_eqI)
  have "?hi XOR ?lo = crc"
    by (rule bit_word_eqI) (auto simp: bit_simps)
  then have "crc16_byte ?hi XOR crc16_byte ?lo = crc16_byte crc"
    by (simp only: crc16_byte_xor [symmetric])
  then show ?thesis
    by (simp only: updcrc_def and_255_take_bit hi lo xor.assoc [symmetric])
qed

lemma UPDC32_bits: "UPDC32 b crc = crc32_byte (crc XOR take_bit 8 b)"
proof -
  let ?lo = "take_bit 8 (crc XOR b)" and ?hi = "crc AND NOT (mask 8)"
  have lo: "cr3tab ! unat ?lo = crc32_byte ?lo"
    by (subst cr3tab_nth) (simp_all only: unat_take_bit_8 of_nat_unat ucast_id)
  have m: "drop_bit 8 crc AND 0x00FFFFFF = take_bit 24 (drop_bit 8 crc)"
    by (simp add: take_bit_eq_mask mask_eq_exp_minus_1)
  have hi: "take_bit 24 (drop_bit 8 crc) = crc32_byte ?hi"
    by (subst crc32_byte_high) (auto simp: bit_simps intro!: bit_word_eqI)
  have "?lo XOR ?hi = crc XOR take_bit 8 b"
    by (rule bit_word_eqI) (auto simp: bit_simps)
  then have "crc32_byte ?lo XOR crc32_byte ?hi = crc32_byte (crc XOR take_bit 8 b)"
    by (simp only: crc32_byte_xor [symmetric])
  then show ?thesis
    by (simp only: UPDC32_def and_255_take_bit lo hi m)
qed

lemma be16_inj: "be16 a b = be16 a' b' \<longleftrightarrow> a = a' \<and> b = b'"
proof
  assume eq: "be16 a b = be16 a' b'"
  have "ucast (be16 x y) = y" "ucast (drop_bit 8 (be16 x y)) = x" for x y
    by (rule bit_word_eqI; auto simp: be16_def bit_simps)+
  with eq show "a = a' \<and> b = b'" by metis
qed simp

lemma upd16_bits: "upd16 b c = crc16_byte c XOR ucast b"
  by (simp add: upd16_def updcrc_bits)

lemma upd32_bits: "upd32 b c = crc32_byte (c XOR ucast b)"
proof -
  have "take_bit 8 (ucast b :: u32) = ucast b"
    by (rule bit_word_eqI) (auto simp: bit_simps dest: byte_bitD)
  then show ?thesis by (simp add: upd32_def UPDC32_bits)
qed

lemma crc16_byte_ucast: "crc16_byte (ucast (b :: byte)) = push_bit 8 (ucast b)"
  by (rule crc16_byte_low) (auto simp: bit_simps dest: byte_bitD)

lemma upd16_pair: "fold upd16 [a, b] c = crc16_byte (crc16_byte c) XOR be16 a b"
  by (simp add: upd16_bits crc16_byte_xor crc16_byte_ucast be16_def xor.assoc)

lemma crc32_byte_push: "crc32_byte (push_bit 8 (ucast (b :: byte))) = ucast b"
  by (subst crc32_byte_high) (auto simp: bit_simps intro!: bit_word_eqI, drule byte_bitD, simp)

lemma crc32_byte_push_2: "crc32_byte (push_bit 16 (ucast (b :: byte))) = push_bit 8 (ucast b)"
  by (subst crc32_byte_high) (auto simp: bit_simps intro!: bit_word_eqI, drule byte_bitD, simp)

lemma crc32_byte_push_3: "crc32_byte (push_bit 24 (ucast (b :: byte))) = push_bit 16 (ucast b)"
  by (subst crc32_byte_high) (auto simp: bit_simps intro!: bit_word_eqI, drule byte_bitD, simp)

lemma upd32_quad:
  "fold upd32 [a, b, c, d] r =
     crc32_byte (crc32_byte (crc32_byte (crc32_byte (r XOR le32 a b c d))))"
  by (simp add: upd32_bits crc32_byte_xor crc32_byte_push crc32_byte_push_2 crc32_byte_push_3
      le32_def xor.assoc)

lemma le32_bytes: "le32 (ucast x) (ucast (drop_bit 8 x)) (ucast (drop_bit 16 x)) (ucast (drop_bit 24 x)) = x"
  by (rule bit_word_eqI) (auto simp: le32_def bit_simps)

lemma le32_inj: "le32 a b c d = le32 a' b' c' d' \<longleftrightarrow> a = a' \<and> b = b' \<and> c = c' \<and> d = d'"
proof
  assume eq: "le32 a b c d = le32 a' b' c' d'"
  have "ucast (le32 a b c d) = a" "ucast (drop_bit 8 (le32 a b c d)) = b"
    "ucast (drop_bit 16 (le32 a b c d)) = c" "ucast (drop_bit 24 (le32 a b c d)) = d" for a b c d
    by (rule bit_word_eqI; auto simp: le32_def bit_simps dest: byte_bitD)+
  with eq show "a = a' \<and> b = b' \<and> c = c' \<and> d = d'" by metis
qed simp

lemma residue16: "fold upd16 (trailer16 c) c = 0"
proof -
  have "be16 (ucast (drop_bit 8 x)) (ucast x) = x" for x :: u16
    by (rule bit_word_eqI) (auto simp: be16_def bit_simps)
  then show ?thesis
    by (simp only: trailer16_def Let_def upd16_pair updcrc_bits) simp
qed

lemma residue32_const: "crc32_byte (crc32_byte (crc32_byte (crc32_byte 0xFFFFFFFF))) = 0xDEBB20E3"
  by (simp add: crc32_byte_def funpow_8 crc32_bit_step bit_0)

lemma residue32: "fold upd32 (trailer32 c) c = 0xDEBB20E3"
proof -
  have "c XOR NOT c = 0xFFFFFFFF" by simp
  then show ?thesis
    by (simp only: trailer32_def Let_def upd32_quad le32_bytes residue32_const)
qed

lemma window16:
  assumes "length bs = 2" "length bs' = 2" "fold upd16 bs c = fold upd16 bs' c"
  shows "bs = bs'"
proof -
  from assms(1,2) obtain a b a' b' where bs: "bs = [a, b]" "bs' = [a', b']"
    by (metis length_2_conv)
  from assms(3) have "be16 a b = be16 a' b'"
    unfolding bs upd16_pair by (simp only: word_xor_eq_cancel)
  then show ?thesis by (simp add: bs be16_inj)
qed

lemma window32:
  assumes "length bs = 4" "length bs' = 4" "fold upd32 bs r = fold upd32 bs' r"
  shows "bs = bs'"
proof -
  from assms(1,2) obtain a b c d a' b' c' d' where bs: "bs = [a, b, c, d]" "bs' = [a', b', c', d']"
    by (metis length_4_conv)
  from assms(3) have "le32 a b c d = le32 a' b' c' d'"
    unfolding bs upd32_quad crc32_byte_inj by (simp only: word_xor_eq_cancel)
  then show ?thesis by (simp add: bs le32_inj)
qed

interpretation crc16: frame_check upd16 trailer16 0 2
proof
  show "fold upd16 (trailer16 c) c = 0" for c by (rule residue16)
  show "length (trailer16 c) = 2" for c by (simp add: trailer16_def Let_def)
  show "upd16 b c = upd16 b c' \<Longrightarrow> c = c'" for b c c'
    by (simp add: upd16_bits) (metis crc16_byte_inj word_xor_eq_cancel xor.commute)
  show "length bs = 2 \<Longrightarrow> length bs' = 2 \<Longrightarrow> fold upd16 bs c = fold upd16 bs' c \<Longrightarrow> bs = bs'"
    for bs bs' c by (rule window16)
qed

interpretation crc32: frame_check upd32 trailer32 "0xDEBB20E3" 4
proof
  show "fold upd32 (trailer32 c) c = 0xDEBB20E3" for c by (rule residue32)
  show "length (trailer32 c) = 4" for c by (simp add: trailer32_def Let_def)
  show "upd32 b c = upd32 b c' \<Longrightarrow> c = c'" for b c c'
    by (simp add: upd32_bits crc32_byte_inj) (metis word_xor_eq_cancel xor.commute)
  show "length bs = 4 \<Longrightarrow> length bs' = 4 \<Longrightarrow> fold upd32 bs c = fold upd32 bs' c \<Longrightarrow> bs = bs'"
    for bs bs' c by (rule window32)
qed

subsection \<open>Properties\<close>

text \<open>
  Claim C18: the table-driven steps \<^verbatim>\<open>updcrc\<close> and \<^verbatim>\<open>UPDC32\<close> compute, for every register and
  every character, what the shift registers of the two generator polynomials compute in
  eight single-bit steps. Every one of the 2 times 256 table entries is needed for this.
\<close>

theorem crc_bit_serial:
  "updcrc cp crc = crc16_byte crc XOR cp \<and> UPDC32 b crc' = crc32_byte (crc' XOR take_bit 8 b)"
  using updcrc_bits UPDC32_bits by blast

text \<open>
  Claim C19: a receiver that runs the bytes of a frame and its check bytes through the
  register accepts the frame that was sent and rejects every frame of the same length that
  differs from it inside a window as wide as the register (two bytes for the 16-bit check,
  four for the 32-bit one), in the data, in the check bytes or across both.
\<close>

theorem frame_check_bursts:
  assumes "ds @ trailer16 (fold upd16 ds c) = xs @ bs @ ys" "length bs' = length bs" "bs' \<noteq> bs"
    and "es @ trailer32 (fold upd32 es r) = us @ vs @ ws" "length vs' = length vs" "vs' \<noteq> vs"
    and "length bs \<le> 2" "length vs \<le> 4"
  shows "fold upd16 (xs @ bs @ ys) c = 0 \<and> fold upd16 (xs @ bs' @ ys) c \<noteq> 0
    \<and> fold upd32 (us @ vs @ ws) r = 0xDEBB20E3 \<and> fold upd32 (us @ vs' @ ws) r \<noteq> 0xDEBB20E3"
proof -
  have g: "fold upd16 (xs @ bs @ ys) c = 0" "fold upd32 (us @ vs @ ws) r = 0xDEBB20E3"
    using crc16.fold_sent [of ds c] crc32.fold_sent [of es r] unfolding assms(1,4) by simp_all
  with crc16.burst_detected [of bs bs' xs ys c] crc32.burst_detected [of vs vs' us ws r] assms
  show ?thesis by auto
qed

theorem frame_check_bursts_witness:
  "fold upd16 ([] @ [7] @ [49, 50] @ trailer16 (fold upd16 [48, 49, 50] 0)) 0 \<noteq> 0"
  using frame_check_bursts [of "[48, 49, 50]" 0 "[]" "[48]" "[49, 50] @ trailer16 (fold upd16 [48, 49, 50] 0)" "[7]"
      "[48, 49, 50]" 0 "[]" "[48]" "[49, 50] @ trailer32 (fold upd32 [48, 49, 50] 0)" "[7]"]
  by simp

end
