(* ===== verification/Zreadline.thy ===== *)
theory Zreadline
  imports Prelude
begin

text \<open>
  The serial line as \<^verbatim>\<open>lszrz/zreadline.c\<close>, \<^verbatim>\<open>rbsb.c\<close> and \<^verbatim>\<open>canit.c\<close> see it: buffered
  reading from the peer, buffered (\<^verbatim>\<open>putchar\<close>) and direct (\<^verbatim>\<open>write(1, ...)\<close>) writing to
  it, purging and cancelling. The contract the protocol layer relies on, reading the
  pending bytes in order and TIMEOUT when a read fails, is the locale \<open>byte_source\<close>,
  interpreted on \<open>READLINE_PF\<close>.
\<close>

subsection \<open>Constants of zglobal.h\<close>

abbreviation (input) OK :: int where "OK \<equiv> 0"
abbreviation (input) MYERROR :: int where "MYERROR \<equiv> -1"
abbreviation (input) TIMEOUT :: int where "TIMEOUT \<equiv> -2"
abbreviation (input) RCDO :: int where "RCDO \<equiv> -3"
abbreviation (input) WCEOT :: int where "WCEOT \<equiv> -10"
abbreviation (input) CAN :: "'a::numeral" where "CAN \<equiv> 24"
abbreviation (input) XOFF :: "'a::numeral" where "XOFF \<equiv> 19"
abbreviation (input) XON :: "'a::numeral" where "XON \<equiv> 17"
abbreviation (input) SOH :: "'a::one" where "SOH \<equiv> 1"
abbreviation (input) STX :: "'a::numeral" where "STX \<equiv> 2"
abbreviation (input) EOT :: "'a::numeral" where "EOT \<equiv> 4"
abbreviation (input) ACK :: "'a::numeral" where "ACK \<equiv> 6"
abbreviation (input) NAK :: "'a::numeral" where "NAK \<equiv> 21"
abbreviation (input) CPMEOF :: "'a::numeral" where "CPMEOF \<equiv> 26"
abbreviation (input) WANTCRC :: "'a::numeral" where "WANTCRC \<equiv> 67"
abbreviation (input) WANTG :: "'a::numeral" where "WANTG \<equiv> 71"
abbreviation (input) RETRYMAX :: int where "RETRYMAX \<equiv> 10"

subsection \<open>State\<close>

text \<open>
  \<open>readline_buf\<close> is the part of \<open>readline_buffer\<close> between \<open>readline_ptr\<close> and its end
  (\<open>readline_left\<close> bytes, none when the counter is negative). \<open>line_in\<close> is what the
  peer sends: what is there at each successive \<^verbatim>\<open>read(2)\<close>, an empty chunk being a read
  that fails or meets the end of file, as every read after the last chunk does. \<open>obuf\<close>
  is the stdio buffer of stdout and \<open>wire\<close> what was written to descriptor 1.
\<close>

record line =
  readline_buf :: "byte list"
  readline_readnum :: nat
  line_in :: "byte list list"
  obuf :: "byte list"
  wire :: "byte list"

subsection \<open>Reading (zreadline.c)\<close>

text \<open>\<^verbatim>\<open>read(fd, buf, n)\<close>: at most \<open>n\<close> bytes of what is there, the rest stays.\<close>

fun os_read :: "nat \<Rightarrow> byte list list \<Rightarrow> byte list \<times> byte list list" where
  "os_read n [] = ([], [])"
| "os_read n (c # cs) = (if length c \<le> n then (c, cs) else (take n c, drop n c # cs))"

text \<open>
  The \<open>timeout\<close> argument of \<^verbatim>\<open>readline_internal\<close> only reaches its debugging output, and
  the error injection runs for \<^verbatim>\<open>bytes_per_error\<close> other than 0 only, which no code sets.
\<close>

definition readline_internal :: "'a line_scheme \<Rightarrow> int \<times> 'a line_scheme" where
  "readline_internal s =
     (case os_read (readline_readnum s) (line_in s) of
        ([], rest) \<Rightarrow> (TIMEOUT, s\<lparr>readline_buf := [], line_in := rest\<rparr>)
      | (b # bs, rest) \<Rightarrow> (uint b, s\<lparr>readline_buf := bs, line_in := rest\<rparr>))"

definition READLINE_PF :: "'a line_scheme \<Rightarrow> int \<times> 'a line_scheme" where
  "READLINE_PF s =
     (case readline_buf s of
        b # bs \<Rightarrow> (uint b, s\<lparr>readline_buf := bs\<rparr>)
      | [] \<Rightarrow> readline_internal s)"

definition readline_setup :: "nat \<Rightarrow> 'a line_scheme \<Rightarrow> 'a line_scheme" where
  "readline_setup readnum s = s\<lparr>readline_readnum := readnum\<rparr>"

definition readline_purge :: "'a line_scheme \<Rightarrow> 'a line_scheme" where
  "readline_purge s = s\<lparr>readline_buf := []\<rparr>"

text \<open>\<^verbatim>\<open>rbsb.c\<close>: purging only drops the user-space buffer.\<close>

definition purgeline :: "'a line_scheme \<Rightarrow> 'a line_scheme" where
  "purgeline s = readline_purge s"

subsection \<open>Writing\<close>

text \<open>\<^verbatim>\<open>putchar\<close>, \<^verbatim>\<open>fflush(stdout)\<close> and \<^verbatim>\<open>write(1, ...)\<close>.\<close>

definition xsendline :: "byte \<Rightarrow> 'a line_scheme \<Rightarrow> 'a line_scheme" where
  "xsendline c s = s\<lparr>obuf := obuf s @ [c]\<rparr>"

definition sendline :: "int \<Rightarrow> 'a line_scheme \<Rightarrow> 'a line_scheme" where
  "sendline c s = xsendline (word_of_int (c AND 255)) s"

definition flushmo :: "'a line_scheme \<Rightarrow> 'a line_scheme" where
  "flushmo s = s\<lparr>wire := wire s @ obuf s, obuf := []\<rparr>"

definition write1 :: "byte list \<Rightarrow> 'a line_scheme \<Rightarrow> 'a line_scheme" where
  "write1 bs s = s\<lparr>wire := wire s @ bs\<rparr>"

text \<open>\<^verbatim>\<open>canit(1)\<close>: purge, then ten CAN and ten backspaces.\<close>

definition canistr :: "byte list" where
  "canistr = replicate 10 24 @ replicate 10 8"

definition canit :: "'a line_scheme \<Rightarrow> 'a line_scheme" where
  "canit s = write1 canistr (purgeline s)"

subsection \<open>The contract of the line\<close>

text \<open>\<open>skip rd n\<close> is the state after \<open>n\<close> calls of the reader.\<close>

primrec skip :: "('s \<Rightarrow> int \<times> 's) \<Rightarrow> nat \<Rightarrow> 's \<Rightarrow> 's" where
  "skip rd 0 s = s"
| "skip rd (Suc n) s = skip rd n (snd (rd s))"

lemma skip_skip [simp]: "skip rd m (skip rd n s) = skip rd (n + m) s"
  by (induction n arbitrary: s) simp_all

locale byte_source =
  fixes rd :: "'s \<Rightarrow> int \<times> 's"
    and input :: "'s \<Rightarrow> byte list"
    and ready :: "'s \<Rightarrow> bool"
    and left :: "'s \<Rightarrow> nat"
  assumes rd_Cons: "ready s \<Longrightarrow> input s = b # bs \<Longrightarrow> fst (rd s) = uint b \<and> input (snd (rd s)) = bs"
    and rd_Nil: "input s = [] \<Longrightarrow> fst (rd s) = TIMEOUT"
    and rd_ready: "ready (snd (rd s)) = ready s"
    and rd_left: "fst (rd s) \<noteq> TIMEOUT \<Longrightarrow> left (snd (rd s)) < left s"
    and rd_left_le: "left (snd (rd s)) \<le> left s"
begin

lemma rd_char: "ready s \<Longrightarrow> input s = b # bs \<Longrightarrow> rd s = (uint b, skip rd 1 s)"
  using rd_Cons [of s b bs] by (cases "rd s") simp

lemma ready_skip: "ready (skip rd n s) = ready s"
  by (induction n arbitrary: s) (simp_all add: rd_ready)

lemma input_skip: "ready s \<Longrightarrow> n \<le> length (input s) \<Longrightarrow> input (skip rd n s) = drop n (input s)"
proof (induction n arbitrary: s)
  case (Suc n)
  then obtain b bs where bs: "input s = b # bs" by (cases "input s") auto
  with Suc show ?case using rd_Cons [of s b bs] by (simp add: rd_ready)
qed simp

lemma left_skip: "left (skip rd n s) \<le> left s"
proof (induction n arbitrary: s)
  case (Suc n)
  show ?case using Suc [of "snd (rd s)"] rd_left_le [of s] by simp
qed simp

end

subsection \<open>The line provides the contract\<close>

definition pending :: "'a line_scheme \<Rightarrow> byte list" where
  "pending s = readline_buf s @ concat (takeWhile (\<lambda>c. c \<noteq> []) (line_in s))"

definition bytes_left :: "'a line_scheme \<Rightarrow> nat" where
  "bytes_left s = length (readline_buf s) + sum_list (map length (line_in s))"

lemma os_read_left:
  "os_read n cs = (c, cs') \<Longrightarrow> length c + sum_list (map length cs') = sum_list (map length cs)"
  by (cases cs) (auto split: if_splits)

lemma READLINE_PF_cases:
  obtains (timeout) rest where "READLINE_PF s = (TIMEOUT, s\<lparr>readline_buf := [], line_in := rest\<rparr>)"
    "sum_list (map length rest) \<le> sum_list (map length (line_in s))" "readline_buf s = []"
  | (char) b bs rest where "READLINE_PF s = (uint (b :: byte), s\<lparr>readline_buf := bs, line_in := rest\<rparr>)"
    "Suc (length bs + sum_list (map length rest)) = bytes_left s"
proof (cases "readline_buf s")
  case (Cons b bs)
  then show ?thesis
    by (intro char [where b = b and bs = bs and rest = "line_in s"]) (simp_all add: READLINE_PF_def bytes_left_def)
next
  case Nil
  obtain c rest where rd: "os_read (readline_readnum s) (line_in s) = (c, rest)" by fastforce
  then have len: "length c + sum_list (map length rest) = sum_list (map length (line_in s))"
    by (rule os_read_left)
  show ?thesis
  proof (cases c)
    case Nil': Nil
    with Nil rd len show ?thesis
      by (intro timeout [of rest]) (simp_all add: READLINE_PF_def readline_internal_def)
  next
    case (Cons b bs)
    with Nil rd len show ?thesis
      by (intro char [where b = b and bs = bs and rest = rest])
        (simp_all add: READLINE_PF_def readline_internal_def bytes_left_def)
  qed
qed

lemma pending_Cons:
  assumes "0 < readline_readnum s" "pending s = b # bs"
  shows "fst (READLINE_PF s) = uint b \<and> pending (snd (READLINE_PF s)) = bs"
proof (cases "readline_buf s")
  case (Cons b' bs')
  with assms show ?thesis by (simp add: READLINE_PF_def pending_def)
next
  case Nil
  with assms(2) obtain c cs where cs: "line_in s = c # cs"
    by (cases "line_in s") (simp_all add: pending_def)
  with assms(2) Nil have "c \<noteq> []" by (cases c) (simp_all add: pending_def)
  then obtain b' bs' where c: "c = b' # bs'" by (cases c) auto
  obtain n where n: "readline_readnum s = Suc n"
    using assms by (cases "readline_readnum s") auto
  have bs: "bs = bs' @ concat (takeWhile (\<lambda>c. c \<noteq> []) cs)" and b: "b = b'"
    using assms(2) Nil cs c by (simp_all add: pending_def)
  show ?thesis
  proof (cases "length c \<le> Suc n")
    case True
    then show ?thesis
      by (simp add: READLINE_PF_def readline_internal_def pending_def Nil cs c n bs b)
  next
    case False
    then have "drop n bs' \<noteq> []" by (simp add: c)
    with False show ?thesis
      by (simp add: READLINE_PF_def readline_internal_def pending_def Nil cs c n bs b)
  qed
qed

lemma pending_Nil: "pending s = [] \<Longrightarrow> fst (READLINE_PF s) = TIMEOUT"
proof -
  assume p: "pending s = []"
  then have buf: "readline_buf s = []" by (simp add: pending_def)
  have "line_in s = [] \<or> (\<exists>cs. line_in s = [] # cs)"
  proof (cases "line_in s")
    case (Cons c cs)
    with p buf show ?thesis by (cases c) (simp_all add: pending_def)
  qed simp
  with buf show ?thesis by (auto simp: READLINE_PF_def readline_internal_def)
qed

interpretation line: byte_source READLINE_PF pending "\<lambda>s. 0 < readline_readnum s" bytes_left
proof
  fix s :: "'a line_scheme"
  show "0 < readline_readnum s \<Longrightarrow> pending s = b # bs \<Longrightarrow>
      fst (READLINE_PF s) = uint b \<and> pending (snd (READLINE_PF s)) = bs" for b bs
    by (rule pending_Cons)
  show "pending s = [] \<Longrightarrow> fst (READLINE_PF s) = TIMEOUT" by (rule pending_Nil)
  show "(0 < readline_readnum (snd (READLINE_PF s))) = (0 < readline_readnum s)"
    by (cases rule: READLINE_PF_cases [of s]) simp_all
  show "fst (READLINE_PF s) \<noteq> TIMEOUT \<Longrightarrow> bytes_left (snd (READLINE_PF s)) < bytes_left s"
    by (cases rule: READLINE_PF_cases [of s]) (auto simp: bytes_left_def)
  show "bytes_left (snd (READLINE_PF s)) \<le> bytes_left s"
    by (cases rule: READLINE_PF_cases [of s]) (auto simp: bytes_left_def)
qed

lemma READLINE_PF_range: "fst (READLINE_PF s) = TIMEOUT \<or> 0 \<le> fst (READLINE_PF s)"
  by (cases rule: READLINE_PF_cases [of s]) simp_all

lemma READLINE_PF_less: "READLINE_PF s = (c, s') \<Longrightarrow> c \<noteq> TIMEOUT \<Longrightarrow> bytes_left s' < bytes_left s"
  using line.rd_left [of s] by simp

lemma READLINE_PF_nonneg: "(c, s') = READLINE_PF s \<Longrightarrow> \<not> c < 0 \<Longrightarrow> bytes_left s' < bytes_left s"
  using line.rd_left [of s] by (metis fst_conv snd_conv neg_less_0_iff_less zero_less_numeral)

lemma READLINE_PF_le: "READLINE_PF s = (c, s') \<Longrightarrow> bytes_left s' \<le> bytes_left s"
  using line.rd_left_le [of s] by simp

lemma READLINE_PF_byte: "READLINE_PF s = (c, s') \<Longrightarrow> c \<noteq> TIMEOUT \<Longrightarrow> 0 \<le> c \<and> c < 256"
  by (cases rule: READLINE_PF_cases [of s]) auto

text \<open>
  A reader that takes at least one byte from the line unless it reports TIMEOUT; this is
  what makes the protocol's loops over the line stop.
\<close>

definition reads_from :: "'a line_scheme \<Rightarrow> int \<times> 'a line_scheme \<Rightarrow> bool" where
  "reads_from s r \<longleftrightarrow> bytes_left (snd r) \<le> bytes_left s
     \<and> (fst r \<noteq> TIMEOUT \<longrightarrow> bytes_left (snd r) < bytes_left s)"

lemma reads_from_le: "reads_from s (c, s') \<Longrightarrow> bytes_left s' \<le> bytes_left s"
  by (simp add: reads_from_def)

lemma reads_from_less: "reads_from s (c, s') \<Longrightarrow> c \<noteq> TIMEOUT \<Longrightarrow> bytes_left s' < bytes_left s"
  by (simp add: reads_from_def)

lemma reads_from_trans:
  "bytes_left s1 \<le> bytes_left s \<Longrightarrow> reads_from s1 r \<Longrightarrow> reads_from s r"
  by (auto simp: reads_from_def)

lemma reads_from_stop:
  "reads_from s (c, s') \<Longrightarrow> (c = TIMEOUT \<Longrightarrow> d = TIMEOUT) \<Longrightarrow> reads_from s (d, s')"
  by (auto simp: reads_from_def)

lemma reads_from_READLINE_PF: "reads_from s (READLINE_PF s)"
  unfolding reads_from_def using line.rd_left line.rd_left_le by blast

text \<open>
  The number of pending bytes is all that a reader sees of the chunks: the state after
  reading is the old one but for the two input fields.
\<close>

abbreviation rskip :: "nat \<Rightarrow> 'a line_scheme \<Rightarrow> 'a line_scheme" where
  "rskip \<equiv> skip READLINE_PF"

lemma READLINE_PF_fields:
  "snd (READLINE_PF s) = s\<lparr>readline_buf := readline_buf (snd (READLINE_PF s)),
     line_in := line_in (snd (READLINE_PF s))\<rparr>"
  by (cases rule: READLINE_PF_cases [of s]) simp_all

lemma rskip_fields: "\<exists>lb li. rskip n s = s\<lparr>readline_buf := lb, line_in := li\<rparr>"
proof (induction n arbitrary: s)
  case 0
  show ?case
    by (rule exI [of _ "readline_buf s"], rule exI [of _ "line_in s"]) simp
next
  case (Suc n)
  define s' where "s' = snd (READLINE_PF s)"
  have s': "s' = s\<lparr>readline_buf := readline_buf s', line_in := line_in s'\<rparr>"
    unfolding s'_def by (rule READLINE_PF_fields)
  obtain lb li where "rskip n s' = s'\<lparr>readline_buf := lb, line_in := li\<rparr>"
    using Suc by blast
  also have "\<dots> = s\<lparr>readline_buf := lb, line_in := li\<rparr>"
    by (subst s') simp
  finally show ?case by (auto simp: s'_def)
qed

lemma rskip_frame [frame_simps]:
  "readline_readnum (rskip n s) = readline_readnum s"
  "obuf (rskip n s) = obuf s"
  "wire (rskip n s) = wire s"
  "line.more (rskip n s) = line.more s"
  using rskip_fields [of n s] by auto

declare skip.simps(2) [simp del]

lemma READLINE_PF_code:
  "0 < readline_readnum s \<Longrightarrow> pending s = b # bs \<Longrightarrow> READLINE_PF s = (uint b, rskip 1 s)"
  by (rule line.rd_char)

lemma pending_rskip [frame_simps]:
  "0 < readline_readnum s \<Longrightarrow> n \<le> length (pending s) \<Longrightarrow> pending (rskip n s) = drop n (pending s)"
  by (rule line.input_skip)

text \<open>Reading exactly some chunks leaves the user-space buffer empty.\<close>

lemma rskip_chunks:
  assumes "0 < readline_readnum s" "line_in s = cs @ rest" "[] \<notin> set cs"
  shows "rskip (length (readline_buf s) + length (concat cs)) s = s\<lparr>readline_buf := [], line_in := rest\<rparr>"
  using assms
proof (induction "length (readline_buf s) + length (concat cs)" arbitrary: s cs)
  case 0
  then have "cs = []" by (cases cs) auto
  with 0 show ?case by simp
next
  case (Suc n)
  define s1 where "s1 = snd (READLINE_PF s)"
  obtain cs' where cs': "line_in s1 = cs' @ rest" "[] \<notin> set cs'" "n = length (readline_buf s1) + length (concat cs')"
      "s1 = s\<lparr>readline_buf := readline_buf s1, line_in := line_in s1\<rparr>"
  proof (cases "readline_buf s")
    case (Cons b bs)
    with Suc.prems Suc.hyps(2) show ?thesis
      by (intro that [of cs]) (simp_all add: s1_def READLINE_PF_def)
  next
    case Nil
    with Suc.hyps(2) obtain c cs2 where c: "cs = c # cs2" by (cases cs) auto
    with Suc.prems obtain b bs where b: "c = b # bs" by (cases c) auto
    obtain m where m: "readline_readnum s = Suc m" using Suc.prems(1) by (cases "readline_readnum s") auto
    show ?thesis
    proof (cases "length c \<le> Suc m")
      case True
      with Nil c b m Suc.prems Suc.hyps(2) show ?thesis
        by (intro that [of cs2]) (simp_all add: s1_def READLINE_PF_def readline_internal_def)
    next
      case False
      then have "drop m bs \<noteq> []" by (simp add: b)
      with False Nil c b m Suc.prems Suc.hyps(2) show ?thesis
        by (intro that [of "drop m bs # cs2"]) (simp_all add: s1_def READLINE_PF_def readline_internal_def)
    qed
  qed
  have "0 < readline_readnum s1" using Suc.prems(1) by (subst cs'(4)) simp
  then have "rskip n s1 = s1\<lparr>readline_buf := [], line_in := rest\<rparr>"
    using Suc.hyps(1) [OF cs'(3) _ cs'(1,2)] cs'(3) by simp
  also have "\<dots> = s\<lparr>readline_buf := [], line_in := rest\<rparr>"
    by (subst cs'(4)) simp
  finally show ?case by (simp add: Suc.hyps(2) [symmetric] skip.simps s1_def)
qed

end
