(* ===== verification/Zm.thy ===== *)
theory Zm
  imports Crctab Zreadline
begin

text \<open>
  The ZMODEM frame layer, \<^verbatim>\<open>lszrz/zm.c\<close>: ZDLE escaping, binary and hexadecimal
  headers, data subpackets with 16 and 32 bit checks, and the search for a header in the
  incoming bytes. Messages to the user (\<^verbatim>\<open>VPRINTF\<close>, \<^verbatim>\<open>zperr\<close>, \<^verbatim>\<open>vchar\<close>) are left out.
\<close>

subsection \<open>Constants of zmodem.h\<close>

abbreviation (input) ZPAD :: "'a::numeral" where "ZPAD \<equiv> 42"
abbreviation (input) ZDLE :: "'a::numeral" where "ZDLE \<equiv> 24"
abbreviation (input) ZBIN :: "'a::numeral" where "ZBIN \<equiv> 65"
abbreviation (input) ZHEX :: "'a::numeral" where "ZHEX \<equiv> 66"
abbreviation (input) ZBIN32 :: "'a::numeral" where "ZBIN32 \<equiv> 67"
abbreviation (input) ZRQINIT :: int where "ZRQINIT \<equiv> 0"
abbreviation (input) ZRINIT :: int where "ZRINIT \<equiv> 1"
abbreviation (input) ZSINIT :: int where "ZSINIT \<equiv> 2"
abbreviation (input) ZACK :: int where "ZACK \<equiv> 3"
abbreviation (input) ZFILE :: int where "ZFILE \<equiv> 4"
abbreviation (input) ZSKIP :: int where "ZSKIP \<equiv> 5"
abbreviation (input) ZNAK :: int where "ZNAK \<equiv> 6"
abbreviation (input) ZABORT :: int where "ZABORT \<equiv> 7"
abbreviation (input) ZFIN :: int where "ZFIN \<equiv> 8"
abbreviation (input) ZRPOS :: int where "ZRPOS \<equiv> 9"
abbreviation (input) ZDATA :: int where "ZDATA \<equiv> 10"
abbreviation (input) ZEOF :: int where "ZEOF \<equiv> 11"
abbreviation (input) ZFERR :: int where "ZFERR \<equiv> 12"
abbreviation (input) ZCRC :: int where "ZCRC \<equiv> 13"
abbreviation (input) ZCHALLENGE :: int where "ZCHALLENGE \<equiv> 14"
abbreviation (input) ZCOMPL :: int where "ZCOMPL \<equiv> 15"
abbreviation (input) ZCAN :: int where "ZCAN \<equiv> 16"
abbreviation (input) ZFREECNT :: int where "ZFREECNT \<equiv> 17"
abbreviation (input) ZCOMMAND :: int where "ZCOMMAND \<equiv> 18"
abbreviation (input) ZCRCE :: "'a::numeral" where "ZCRCE \<equiv> 104"
abbreviation (input) ZCRCG :: "'a::numeral" where "ZCRCG \<equiv> 105"
abbreviation (input) ZCRCQ :: "'a::numeral" where "ZCRCQ \<equiv> 106"
abbreviation (input) ZCRCW :: "'a::numeral" where "ZCRCW \<equiv> 107"
abbreviation (input) ZRUB0 :: "'a::numeral" where "ZRUB0 \<equiv> 108"
abbreviation (input) ZRUB1 :: "'a::numeral" where "ZRUB1 \<equiv> 109"
abbreviation (input) GOTOR :: int where "GOTOR \<equiv> 256"
abbreviation (input) GOTCRCE :: int where "GOTCRCE \<equiv> 360"
abbreviation (input) GOTCRCG :: int where "GOTCRCG \<equiv> 361"
abbreviation (input) GOTCRCQ :: int where "GOTCRCQ \<equiv> 362"
abbreviation (input) GOTCRCW :: int where "GOTCRCW \<equiv> 363"
abbreviation (input) GOTCAN :: int where "GOTCAN \<equiv> 280"
abbreviation (input) ZF0 :: nat where "ZF0 \<equiv> 3"
abbreviation (input) ZF1 :: nat where "ZF1 \<equiv> 2"
abbreviation (input) ZF2 :: nat where "ZF2 \<equiv> 1"
abbreviation (input) ZF3 :: nat where "ZF3 \<equiv> 0"
abbreviation (input) ZP0 :: nat where "ZP0 \<equiv> 0"
abbreviation (input) ZP1 :: nat where "ZP1 \<equiv> 1"
abbreviation (input) ZP2 :: nat where "ZP2 \<equiv> 2"
abbreviation (input) ZP3 :: nat where "ZP3 \<equiv> 3"
abbreviation (input) CANFDX :: "'a::one" where "CANFDX \<equiv> 1"
abbreviation (input) CANOVIO :: "'a::numeral" where "CANOVIO \<equiv> 2"
abbreviation (input) CANFC32 :: "'a::numeral" where "CANFC32 \<equiv> 32"
abbreviation (input) TESCCTL :: "'a::numeral" where "TESCCTL \<equiv> 64"
abbreviation (input) ZATTNLEN :: nat where "ZATTNLEN \<equiv> 32"

subsection \<open>State\<close>

datatype zm_type_enum = ZM_XMODEM | ZM_YMODEM | ZM_ZMODEM

text \<open>
  The globals of \<^verbatim>\<open>zm.c\<close> and those of \<^verbatim>\<open>lsz.c\<close>/\<^verbatim>\<open>lrz.c\<close> it reads or writes. The header
  buffers hold four bytes, \<open>zsendline_tab\<close> 256 entries.
\<close>

record zm = line +
  Rxframeind :: int
  Rxtype :: int
  Rxhdr :: "byte list"
  Txhdr :: "byte list"
  Txfcs32 :: bool
  Crc32t :: bool
  Crc32 :: int
  Znulls :: nat
  Attn :: "byte list"
  lastsent :: byte
  turbo_escape :: bool
  Zctlesc :: int
  zsendline_tab :: "nat list"
  Zrwindow :: u32
  Baudrate :: u32
  zmodem_requested :: bool
  protocol :: zm_type_enum
  errors :: int

text \<open>
  The initial values of the globals, after \<^verbatim>\<open>readline_setup\<close> with the \<^verbatim>\<open>HOWMANY\<close> of the
  receiver.
\<close>

definition zm_init :: zm where
  "zm_init = \<lparr>readline_buf = [], readline_readnum = 255, line_in = [], obuf = [], wire = [],
     Rxframeind = 0, Rxtype = 0, Rxhdr = [0, 0, 0, 0], Txhdr = [0, 0, 0, 0], Txfcs32 = False,
     Crc32t = False, Crc32 = 0, Znulls = 0, Attn = replicate 33 0, lastsent = 0, turbo_escape = False,
     Zctlesc = 0, zsendline_tab = replicate 256 0, Zrwindow = 1400, Baudrate = 2400,
     zmodem_requested = False, protocol = ZM_XMODEM, errors = 0\<rparr>"

subsection \<open>Receiving characters\<close>

text \<open>
  The loops that read on until they meet a character of interest stop because each
  round takes a byte from the line.
\<close>

function noxrd7 :: "'a zm_scheme \<Rightarrow> int \<times> 'a zm_scheme" where
  "noxrd7 s =
     (case READLINE_PF s of (c, s') \<Rightarrow>
        if c < 0 then (c, s')
        else let c = c AND 127 in
          if c = XON \<or> c = XOFF then noxrd7 s'
          else if c = 13 \<or> c = 10 \<or> c = ZDLE then (c, s')
          else if Zctlesc s \<noteq> 0 \<and> c AND 96 = 0 then noxrd7 s'
          else (c, s'))"
  by pat_completeness auto
termination
  by (relation "measure bytes_left") (auto dest: READLINE_PF_nonneg simp: Let_def)

definition zgeth1 :: "'a zm_scheme \<Rightarrow> int \<times> 'a zm_scheme" where
  "zgeth1 s =
     (case noxrd7 s of (c, s1) \<Rightarrow>
        if c < 0 then (c, s1)
        else let n = c - 48; n = (if n > 9 then n - 39 else n) in
          if n AND NOT 15 \<noteq> 0 then (MYERROR, s1)
          else (case noxrd7 s1 of (c, s2) \<Rightarrow>
            if c < 0 then (c, s2)
            else let c = c - 48; c = (if c > 9 then c - 39 else c) in
              if c AND NOT 15 \<noteq> 0 then (MYERROR, s2)
              else (c + push_bit 4 n, s2)))"

definition zgethex :: "'a zm_scheme \<Rightarrow> int \<times> 'a zm_scheme" where
  "zgethex s = zgeth1 s"

text \<open>
  \<^verbatim>\<open>zdlread2\<close> from its label \<open>again2\<close>, after a ZDLE: up to four more CAN are looked at,
  and flow control characters are skipped.
\<close>

definition rd_if_can :: "int \<times> 'a zm_scheme \<Rightarrow> int \<times> 'a zm_scheme" where
  "rd_if_can r = (case r of (c, s) \<Rightarrow> if c = CAN then READLINE_PF s else (c, s))"

definition zdl_cans :: "'a zm_scheme \<Rightarrow> int \<times> 'a zm_scheme" where
  "zdl_cans s = rd_if_can (rd_if_can (rd_if_can (READLINE_PF s)))"

lemma reads_from_rd_if_can: "reads_from s r \<Longrightarrow> reads_from s (rd_if_can r)"
  by (cases r)
    (auto simp: rd_if_can_def intro: reads_from_trans reads_from_READLINE_PF reads_from_le)

lemma reads_from_zdl_cans: "reads_from s (zdl_cans s)"
  unfolding zdl_cans_def by (intro reads_from_rd_if_can reads_from_READLINE_PF)

lemma zdl_cans_nonneg: "(c, s') = zdl_cans s \<Longrightarrow> \<not> c < 0 \<Longrightarrow> bytes_left s' < bytes_left s"
  using reads_from_zdl_cans [of s] by (cases "zdl_cans s") (auto simp: reads_from_def)

function zdl_again2 :: "'a zm_scheme \<Rightarrow> int \<times> 'a zm_scheme" where
  "zdl_again2 s =
     (case zdl_cans s of (c, s') \<Rightarrow>
        if c < 0 then (c, s')
        else if c = CAN then (GOTCAN, s')
        else if c = ZCRCE \<or> c = ZCRCG \<or> c = ZCRCQ \<or> c = ZCRCW then (c OR GOTOR, s')
        else if c = ZRUB0 then (127, s')
        else if c = ZRUB1 then (255, s')
        else if c = XON \<or> c = XON + 128 \<or> c = XOFF \<or> c = XOFF + 128 then zdl_again2 s'
        else if Zctlesc s \<noteq> 0 \<and> c AND 96 = 0 then zdl_again2 s'
        else if c AND 96 = 64 then (c XOR 64, s')
        else (MYERROR, s'))"
  by pat_completeness auto
termination
  by (relation "measure bytes_left") (auto dest: zdl_cans_nonneg)

text \<open>\<^verbatim>\<open>zdlread2\<close>; its label \<open>again\<close> reads and tests as \<^verbatim>\<open>zdlread\<close> does.\<close>

function zdlread2 :: "int \<Rightarrow> 'a zm_scheme \<Rightarrow> int \<times> 'a zm_scheme" where
  "zdlread2 c s =
     (if c = ZDLE then zdl_again2 s
      else if c = XON \<or> c = XON + 128 \<or> c = XOFF \<or> c = XOFF + 128
          \<or> Zctlesc s \<noteq> 0 \<and> c AND 96 = 0 then
        (case READLINE_PF s of (c', s') \<Rightarrow>
           if c' AND 96 \<noteq> 0 then (c', s') else zdlread2 c' s')
      else (c, s))"
  by pat_completeness auto
termination
proof (relation "measure (\<lambda>(c, s). bytes_left s)")
  fix c s x y
  assume rd: "(x, y) = READLINE_PF s" and "\<not> x AND 96 \<noteq> 0"
  then have "x \<noteq> TIMEOUT" by auto
  then have "bytes_left y < bytes_left s" by (rule READLINE_PF_less [OF rd [symmetric]])
  then show "((x, y), c, s) \<in> measure (\<lambda>(c, s). bytes_left s)" by simp
qed simp

definition zdlread :: "'a zm_scheme \<Rightarrow> int \<times> 'a zm_scheme" where
  "zdlread s =
     (case READLINE_PF s of (c, s') \<Rightarrow> if c AND 96 \<noteq> 0 then (c, s') else zdlread2 c s')"

declare noxrd7.simps [simp del] zdl_again2.simps [simp del] zdlread2.simps [simp del]

subsection \<open>The reading loops stop\<close>

text \<open>The loops, with what they skip and what they return told apart.\<close>

definition noxrd7_skips :: "'a zm_scheme \<Rightarrow> int \<Rightarrow> bool" where
  "noxrd7_skips s c \<longleftrightarrow> 0 \<le> c \<and> (let c = c AND 127 in c = XON \<or> c = XOFF
     \<or> Zctlesc s \<noteq> 0 \<and> c AND 96 = 0 \<and> c \<noteq> 13 \<and> c \<noteq> 10 \<and> c \<noteq> ZDLE)"

lemma noxrd7_unfold:
  "noxrd7 s = (case READLINE_PF s of (c, s') \<Rightarrow>
     if noxrd7_skips s c then noxrd7 s' else (if c < 0 then c else c AND 127, s'))"
  by (subst noxrd7.simps) (auto simp: noxrd7_skips_def Let_def split: prod.split)

definition zdl_again2_skips :: "'a zm_scheme \<Rightarrow> int \<Rightarrow> bool" where
  "zdl_again2_skips s c \<longleftrightarrow> c = XON \<or> c = XON + 128 \<or> c = XOFF \<or> c = XOFF + 128
     \<or> Zctlesc s \<noteq> 0 \<and> 0 \<le> c \<and> c AND 96 = 0 \<and> c \<noteq> CAN"

definition zdl_value :: "int \<Rightarrow> int" where
  "zdl_value c =
     (if c < 0 then c else if c = CAN then GOTCAN
      else if c = ZCRCE \<or> c = ZCRCG \<or> c = ZCRCQ \<or> c = ZCRCW then c OR GOTOR
      else if c = ZRUB0 then 127 else if c = ZRUB1 then 255
      else if c AND 96 = 64 then c XOR 64 else MYERROR)"

lemma zdl_again2_unfold:
  "zdl_again2 s = (case zdl_cans s of (c, s') \<Rightarrow>
     if zdl_again2_skips s c then zdl_again2 s' else (zdl_value c, s'))"
  by (subst zdl_again2.simps) (auto simp: zdl_again2_skips_def zdl_value_def split: prod.split)

definition zdlread2_skips :: "'a zm_scheme \<Rightarrow> int \<Rightarrow> bool" where
  "zdlread2_skips s c \<longleftrightarrow> c \<noteq> ZDLE \<and> (c = XON \<or> c = XON + 128 \<or> c = XOFF \<or> c = XOFF + 128
     \<or> Zctlesc s \<noteq> 0 \<and> c AND 96 = 0)"

lemma zdlread2_unfold:
  "zdlread2 c s = (if c = ZDLE then zdl_again2 s
     else if zdlread2_skips s c then zdlread s else (c, s))"
  by (subst zdlread2.simps) (auto simp: zdlread2_skips_def zdlread_def)

lemma reads_from_noxrd7: "reads_from s (noxrd7 s)"
proof (induction "bytes_left s" arbitrary: s rule: less_induct)
  case less
  obtain c s' where rd: "READLINE_PF s = (c, s')" by fastforce
  then have r: "reads_from s (c, s')" using reads_from_READLINE_PF by metis
  show ?case
  proof (cases "noxrd7_skips s c")
    case True
    then have "c \<noteq> TIMEOUT" by (auto simp: noxrd7_skips_def)
    then have l: "bytes_left s' < bytes_left s" by (rule reads_from_less [OF r])
    from less [OF l] reads_from_trans [OF less_imp_le [OF l]] True show ?thesis
      by (simp add: noxrd7_unfold [of s] rd)
  next
    case False
    with reads_from_stop [OF r] show ?thesis by (simp add: noxrd7_unfold [of s] rd)
  qed
qed

lemma reads_from_zdl_again2: "reads_from s (zdl_again2 s)"
proof (induction "bytes_left s" arbitrary: s rule: less_induct)
  case less
  obtain c s' where rd: "zdl_cans s = (c, s')" by fastforce
  then have r: "reads_from s (c, s')" using reads_from_zdl_cans by metis
  show ?case
  proof (cases "zdl_again2_skips s c")
    case True
    then have "c \<noteq> TIMEOUT" by (auto simp: zdl_again2_skips_def)
    then have l: "bytes_left s' < bytes_left s" by (rule reads_from_less [OF r])
    from less [OF l] reads_from_trans [OF less_imp_le [OF l]] True show ?thesis
      by (simp add: zdl_again2_unfold [of s] rd)
  next
    case False
    with reads_from_stop [OF r] show ?thesis
      by (simp add: zdl_again2_unfold [of s] rd zdl_value_def)
  qed
qed

lemma reads_from_zdlread: "reads_from s (zdlread s)"
proof (induction "bytes_left s" arbitrary: s rule: less_induct)
  case less
  obtain c s' where rd: "READLINE_PF s = (c, s')" by fastforce
  then have r: "reads_from s (c, s')" using reads_from_READLINE_PF by metis
  show ?case
  proof (cases "c AND 96 \<noteq> 0")
    case True
    with r show ?thesis by (simp add: zdlread_def rd)
  next
    case False
    then have "c \<noteq> TIMEOUT" by auto
    then have l: "bytes_left s' < bytes_left s" by (rule reads_from_less [OF r])
    from reads_from_trans [OF less_imp_le [OF l] reads_from_zdl_again2]
      reads_from_trans [OF less_imp_le [OF l] less [OF l]] r False show ?thesis
      by (simp add: zdlread_def rd zdlread2_unfold)
  qed
qed

lemma reads_from_zgethex: "reads_from s (zgethex s)"
proof -
  obtain c s1 where n1: "noxrd7 s = (c, s1)" by fastforce
  obtain d s2 where n2: "noxrd7 s1 = (d, s2)" by fastforce
  have r1: "reads_from s (c, s1)" using reads_from_noxrd7 [of s] n1 by simp
  have r2: "reads_from s (d, s2)"
    using reads_from_trans [OF reads_from_le [OF r1] reads_from_noxrd7] n2 by simp
  have less: "reads_from s (e, s2)" if "\<not> d < 0" for e
    using that r2 by (auto simp: reads_from_def)
  have less1: "reads_from s (e, s1)" if "\<not> c < 0" for e
    using that r1 by (auto simp: reads_from_def)
  show ?thesis
    using r1 r2 less less1 by (simp add: zgethex_def zgeth1_def n1 n2 Let_def)
qed

subsection \<open>Sending characters\<close>

definition zsendline_entry :: "bool \<Rightarrow> int \<Rightarrow> nat \<Rightarrow> nat" where
  "zsendline_entry turbo ctlesc i =
     (if i AND 96 \<noteq> 0 then 0
      else if i = ZDLE \<or> i = XOFF \<or> i = XON \<or> i = XOFF + 128 \<or> i = XON + 128 then 1
      else if i = 16 \<or> i = 144 then (if turbo then 0 else 1)
      else if i = 13 \<or> i = 141 then
        (if ctlesc \<noteq> 0 then 1 else if \<not> turbo then 2 else 0)
      else if ctlesc \<noteq> 0 then 1 else 0)"

definition zsendline_init :: "'a zm_scheme \<Rightarrow> 'a zm_scheme" where
  "zsendline_init s =
     s\<lparr>zsendline_tab := map (zsendline_entry (turbo_escape s) (Zctlesc s)) [0..<256]\<rparr>"

definition send_plain :: "byte \<Rightarrow> 'a zm_scheme \<Rightarrow> 'a zm_scheme" where
  "send_plain c s = (xsendline c s)\<lparr>lastsent := c\<rparr>"

definition send_escaped :: "byte \<Rightarrow> 'a zm_scheme \<Rightarrow> 'a zm_scheme" where
  "send_escaped c s = send_plain (c XOR 64) (xsendline ZDLE s)"

text \<open>The switch on the table entry that \<^verbatim>\<open>zsendline\<close> and \<^verbatim>\<open>zsendline_s\<close> share.\<close>

definition zsend_by_entry :: "nat \<Rightarrow> byte \<Rightarrow> 'a zm_scheme \<Rightarrow> 'a zm_scheme" where
  "zsend_by_entry e c s =
     (if e = 0 then send_plain c s
      else if e = 1 then send_escaped c s
      else if e = 2 then
        (if lastsent s AND 127 \<noteq> 64 then send_plain c s else send_escaped c s)
      else s)"

definition zsendline :: "byte \<Rightarrow> 'a zm_scheme \<Rightarrow> 'a zm_scheme" where
  "zsendline c s = zsend_by_entry (zsendline_tab s ! unat c) c s"

text \<open>
  \<^verbatim>\<open>zsendline_s\<close> writes the longest run of characters that need no escape at once, then
  one character that may.
\<close>

function zsendline_s :: "byte list \<Rightarrow> 'a zm_scheme \<Rightarrow> 'a zm_scheme" where
  "zsendline_s bs s =
     (if bs = [] then s
      else
        let plain = (\<lambda>b. zsendline_tab s ! unat b = 0);
            run = takeWhile plain bs;
            rest = dropWhile plain bs;
            s = (if run \<noteq> [] then s\<lparr>obuf := obuf s @ run, lastsent := last run\<rparr> else s)
        in (case rest of
              [] \<Rightarrow> s
            | c # rest' \<Rightarrow> zsendline_s rest' (zsend_by_entry (zsendline_tab s ! unat c) c s)))"
  by pat_completeness auto
termination
proof (relation "measure (\<lambda>(bs, s). length bs)", simp, goal_cases)
  case (1 bs s x xa xb xc x21 x22)
  then have "length (x21 # x22) \<le> length bs" by (metis length_dropWhile_le)
  then show ?case by simp
qed

declare zsendline_s.simps [simp del]

subsection \<open>Sending headers\<close>

text \<open>\<^verbatim>\<open>stohdr\<close> and \<^verbatim>\<open>rclhdr\<close>; a \<^verbatim>\<open>long\<close> has 32 bits.\<close>

definition hdr_of :: "u32 \<Rightarrow> byte list" where
  "hdr_of l = [ucast l, ucast (drop_bit 8 l), ucast (drop_bit 16 l), ucast (drop_bit 24 l)]"

definition stohdr :: "nat \<Rightarrow> 'a zm_scheme \<Rightarrow> 'a zm_scheme" where
  "stohdr pos s = s\<lparr>Txhdr := hdr_of (word_of_nat pos)\<rparr>"

definition rclhdr :: "byte list \<Rightarrow> u32" where
  "rclhdr hdr =
     (let l = ucast (hdr ! ZP3);
          l = push_bit 8 l OR ucast (hdr ! ZP2);
          l = push_bit 8 l OR ucast (hdr ! ZP1)
      in push_bit 8 l OR ucast (hdr ! ZP0))"

definition zsbh32 :: "byte list \<Rightarrow> int \<Rightarrow> 'a zm_scheme \<Rightarrow> 'a zm_scheme" where
  "zsbh32 hdr type s =
     (let s = zsendline (word_of_int type) (xsendline ZBIN32 s);
          crc = UPDC32 (word_of_int type) 0xFFFFFFFF;
          (crc, s) = fold (\<lambda>h (crc, s). (UPDC32 (ucast h) crc, zsendline h s)) hdr (crc, s);
          crc = NOT crc
      in fold zsendline
           [ucast crc, ucast (drop_bit 8 crc), ucast (drop_bit 16 crc), ucast (drop_bit 24 crc)] s)"

definition zsbhdr :: "int \<Rightarrow> byte list \<Rightarrow> 'a zm_scheme \<Rightarrow> 'a zm_scheme" where
  "zsbhdr type hdr s =
     (let s = (if type = ZDATA then (xsendline 0 ^^ Znulls s) s else s);
          s = xsendline ZDLE (xsendline ZPAD s);
          s = s\<lparr>Crc32t := Txfcs32 s\<rparr>;
          s = (if Crc32t s then zsbh32 hdr type s
               else
                 let s = zsendline (word_of_int type) (xsendline ZBIN s);
                     crc = updcrc (word_of_int type) 0;
                     (s, crc) = fold (\<lambda>h (s, crc). (zsendline h s, updcrc (ucast h) crc)) hdr (s, crc);
                     crc = updcrc 0 (updcrc 0 crc)
                 in zsendline (ucast crc) (zsendline (ucast (drop_bit 8 crc)) s))
      in if type \<noteq> ZDATA then flushmo s else s)"

definition digits :: "byte list" where
  "digits = [48, 49, 50, 51, 52, 53, 54, 55, 56, 57, 97, 98, 99, 100, 101, 102]"

definition zputhex :: "byte \<Rightarrow> byte list" where
  "zputhex c = [digits ! unat (drop_bit 4 (c AND 0xF0)), digits ! unat (c AND 0x0F)]"

definition zshhdr :: "int \<Rightarrow> byte list \<Rightarrow> 'a zm_scheme \<Rightarrow> 'a zm_scheme" where
  "zshhdr type hdr s =
     (let t = type AND 0x7f;
          out = [ZPAD, ZPAD, ZDLE, ZHEX] @ zputhex (word_of_int t);
          s = s\<lparr>Crc32t := False\<rparr>;
          crc = updcrc (word_of_int t) 0;
          (out, crc) = fold (\<lambda>h (out, crc). (out @ zputhex h, updcrc (ucast h) crc)) hdr (out, crc);
          crc = updcrc 0 (updcrc 0 crc);
          out = out @ zputhex (ucast (drop_bit 8 crc)) @ zputhex (ucast crc);
          out = out @ [13, 138];
          out = (if type \<noteq> ZFIN \<and> type \<noteq> ZACK then out @ [17] else out)
      in write1 out (flushmo s))"

subsection \<open>Sending data subpackets\<close>

text \<open>
  The \<^verbatim>\<open>do ... while (--length > 0)\<close> of \<^verbatim>\<open>zsdata\<close> over the bytes the buffer holds;
  \<open>None\<close> is a read past its end. The length is a \<^verbatim>\<open>size_t\<close>.
\<close>

fun zsdata_loop :: "byte list \<Rightarrow> u64 \<Rightarrow> u16 \<Rightarrow> 'a zm_scheme \<Rightarrow> (u16 \<times> 'a zm_scheme) option" where
  "zsdata_loop [] len crc s = None"
| "zsdata_loop (b # buf) len crc s =
     (let s = zsendline b s; crc = updcrc (ucast b) crc; len = len - 1
      in if len > 0 then zsdata_loop buf len crc s else Some (crc, s))"

definition zsdata :: "byte list \<Rightarrow> u64 \<Rightarrow> byte \<Rightarrow> 'a zm_scheme \<Rightarrow> 'a zm_scheme option" where
  "zsdata buf len frameend s =
     (case zsdata_loop buf len 0 s of
        None \<Rightarrow> None
      | Some (crc, s) \<Rightarrow>
          let s = xsendline frameend (xsendline ZDLE s);
              crc = updcrc (ucast frameend) crc;
              crc = updcrc 0 (updcrc 0 crc);
              s = zsendline (ucast crc) (zsendline (ucast (drop_bit 8 crc)) s)
          in Some (if frameend = ZCRCW then flushmo (xsendline XON s) else s))"

definition zsda32_crc :: "byte \<Rightarrow> 'a zm_scheme \<Rightarrow> 'a zm_scheme" where
  "zsda32_crc c s = (if c AND 96 \<noteq> 0 then send_plain c s else zsendline c s)"

definition zsda32 :: "byte list \<Rightarrow> u64 \<Rightarrow> byte \<Rightarrow> 'a zm_scheme \<Rightarrow> 'a zm_scheme option" where
  "zsda32 buf len frameend s =
     (if length buf < unat len then None
      else
        let data = take (unat len) buf;
            s = zsendline_s data s;
            crc = fold (\<lambda>c. UPDC32 (ucast c)) data 0xFFFFFFFF;
            s = xsendline frameend (xsendline ZDLE s);
            crc = NOT (UPDC32 (ucast frameend) crc);
            s = fold zsda32_crc
              [ucast crc, ucast (drop_bit 8 crc), ucast (drop_bit 16 crc), ucast (drop_bit 24 crc)] s
        in Some (if frameend = ZCRCW then flushmo (xsendline XON s) else s))"

subsection \<open>Receiving data subpackets\<close>

abbreviation upd16i :: "int \<Rightarrow> u16 \<Rightarrow> u16" where
  "upd16i c \<equiv> updcrc (word_of_int c)"

abbreviation upd32i :: "int \<Rightarrow> u32 \<Rightarrow> u32" where
  "upd32i c \<equiv> UPDC32 (word_of_int c)"

text \<open>The test \<^verbatim>\<open>c & ~0377\<close>: not a plain data byte.\<close>

definition special :: "int \<Rightarrow> bool" where
  "special c \<longleftrightarrow> c AND NOT 255 \<noteq> 0"

text \<open>
  Reading \<open>n\<close> check bytes into the register; the left result is the character that ended
  the reading early.
\<close>

fun rd_check :: "('s \<Rightarrow> int \<times> 's) \<Rightarrow> (int \<Rightarrow> bool) \<Rightarrow> (int \<Rightarrow> 'w \<Rightarrow> 'w) \<Rightarrow> nat \<Rightarrow> 'w \<Rightarrow> 's
    \<Rightarrow> (int \<times> 'w \<times> 's) + ('w \<times> 's)" where
  "rd_check rd bad upd 0 crc s = Inr (crc, s)"
| "rd_check rd bad upd (Suc n) crc s =
     (case rd s of (c, s') \<Rightarrow>
        if bad c then Inl (c, crc, s') else rd_check rd bad upd n (upd c crc) s')"

lemma rd_check_left:
  assumes "rd_check zdlread special upd n crc s = Inl (c, crc', s')"
  shows "reads_from s (c, s')"
  using assms
proof (induction n arbitrary: crc s)
  case (Suc n)
  obtain c0 s0 where rd: "zdlread s = (c0, s0)" by fastforce
  then have r: "reads_from s (c0, s0)" using reads_from_zdlread by metis
  from Suc.prems rd show ?case
    using r Suc.IH reads_from_trans [OF reads_from_le [OF r]]
    by (auto split: if_splits)
qed simp

text \<open>
  The code at the label \<open>crcfoo\<close> of \<^verbatim>\<open>zrdata\<close> (two check bytes, residue 0) and
  \<^verbatim>\<open>zrdat32\<close> (four, residue \<^verbatim>\<open>0xDEBB20E3\<close>): the return value, whether the subpacket is
  good, and the state.
\<close>

function crcfoo :: "(int \<Rightarrow> 'w \<Rightarrow> 'w) \<Rightarrow> nat \<Rightarrow> 'w \<Rightarrow> int \<Rightarrow> 'w \<Rightarrow> 'a zm_scheme
    \<Rightarrow> int \<times> bool \<times> 'a zm_scheme" where
  "crcfoo upd n good c crc s =
     (if c = GOTCRCE \<or> c = GOTCRCG \<or> c = GOTCRCQ \<or> c = GOTCRCW then
        (case rd_check zdlread special upd n (upd (c AND 255) crc) s of
           Inl (c', crc', s') \<Rightarrow> crcfoo upd n good c' crc' s'
         | Inr (crc', s') \<Rightarrow>
             if crc' \<noteq> good then (MYERROR, False, s') else (c, True, s'))
      else if c = GOTCAN then (ZCAN, False, s)
      else (c, False, s))"
  by pat_completeness auto
termination
  by (relation "measure (\<lambda>(upd, n, good, c, crc, s).
        2 * bytes_left s + (if c = TIMEOUT then 0 else 1))")
     (auto dest!: sym [of "Inl _"] dest: rd_check_left simp: reads_from_def)

declare crcfoo.simps [simp del]

text \<open>
  The loop \<^verbatim>\<open>while (buf <= end)\<close>: \<open>k\<close> bytes may still be stored. The results are the
  return value, \<^verbatim>\<open>*bytes_received\<close>, the bytes stored and the state.
\<close>

fun zrdata_loop :: "(int \<Rightarrow> 'w \<Rightarrow> 'w) \<Rightarrow> nat \<Rightarrow> 'w \<Rightarrow> nat \<Rightarrow> 'w \<Rightarrow> byte list \<Rightarrow> 'a zm_scheme
    \<Rightarrow> int \<times> nat \<times> byte list \<times> 'a zm_scheme" where
  "zrdata_loop upd n good 0 crc buf s = (MYERROR, 0, buf, s)"
| "zrdata_loop upd n good (Suc k) crc buf s =
     (case zdlread s of (c, s') \<Rightarrow>
        if special c then
          (case crcfoo upd n good c crc s' of
             (r, ok, s'') \<Rightarrow> (r, if ok then length buf else 0, buf, s''))
        else zrdata_loop upd n good k (upd c crc) (buf @ [word_of_int c]) s')"

definition zrdat32 :: "nat \<Rightarrow> 'a zm_scheme \<Rightarrow> int \<times> nat \<times> byte list \<times> 'a zm_scheme" where
  "zrdat32 len s = zrdata_loop upd32i 4 0xDEBB20E3 (Suc len) 0xFFFFFFFF [] s"

definition zrdata :: "nat \<Rightarrow> 'a zm_scheme \<Rightarrow> int \<times> nat \<times> byte list \<times> 'a zm_scheme" where
  "zrdata len s =
     (if Rxframeind s = ZBIN32 then zrdat32 len s
      else zrdata_loop upd16i 2 0 (Suc len) 0 [] s)"

subsection \<open>Receiving headers\<close>

text \<open>The four header bytes go to \<^verbatim>\<open>Rxhdr\<close>, which every caller passes, one by one.\<close>

fun rd_hdr :: "('a zm_scheme \<Rightarrow> int \<times> 'a zm_scheme) \<Rightarrow> (int \<Rightarrow> bool) \<Rightarrow> (int \<Rightarrow> 'w \<Rightarrow> 'w) \<Rightarrow> nat list
    \<Rightarrow> 'w \<Rightarrow> 'a zm_scheme \<Rightarrow> (int \<times> 'a zm_scheme) + ('w \<times> 'a zm_scheme)" where
  "rd_hdr rd bad upd [] crc s = Inr (crc, s)"
| "rd_hdr rd bad upd (i # is) crc s =
     (case rd s of (c, s') \<Rightarrow>
        if bad c then Inl (c, s')
        else rd_hdr rd bad upd is (upd c crc) (s'\<lparr>Rxhdr := (Rxhdr s')[i := word_of_int c]\<rparr>))"

text \<open>
  What \<^verbatim>\<open>zrbhdr\<close>, \<^verbatim>\<open>zrbhdr32\<close> and \<^verbatim>\<open>zrhhdr\<close> share: the type, the header bytes, the check
  bytes and the test of the register. The right result is the state with a good header.
\<close>

definition rd_frame :: "('a zm_scheme \<Rightarrow> int \<times> 'a zm_scheme) \<Rightarrow> (int \<Rightarrow> bool) \<Rightarrow> (int \<Rightarrow> 'w \<Rightarrow> 'w)
    \<Rightarrow> 'w \<Rightarrow> nat \<Rightarrow> 'w \<Rightarrow> 'a zm_scheme \<Rightarrow> (int \<times> 'a zm_scheme) + 'a zm_scheme" where
  "rd_frame rd bad upd ini n good s =
     (case rd s of (c, s) \<Rightarrow>
        if bad c then Inl (c, s)
        else (case rd_hdr rd bad upd [ZP0, ZP1, ZP2, ZP3] (upd c ini) (s\<lparr>Rxtype := c\<rparr>) of
          Inl r \<Rightarrow> Inl r
        | Inr (crc, s) \<Rightarrow>
            (case rd_check rd bad upd n crc s of
               Inl (c, crc, s) \<Rightarrow> Inl (c, s)
             | Inr (crc, s) \<Rightarrow> if crc \<noteq> good then Inl (MYERROR, s) else Inr s)))"

definition zm_accept :: "'a zm_scheme \<Rightarrow> int \<times> 'a zm_scheme" where
  "zm_accept s = (Rxtype s, s\<lparr>protocol := ZM_ZMODEM, zmodem_requested := True\<rparr>)"

definition zrbhdr :: "'a zm_scheme \<Rightarrow> int \<times> 'a zm_scheme" where
  "zrbhdr s =
     (case rd_frame zdlread special upd16i 0 2 0 s of Inl r \<Rightarrow> r | Inr s \<Rightarrow> zm_accept s)"

definition zrbhdr32 :: "'a zm_scheme \<Rightarrow> int \<times> 'a zm_scheme" where
  "zrbhdr32 s =
     (case rd_frame zdlread special upd32i 0xFFFFFFFF 4 0xDEBB20E3 s of
        Inl r \<Rightarrow> r | Inr s \<Rightarrow> zm_accept s)"

definition zrhhdr :: "'a zm_scheme \<Rightarrow> int \<times> 'a zm_scheme" where
  "zrhhdr s =
     (case rd_frame zgethex (\<lambda>c. c < 0) upd16i 0 2 0 s of
        Inl r \<Rightarrow> r
      | Inr s \<Rightarrow>
          (case READLINE_PF s of (c, s) \<Rightarrow>
             zm_accept (if c = 141 \<or> c = 13 then snd (READLINE_PF s) else s)))"

text \<open>
  \<^verbatim>\<open>zgethdr\<close>. Its labels are the jumps: \<open>fifi\<close> with the value to return, \<open>again\<close>
  with the CAN count, \<open>agn2\<close>, and the end of a header with what the header reader said.
\<close>

datatype zg_jump = Fifi int | Again int | Agn2 | Header int

definition zg_gotcan :: "int \<Rightarrow> 'a zm_scheme \<Rightarrow> zg_jump \<times> 'a zm_scheme" where
  "zg_gotcan cancount s =
     (let cancount = cancount - 1 in
      if cancount \<le> 0 then (Fifi ZCAN, s)
      else (case READLINE_PF s of (c, s) \<Rightarrow>
        if c = TIMEOUT then (Again cancount, s)
        else if c = ZCRCW then (Fifi MYERROR, s)
        else if c = RCDO then (Fifi c, s)
        else if c = CAN then
          (let cancount = cancount - 1 in
           if cancount \<le> 0 then (Fifi ZCAN, s) else (Again cancount, s))
        else (Agn2, s)))"

function zg_splat :: "'a zm_scheme \<Rightarrow> int \<times> 'a zm_scheme" where
  "zg_splat s = (case noxrd7 s of (c, s') \<Rightarrow> if c = ZPAD then zg_splat s' else (c, s'))"
  by pat_completeness auto
termination
proof (relation "measure bytes_left", simp, clarsimp)
  fix s s' :: "'a zm_scheme"
  assume "(42, s') = noxrd7 s"
  then show "bytes_left s' < bytes_left s"
    using reads_from_noxrd7 [of s] by (cases "noxrd7 s") (simp add: reads_from_def)
qed

declare zg_splat.simps [simp del]

text \<open>From the pad character on, where \<^verbatim>\<open>cancount\<close> is 5 again.\<close>

definition zg_pad :: "'a zm_scheme \<Rightarrow> zg_jump \<times> 'a zm_scheme" where
  "zg_pad s =
     (case zg_splat s of (c, s) \<Rightarrow>
        if c = RCDO \<or> c = TIMEOUT then (Fifi c, s)
        else if c \<noteq> ZDLE then (Agn2, s)
        else (case noxrd7 s of (c, s) \<Rightarrow>
          if c = RCDO \<or> c = TIMEOUT then (Fifi c, s)
          else if c = ZBIN then
            (case zrbhdr (s\<lparr>Rxframeind := ZBIN, Crc32 := 0\<rparr>) of (c, s) \<Rightarrow> (Header c, s))
          else if c = ZBIN32 then
            (case zrbhdr32 (s\<lparr>Rxframeind := ZBIN32, Crc32 := ZBIN32\<rparr>) of (c, s) \<Rightarrow> (Header c, s))
          else if c = ZHEX then
            (case zrhhdr (s\<lparr>Rxframeind := ZHEX, Crc32 := 0\<rparr>) of (c, s) \<Rightarrow> (Header c, s))
          else if c = CAN then zg_gotcan 5 s
          else (Agn2, s)))"

text \<open>One pass of the loop at \<open>again\<close>, up to the jump that ends it.\<close>

definition zg_step :: "int \<Rightarrow> 'a zm_scheme \<Rightarrow> zg_jump \<times> 'a zm_scheme" where
  "zg_step cancount s =
     (case READLINE_PF s of (c, s) \<Rightarrow>
        if c = RCDO \<or> c = TIMEOUT then (Fifi c, s)
        else if c = CAN then zg_gotcan cancount s
        else if c = ZPAD + 128 \<or> c = ZPAD then zg_pad s
        else (Agn2, s))"

definition rx_position :: "byte list \<Rightarrow> nat" where
  "rx_position hdr =
     ((unat (hdr ! ZP3) * 256 + unat (hdr ! ZP2)) * 256 + unat (hdr ! ZP1)) * 256
       + unat (hdr ! ZP0)"

text \<open>The jumps back to \<open>again\<close> happen only after input was consumed.\<close>

lemma zg_gotcan_left:
  assumes "zg_gotcan cancount s = (j, s')"
  shows "bytes_left s' \<le> bytes_left s"
  using assms READLINE_PF_le [of s]
  by (auto simp: zg_gotcan_def Let_def split: if_splits prod.splits)

lemma zg_splat_left: "bytes_left (snd (zg_splat s)) \<le> bytes_left s"
proof (induction s rule: zg_splat.induct)
  case (1 s)
  obtain c s1 where n: "noxrd7 s = (c, s1)" by fastforce
  have "bytes_left s1 \<le> bytes_left s"
    using reads_from_le [of s c s1] reads_from_noxrd7 [of s] n by simp
  then show ?case
    using 1 [OF n [symmetric]] n by (subst zg_splat.simps) auto
qed

lemma zg_pad_left:
  assumes "zg_pad s = (j, s')" "j = Again c \<or> j = Agn2"
  shows "bytes_left s' \<le> bytes_left s"
proof -
  obtain c1 s1 where s1: "zg_splat s = (c1, s1)" by fastforce
  obtain c2 s2 where s2: "noxrd7 s1 = (c2, s2)" by fastforce
  have "bytes_left s1 \<le> bytes_left s" using zg_splat_left [of s] s1 by simp
  moreover have "bytes_left s2 \<le> bytes_left s1"
    using reads_from_le [of s1 c2 s2] reads_from_noxrd7 [of s1] s2 by simp
  ultimately show ?thesis
    using assms zg_gotcan_left [of 5 s2]
    by (fastforce simp: zg_pad_def s1 s2 split: if_splits prod.splits)
qed

lemma zg_step_less:
  assumes "zg_step cancount s = (j, s')" "j = Again c \<or> j = Agn2"
  shows "bytes_left s' < bytes_left s"
proof -
  obtain c1 s1 where rd: "READLINE_PF s = (c1, s1)" by fastforce
  have "bytes_left s1 < bytes_left s" if "c1 \<noteq> TIMEOUT"
    using READLINE_PF_less [OF rd that] .
  then show ?thesis
    using assms zg_gotcan_left [of cancount s1 j s'] zg_pad_left [of s1 j s' c]
    by (auto simp: zg_step_def rd split: if_splits)
qed

text \<open>
  The loop: the value returned, \<^verbatim>\<open>*Rxpos\<close> unless the garbage count was exceeded, and the
  state. \<^verbatim>\<open>max_garbage\<close> is an \<^verbatim>\<open>unsigned int\<close>.
\<close>

function zg_again :: "u32 \<Rightarrow> int \<Rightarrow> 'a zm_scheme \<Rightarrow> int \<times> nat option \<times> 'a zm_scheme" where
  "zg_again max_garbage cancount s =
     (case zg_step cancount s of
        (Fifi c, s') \<Rightarrow> (if c = GOTCAN then ZCAN else c, Some 0, s')
      | (Header c, s') \<Rightarrow>
          (if c = GOTCAN then ZCAN else c, Some (rx_position (Rxhdr s')), s')
      | (Again cancount', s') \<Rightarrow> zg_again max_garbage cancount' s'
      | (Agn2, s') \<Rightarrow>
          if max_garbage - 1 = 0 then (MYERROR, None, s') else zg_again (max_garbage - 1) 5 s')"
  by pat_completeness auto
termination
  by (relation "measure (\<lambda>(_, _, s). bytes_left s)")
     (auto dest!: sym [of _ "zg_step _ _"] dest: zg_step_less)

declare zg_again.simps [simp del]

definition zgethdr :: "'a zm_scheme \<Rightarrow> int \<times> nat option \<times> 'a zm_scheme" where
  "zgethdr s = zg_again (Zrwindow s + Baudrate s) 5 (s\<lparr>Rxframeind := 0, Rxtype := 0\<rparr>)"

subsection \<open>A header consumes input\<close>

lemma rd_check_le:
  assumes "\<And>s. bytes_left (snd (rd s)) \<le> bytes_left s"
  shows "case rd_check rd bad upd n crc s of
      Inl (c, crc', s') \<Rightarrow> bytes_left s' \<le> bytes_left s
    | Inr (crc', s') \<Rightarrow> bytes_left s' \<le> bytes_left s"
proof (induction n arbitrary: crc s)
  case (Suc n)
  obtain d s1 where rd: "rd s = (d, s1)" by fastforce
  have "bytes_left s1 \<le> bytes_left s" using assms [of s] rd by simp
  with Suc.IH [where crc = "upd d crc" and s = s1] show ?case by (auto simp: rd split: sum.splits)
qed simp

lemma rd_hdr_le:
  assumes "\<And>s. bytes_left (snd (rd s)) \<le> bytes_left s"
  shows "case rd_hdr rd bad upd ks crc s of
      Inl (c, s') \<Rightarrow> bytes_left s' \<le> bytes_left s
    | Inr (crc', s') \<Rightarrow> bytes_left s' \<le> bytes_left s"
proof (induction ks arbitrary: crc s)
  case (Cons i ks)
  obtain d s1 where rd: "rd s = (d, s1)" by fastforce
  define s2 where "s2 = s1\<lparr>Rxhdr := (Rxhdr s1)[i := word_of_int d]\<rparr>"
  have "bytes_left s1 \<le> bytes_left s" "bytes_left s2 = bytes_left s1"
    using assms [of s] rd by (simp_all add: s2_def bytes_left_def)
  with Cons.IH [where crc = "upd d crc" and s = s2] show ?case by (auto simp: rd s2_def split: sum.splits)
qed simp

lemma rd_frame_le:
  assumes "\<And>s. bytes_left (snd (rd s)) \<le> bytes_left s"
  shows "case rd_frame rd bad upd ini n good s of
      Inl (c, s') \<Rightarrow> bytes_left s' \<le> bytes_left s
    | Inr s' \<Rightarrow> bytes_left s' \<le> bytes_left s"
proof -
  obtain d s1 where d: "rd s = (d, s1)" by fastforce
  have 1: "bytes_left s1 \<le> bytes_left s" "bytes_left (s1\<lparr>Rxtype := d\<rparr>) = bytes_left s1"
    using assms [of s] d by (simp_all add: bytes_left_def)
  have 2: "bytes_left s2 \<le> bytes_left s"
    if "rd_hdr rd bad upd [0, 1, 2, 3] (upd d ini) (s1\<lparr>Rxtype := d\<rparr>) = Inl (c', s2)
      \<or> rd_hdr rd bad upd [0, 1, 2, 3] (upd d ini) (s1\<lparr>Rxtype := d\<rparr>) = Inr (crc, s2)" for c' crc s2
    using rd_hdr_le [where bad = bad and upd = upd and ks = "[0, 1, 2, 3]" and crc = "upd d ini"
        and s = "s1\<lparr>Rxtype := d\<rparr>", OF assms] that 1
    by (auto simp del: rd_hdr.simps split: sum.splits)
  have 3: "bytes_left s3 \<le> bytes_left s2"
    if "rd_check rd bad upd n crc s2 = Inl (c', crc', s3) \<or> rd_check rd bad upd n crc s2 = Inr (crc', s3)"
    for crc s2 c' crc' s3
    using rd_check_le [where bad = bad and upd = upd and n = n and crc = crc and s = s2, OF assms] that by (auto split: sum.splits)
  show ?thesis
  proof (cases "bad d")
    case False
    show ?thesis
    proof (cases "rd_hdr rd bad upd [0, 1, 2, 3] (upd d ini) (s1\<lparr>Rxtype := d\<rparr>)")
      case (Inr x)
      obtain crc s2 where x: "x = (crc, s2)" by fastforce
      with 2 Inr have s2: "bytes_left s2 \<le> bytes_left s" by blast
      show ?thesis
      proof (cases "rd_check rd bad upd n crc s2")
        case inl: (Inl y)
        with 3 s2 Inr x False d show ?thesis
          by (cases y) (fastforce simp: rd_frame_def simp del: rd_hdr.simps)
      next
        case inr: (Inr y)
        with 3 s2 Inr x False d show ?thesis
          by (cases y) (fastforce simp: rd_frame_def simp del: rd_hdr.simps)
      qed
    qed (use 2 False d in \<open>auto simp: rd_frame_def simp del: rd_hdr.simps\<close>)
  qed (use 1 d in \<open>simp add: rd_frame_def\<close>)
qed

lemma rd_left_le:
  "bytes_left (snd (zdlread s)) \<le> bytes_left s" "bytes_left (snd (zgethex s)) \<le> bytes_left s"
  "bytes_left (snd (noxrd7 s)) \<le> bytes_left s" "bytes_left (snd (READLINE_PF s)) \<le> bytes_left s"
  using reads_from_zdlread [of s] reads_from_zgethex [of s] reads_from_noxrd7 [of s]
    reads_from_READLINE_PF [of s] by (simp_all add: reads_from_def)

lemma bytes_left_zm [simp]:
  "bytes_left (s\<lparr>Rxframeind := f\<rparr>) = bytes_left s" "bytes_left (s\<lparr>Crc32 := c\<rparr>) = bytes_left s"
  "bytes_left (s\<lparr>Rxtype := t\<rparr>) = bytes_left s" "bytes_left (s\<lparr>protocol := p\<rparr>) = bytes_left s"
  "bytes_left (s\<lparr>zmodem_requested := z\<rparr>) = bytes_left s"
  by (simp_all add: bytes_left_def)

lemma zrhdrs_le:
  "bytes_left (snd (zrbhdr s)) \<le> bytes_left s" "bytes_left (snd (zrbhdr32 s)) \<le> bytes_left s"
  "bytes_left (snd (zrhhdr s)) \<le> bytes_left s"
proof -
  show "bytes_left (snd (zrbhdr s)) \<le> bytes_left s" "bytes_left (snd (zrbhdr32 s)) \<le> bytes_left s"
    using rd_frame_le [where rd = zdlread and bad = special and upd = upd16i and ini = 0 and n = 2 and good = 0
        and s = s, OF rd_left_le(1)]
      rd_frame_le [where rd = zdlread and bad = special and upd = upd32i and ini = "0xFFFFFFFF" and n = 4
        and good = "0xDEBB20E3" and s = s, OF rd_left_le(1)]
    by (auto simp: zrbhdr_def zrbhdr32_def zm_accept_def split: sum.split)
  have "bytes_left (snd (READLINE_PF (snd (READLINE_PF t)))) \<le> bytes_left s"
    "bytes_left (snd (READLINE_PF t)) \<le> bytes_left s" if "bytes_left t \<le> bytes_left s" for t :: "'a zm_scheme"
    using that rd_left_le(4) [of t] rd_left_le(4) [of "snd (READLINE_PF t)"] by simp_all
  then show "bytes_left (snd (zrhhdr s)) \<le> bytes_left s"
    using rd_frame_le [where rd = zgethex and bad = "\<lambda>c. c < 0" and upd = upd16i and ini = 0 and n = 2
        and good = 0 and s = s, OF rd_left_le(2)]
    by (auto simp: zrhhdr_def zm_accept_def split: sum.split prod.split) (metis snd_conv)+
qed

lemma zg_pad_le: "bytes_left (snd (zg_pad s)) \<le> bytes_left s"
proof -
  obtain c1 s1 where s1: "zg_splat s = (c1, s1)" by fastforce
  obtain c2 s2 where s2: "noxrd7 s1 = (c2, s2)" by fastforce
  have le: "bytes_left s1 \<le> bytes_left s" "bytes_left s2 \<le> bytes_left s1"
    using zg_splat_left [of s] s1 rd_left_le(3) [of s1] s2 by simp_all
  have r: "bytes_left (snd (zrbhdr (s2\<lparr>Rxframeind := f, Crc32 := c\<rparr>))) \<le> bytes_left s2"
    "bytes_left (snd (zrbhdr32 (s2\<lparr>Rxframeind := f, Crc32 := c\<rparr>))) \<le> bytes_left s2"
    "bytes_left (snd (zrhhdr (s2\<lparr>Rxframeind := f, Crc32 := c\<rparr>))) \<le> bytes_left s2" for f c
    using zrhdrs_le [of "s2\<lparr>Rxframeind := f, Crc32 := c\<rparr>"] by simp_all
  have g: "bytes_left (snd (zg_gotcan 5 s2)) \<le> bytes_left s2"
    using zg_gotcan_left [of 5 s2] by (cases "zg_gotcan 5 s2") simp
  show ?thesis
    using le g r [where f = 65 and c = 0] r [where f = 67 and c = 67] r [where f = 66 and c = 0]
    by (auto simp: zg_pad_def s1 s2 split: prod.split)
qed

lemma zg_step_reads:
  "zg_step cancount s = (j, s') \<Longrightarrow> bytes_left s' \<le> bytes_left s
    \<and> (j \<noteq> Fifi TIMEOUT \<longrightarrow> bytes_left s' < bytes_left s)"
proof -
  assume step: "zg_step cancount s = (j, s')"
  obtain c1 s1 where rd: "READLINE_PF s = (c1, s1)" by fastforce
  have "bytes_left s' \<le> bytes_left s1"
    using step zg_pad_le [of s1] zg_gotcan_left [of cancount s1 j s']
    by (auto simp: zg_step_def rd split: if_splits)
  moreover have "c1 \<noteq> TIMEOUT" if "j \<noteq> Fifi TIMEOUT"
    using step that by (auto simp: zg_step_def rd split: if_splits)
  ultimately show ?thesis
    using READLINE_PF_le [OF rd] READLINE_PF_less [OF rd] by force
qed

lemma reads_from_zgethdr: "zgethdr s = (c, p, s') \<Longrightarrow> reads_from s (c, s')"
proof -
  have "zg_again mg cc s = (c, p, s') \<Longrightarrow> reads_from s (c, s')" for mg cc s
  proof (induction mg cc s rule: zg_again.induct)
    case (1 mg cc s)
    obtain j s1 where step: "zg_step cc s = (j, s1)" by fastforce
    note le = zg_step_reads [OF step]
    show ?case
    proof (cases j)
      case (Again cc')
      then have "reads_from s1 (c, s')"
        using 1(1) [OF step [symmetric]] 1(3) by (simp add: step zg_again.simps [of mg cc s])
      with le show ?thesis using reads_from_trans by blast
    next
      case Agn2
      then have "reads_from s1 (c, s') \<or> s' = s1 \<and> c = MYERROR"
        using 1(2) [OF step [symmetric]] 1(3)
        by (auto simp: step zg_again.simps [of mg cc s] split: if_splits)
      with le Agn2 show ?thesis using reads_from_trans by (auto simp: reads_from_def)
    next
      case (Fifi d)
      with 1(3) le show ?thesis by (auto simp: step zg_again.simps [of mg cc s] reads_from_def)
    next
      case (Header d)
      with 1(3) le show ?thesis by (auto simp: step zg_again.simps [of mg cc s] reads_from_def)
    qed
  qed
  from this [of _ _ "s\<lparr>Rxframeind := 0, Rxtype := 0\<rparr>"] show "zgethdr s = (c, p, s') \<Longrightarrow> ?thesis"
    by (auto simp: zgethdr_def reads_from_def)
qed

lemma crcfoo_le: "crcfoo upd n good c crc s = (r, ok, s') \<Longrightarrow> bytes_left s' \<le> bytes_left s"
proof (induction upd n good c crc s rule: crcfoo.induct)
  case (1 upd n good c crc s)
  note step = crcfoo.simps [of upd n good c crc s]
  show ?case
  proof (cases "c = 360 \<or> c = 361 \<or> c = 362 \<or> c = 363")
    case True
    note le = rd_check_le [where rd = zdlread and bad = special and upd = upd and n = n
        and crc = "upd (c AND 255) crc" and s = s, OF rd_left_le(1)]
    show ?thesis
    proof (cases "rd_check zdlread special upd n (upd (c AND 255) crc) s")
      case (Inl x)
      obtain c' crc' s1 where x: "x = (c', crc', s1)" by (cases x)
      with 1(2) step True Inl have "crcfoo upd n good c' crc' s1 = (r, ok, s')" by simp
      then have "bytes_left s' \<le> bytes_left s1" by (rule 1(1) [OF True Inl x [symmetric] refl])
      with le Inl x show ?thesis by simp
    next
      case (Inr x)
      with 1(2) step True le show ?thesis by (cases x) (auto split: if_splits)
    qed
  next
    case False
    with 1(2) step show ?thesis by (auto split: if_splits)
  qed
qed

lemma zrdata_loop_le:
  "zrdata_loop upd n good k crc buf s = (r, m, buf', s') \<Longrightarrow> bytes_left s' \<le> bytes_left s"
proof (induction upd n good k crc buf s rule: zrdata_loop.induct)
  case (2 upd n good k crc buf s)
  obtain c s1 where rd: "zdlread s = (c, s1)" by fastforce
  have le: "bytes_left s1 \<le> bytes_left s" using rd_left_le(1) [of s] rd by simp
  show ?case
  proof (cases "special c")
    case True
    obtain r' ok s2 where "crcfoo upd n good c crc s1 = (r', ok, s2)" by (cases "crcfoo upd n good c crc s1")
    with 2(2) rd True le crcfoo_le [OF this] show ?thesis by simp
  next
    case False
    with 2 rd le show ?thesis by (fastforce dest: sym)
  qed
qed simp

lemma zrdata_le: "zrdata len s = (r, m, buf, s') \<Longrightarrow> bytes_left s' \<le> bytes_left s"
  by (auto simp: zrdata_def zrdat32_def simp del: zrdata_loop.simps dest: zrdata_loop_le split: if_splits)

lemma zm_send_left [simp]:
  "bytes_left (stohdr p s) = bytes_left s" "bytes_left (zshhdr t h s) = bytes_left s"
  by (simp_all add: stohdr_def zshhdr_def write1_def flushmo_def bytes_left_def Let_def split: prod.split)

end
