(* ===== verification/Zm_Roundtrip.thy ===== *)
theory Zm_Roundtrip
  imports Zm
begin

text \<open>
  What \<^verbatim>\<open>zm.c\<close> sends, \<^verbatim>\<open>zm.c\<close> receives: the escaped bytes, the headers in their three
  encodings and the data subpackets, and the bounds of what is stored.
\<close>

subsection \<open>What is sent\<close>

definition sent :: "'a line_scheme \<Rightarrow> byte list" where
  "sent s = wire s @ obuf s"

lemma sent_simps [wire_simps]:
  "sent (xsendline c s) = sent s @ [c]"
  "sent (flushmo s) = sent s"
  "sent (s\<lparr>obuf := obuf s @ bs\<rparr>) = sent s @ bs"
  "obuf s = [] \<Longrightarrow> sent (write1 bs s) = sent s @ bs"
  by (simp_all add: sent_def xsendline_def flushmo_def write1_def)

text \<open>The code of one byte, given the table entry and the byte sent last.\<close>

definition zbytes :: "nat \<Rightarrow> byte \<Rightarrow> byte \<Rightarrow> byte list" where
  "zbytes e ls c =
     (if e = 0 then [c]
      else if e = 1 then [ZDLE, c XOR 64]
      else if e = 2 then (if ls AND 127 \<noteq> 64 then [c] else [ZDLE, c XOR 64])
      else [])"

definition tab_ok :: "nat list \<Rightarrow> bool" where
  "tab_ok tab \<longleftrightarrow> length tab = 256 \<and> (\<forall>e \<in> set tab. e \<le> 2)"

lemma zsend_by_entry_bytes:
  assumes "e \<le> 2"
  shows "zsend_by_entry e c s =
    s\<lparr>obuf := obuf s @ zbytes e (lastsent s) c, lastsent := last (zbytes e (lastsent s) c)\<rparr>"
proof -
  from assms have "e = 0 \<or> e = 1 \<or> e = 2" by auto
  then show ?thesis
    by (elim disjE) (simp_all add: zsend_by_entry_def zbytes_def send_plain_def send_escaped_def xsendline_def)
qed

fun zencode :: "nat list \<Rightarrow> byte \<Rightarrow> byte list \<Rightarrow> byte list list" where
  "zencode tab ls [] = []"
| "zencode tab ls (c # cs) =
     (let w = zbytes (tab ! unat c) ls c in w # zencode tab (last w) cs)"

fun zencode_last :: "nat list \<Rightarrow> byte \<Rightarrow> byte list \<Rightarrow> byte" where
  "zencode_last tab ls [] = ls"
| "zencode_last tab ls (c # cs) = zencode_last tab (last (zbytes (tab ! unat c) ls c)) cs"

lemma tab_ok_entry: "tab_ok tab \<Longrightarrow> tab ! unat (c :: byte) \<le> 2"
  using unsigned_less [of c, where ?'a = nat] by (auto simp: tab_ok_def)

lemma fold_zsendline:
  assumes "tab_ok (zsendline_tab s)"
  shows "fold zsendline cs s =
    s\<lparr>obuf := obuf s @ concat (zencode (zsendline_tab s) (lastsent s) cs),
      lastsent := zencode_last (zsendline_tab s) (lastsent s) cs\<rparr>"
  using assms
proof (induction cs arbitrary: s)
  case (Cons c cs)
  then show ?case
    by (simp add: zsendline_def zsend_by_entry_bytes tab_ok_entry Let_def)
qed simp

lemma tab_ok_init: "tab_ok (zsendline_tab (zsendline_init s))"
  by (auto simp: tab_ok_def zsendline_init_def zsendline_entry_def)

text \<open>A run of bytes with entry 0 goes out as it is.\<close>

lemma zsendline_plain:
  "zsendline_tab s ! unat b = 0 \<Longrightarrow> zsendline b s = s\<lparr>obuf := obuf s @ [b], lastsent := b\<rparr>"
  by (simp add: zsendline_def zsend_by_entry_def send_plain_def xsendline_def)

lemma fold_zsendline_plain:
  assumes "\<forall>b \<in> set bs. zsendline_tab s ! unat b = 0" "bs \<noteq> []"
  shows "fold zsendline bs s = s\<lparr>obuf := obuf s @ bs, lastsent := last bs\<rparr>"
  using assms(2,1)
proof (induction bs arbitrary: s rule: list_nonempty_induct)
  case (single b)
  then show ?case by (simp add: zsendline_plain)
next
  case (cons b bs)
  have b: "zsendline b s = s\<lparr>obuf := obuf s @ [b], lastsent := b\<rparr>"
    by (rule zsendline_plain) (use cons.prems in simp)
  have "fold zsendline bs (zsendline b s)
    = (zsendline b s)\<lparr>obuf := obuf (zsendline b s) @ bs, lastsent := last bs\<rparr>"
    by (rule cons.IH) (use cons.prems in \<open>simp add: b\<close>)
  with cons.hyps show ?case by (simp add: b)
qed

lemma fold_zsendline_tab [simp]: "zsendline_tab (zsendline c s) = zsendline_tab s"
  by (simp add: zsendline_def zsend_by_entry_def send_plain_def send_escaped_def xsendline_def)

lemma zsendline_s_eq: "zsendline_s bs s = fold zsendline bs s"
proof (induction bs s rule: zsendline_s.induct)
  case (1 bs s)
  define plain where "plain = (\<lambda>b :: byte. zsendline_tab s ! unat b = 0)"
  define s1 where "s1 = (if takeWhile plain bs \<noteq> []
    then s\<lparr>obuf := obuf s @ takeWhile plain bs, lastsent := last (takeWhile plain bs)\<rparr> else s)"
  have all: "\<forall>b \<in> set (takeWhile plain bs). zsendline_tab s ! unat b = 0"
    using set_takeWhileD [of _ plain bs] by (simp add: plain_def [symmetric] fun_cong [OF plain_def, symmetric])
  have run: "s1 = fold zsendline (takeWhile plain bs) s"
    using fold_zsendline_plain [OF all] by (cases "takeWhile plain bs = []") (simp_all add: s1_def)
  have tab: "zsendline_tab s1 = zsendline_tab s" by (simp add: s1_def)
  have split: "fold zsendline bs s = fold zsendline (dropWhile plain bs) s1"
    unfolding run by (metis comp_apply fold_append takeWhile_dropWhile_id)
  have step: "zsendline_s bs s = (case dropWhile plain bs of [] \<Rightarrow> s1
      | c # rest \<Rightarrow> zsendline_s rest (zsendline c s1))" if "bs \<noteq> []"
    using that unfolding zsendline_s.simps [of bs] s1_def plain_def zsendline_def Let_def
    by (simp split: list.split)
  show ?case
  proof (cases "dropWhile plain bs")
    case Nil
    with split step show ?thesis by (cases "bs = []") (simp_all add: zsendline_s.simps [of "[]"])
  next
    case (Cons c rest)
    then have ne: "bs \<noteq> []" by auto
    have "zsendline_s rest (zsendline c s1) = fold zsendline rest (zsendline c s1)"
      using 1 [OF ne plain_def refl refl s1_def Cons] by (simp only: zsendline_def [of c])
    with split step [OF ne] Cons show ?thesis by simp
  qed
qed

text \<open>
  Claim C20: \<^verbatim>\<open>zsendline_s\<close>, which writes runs of harmless bytes in one call, sends exactly
  what \<^verbatim>\<open>zsendline\<close> sends byte by byte, and leaves the same state, for any table and any
  previous byte.
\<close>

theorem zsendline_s_correct: "zsendline_s bs s = fold zsendline bs s"
  by (rule zsendline_s_eq)

subsection \<open>The contract of a decoder\<close>

text \<open>
  A decoder on top of a byte source: a set of codes for every byte, which it reads back
  to the byte, taking exactly the code from the source.
\<close>

locale coded_source = byte_source rd input ready left
  for rd :: "'s \<Rightarrow> int \<times> 's" and input ready left +
  fixes dec :: "'s \<Rightarrow> int \<times> 's"
    and codes :: "'s \<Rightarrow> byte \<Rightarrow> byte list \<Rightarrow> bool"
  assumes dec_code: "ready s \<Longrightarrow> codes s b w \<Longrightarrow> input s = w @ rest
      \<Longrightarrow> dec s = (uint b, skip rd (length w) s)"
    and codes_rd: "codes (snd (rd s)) = codes s"
begin

lemma codes_skip: "codes (skip rd n s) = codes s"
  by (induction n arbitrary: s) (simp_all add: codes_rd skip.simps)

lemma read_codes:
  assumes "ready s" "list_all2 (codes s) bs ws" "input s = concat ws @ rest"
    and plain: "\<And>b :: byte. \<not> bad (uint b)"
  shows "rd_check dec bad upd (length bs) crc s
    = Inr (fold (\<lambda>b. upd (uint b)) bs crc, skip rd (length (concat ws)) s)"
  using assms(1-3)
proof (induction bs arbitrary: ws crc s)
  case (Cons b bs)
  then obtain w ws' where ws: "ws = w # ws'" "codes s b w" "list_all2 (codes s) bs ws'"
    by (auto simp: list_all2_Cons1)
  have "dec s = (uint b, skip rd (length w) s)"
    using Cons.prems ws by (intro dec_code) auto
  moreover have "input (skip rd (length w) s) = concat ws' @ rest"
    using Cons.prems ws by (simp add: input_skip)
  ultimately show ?case
    using Cons.IH [of "skip rd (length w) s" ws'] Cons.prems ws
    by (simp add: plain ready_skip codes_skip)
qed simp

end

subsection \<open>The ZDLE decoder provides it\<close>

text \<open>The codes \<^verbatim>\<open>zdlread\<close> understands, for a receiver with the given \<^verbatim>\<open>Zctlesc\<close>.\<close>

definition zdl_code :: "int \<Rightarrow> byte \<Rightarrow> byte list \<Rightarrow> bool" where
  "zdl_code ctlesc b w \<longleftrightarrow>
     w = [b] \<and> (b AND 96 \<noteq> 0
       \<or> ctlesc = 0 \<and> b \<notin> {ZDLE, XON, XON + 128, XOFF, XOFF + 128})
     \<or> w = [ZDLE, b XOR 64] \<and> b AND 96 = 0
     \<or> w = [ZDLE, ZRUB0] \<and> b = 127 \<or> w = [ZDLE, ZRUB1] \<and> b = 255"

lemma uint_and_96:
  "uint (b :: byte) AND 96 = 0 \<longleftrightarrow> b AND 96 = 0"
  "uint (b :: byte) AND 96 = 64 \<longleftrightarrow> b AND 96 = 64"
proof -
  have eq: "uint b AND 96 = uint (b AND 96)" by (simp add: unsigned_and_eq)
  show "uint b AND 96 = 0 \<longleftrightarrow> b AND 96 = 0" by (simp add: eq uint_0_iff)
  show "uint b AND 96 = 64 \<longleftrightarrow> b AND 96 = 64" by (simp add: eq uint_byte_numeral)
qed

lemma rskip_zm_frame [frame_simps]:
  "Zctlesc (rskip n s) = Zctlesc s" "Rxframeind (rskip n s) = Rxframeind s"
  "Rxhdr (rskip n s) = Rxhdr s" "Rxtype (rskip n s) = Rxtype s"
  "zsendline_tab (rskip n s) = zsendline_tab s" "lastsent (rskip n s) = lastsent s"
  using rskip_fields [of n s] by auto

lemma READLINE_PF_Zctlesc: "Zctlesc (snd (READLINE_PF s)) = Zctlesc s"
  by (subst READLINE_PF_fields) simp

lemma and_96_control: "(b :: byte) AND 96 \<noteq> 0 \<Longrightarrow> b \<notin> {24, 17, 19, 145, 147}"
  by auto

lemma and_64_escaped:
  "(c :: byte) AND 96 = 64 \<Longrightarrow> c \<notin> {24, 104, 105, 106, 107, 108, 109, 17, 145, 19, 147}"
  by auto

lemma zdl_cans_char:
  assumes "0 < readline_readnum s" "pending s = c # bs" "c \<noteq> 24"
  shows "zdl_cans s = (uint c, rskip 1 s)"
proof -
  have "uint c \<noteq> 24" using assms(3) by (simp add: uint_byte_numeral)
  then show ?thesis
    unfolding zdl_cans_def READLINE_PF_code [OF assms(1,2)] by (simp add: rd_if_can_def)
qed

lemma zdl_value_escaped: "c AND 96 = 64 \<Longrightarrow> zdl_value (uint c) = uint (c XOR 64 :: byte)"
  using and_64_escaped [of c] by (simp add: zdl_value_def uint_byte_numeral uint_and_96 unsigned_xor_eq)

lemma zdl_again2_escaped:
  assumes "0 < readline_readnum s" "pending s = c # bs" "c AND 96 = 64"
  shows "zdl_again2 s = (uint (c XOR 64), rskip 1 s)"
proof -
  have "zdl_cans s = (uint c, rskip 1 s)"
    using zdl_cans_char [OF assms(1,2)] and_64_escaped [OF assms(3)] by simp
  moreover have "\<not> zdl_again2_skips s (uint c)"
    using and_64_escaped [OF assms(3)] assms(3)
    by (simp add: zdl_again2_skips_def uint_byte_numeral uint_and_96)
  ultimately show ?thesis
    by (simp add: zdl_again2_unfold [of s] zdl_value_escaped [OF assms(3)])
qed

text \<open>The other characters that may follow a ZDLE: rubouts and subpacket ends.\<close>

lemma zdl_again2_special:
  assumes "0 < readline_readnum s" "pending s = c # bs" "c \<in> {104, 105, 106, 107, 108, 109}"
  shows "zdl_again2 s = (zdl_value (uint c), rskip 1 s)"
proof -
  have "zdl_cans s = (uint c, rskip 1 s)"
    using zdl_cans_char [OF assms(1,2)] assms(3) by auto
  moreover have "\<not> zdl_again2_skips s (uint c)"
    using assms(3) by (auto simp: zdl_again2_skips_def)
  ultimately show ?thesis by (simp add: zdl_again2_unfold [of s])
qed

lemma zdlread_zdle:
  assumes "0 < readline_readnum s" "pending s = ZDLE # bs"
  shows "zdlread s = zdl_again2 (rskip 1 s)"
  using READLINE_PF_code [OF assms] by (simp add: zdlread_def zdlread2_unfold)

lemma zdlread_plain:
  assumes "0 < readline_readnum s" "pending s = b # bs"
    and "b AND 96 \<noteq> 0 \<or> Zctlesc s = 0 \<and> b \<notin> {ZDLE, XON, XON + 128, XOFF, XOFF + 128}"
  shows "zdlread s = (uint b, rskip 1 s)"
  using READLINE_PF_code [OF assms(1,2)] assms(3)
  by (auto simp: zdlread_def zdlread2_unfold zdlread2_skips_def uint_byte_numeral uint_and_96 frame_simps)

lemma zdlread_code:
  assumes "0 < readline_readnum s" "zdl_code (Zctlesc s) b w" "pending s = w @ rest"
  shows "zdlread s = (uint b, rskip (length w) s)"
proof -
  have esc: "zdlread s = (zdl_value (uint c), rskip 2 s)"
    if "w = [ZDLE, c]" "zdl_again2 (rskip 1 s) = (zdl_value (uint c), rskip 1 (rskip 1 s))" for c
    using that zdlread_zdle [of s "c # rest"] assms by (simp add: numeral_2_eq_2)
  have next_char: "0 < readline_readnum (rskip 1 s)" "pending (rskip 1 s) = c # rest"
    if "w = [ZDLE, c]" for c
    using that assms by (simp_all add: frame_simps)
  from assms(2) consider
      "w = [b]" "b AND 96 \<noteq> 0 \<or> Zctlesc s = 0 \<and> b \<notin> {ZDLE, XON, XON + 128, XOFF, XOFF + 128}"
    | "w = [ZDLE, b XOR 64]" "b AND 96 = 0"
    | "w = [ZDLE, 108] \<and> b = 127 \<or> w = [ZDLE, 109] \<and> b = 255"
    unfolding zdl_code_def by blast
  then show ?thesis
  proof cases
    case 1
    with zdlread_plain [of s b rest] assms show ?thesis by simp
  next
    case 2
    then have "(b XOR 64) AND 96 = 64" by (simp add: bit.conj_xor_distrib2)
    with zdl_again2_escaped [OF next_char [OF 2(1)]] zdl_value_escaped [of "b XOR 64"] esc [OF 2(1)] 2
    show ?thesis by (simp add: xor.assoc numeral_2_eq_2)
  next
    case 3
    then obtain c where c: "w = [ZDLE, c]" "c \<in> {108, 109}" "zdl_value (uint c) = uint b"
      by (auto simp: zdl_value_def)
    with zdl_again2_special [OF next_char [OF c(1)]] esc [OF c(1)]
    show ?thesis by (auto simp: numeral_2_eq_2)
  qed
qed

interpretation zdl: coded_source READLINE_PF pending "\<lambda>s. 0 < readline_readnum s" bytes_left
  zdlread "\<lambda>s. zdl_code (Zctlesc s)"
  by unfold_locales (simp_all add: zdlread_code READLINE_PF_Zctlesc)

subsection \<open>So does the hexadecimal decoder\<close>

lemma digits_values:
  "\<forall>d \<in> set digits. uint d AND 127 = uint d \<and> uint d \<notin> {17, 19, 13, 10, 24}
     \<and> uint d AND 96 \<noteq> 0"
  by (simp add: digits_def)

lemma noxrd7_digit:
  assumes "0 < readline_readnum s" "pending s = d # bs" "d \<in> set digits"
  shows "noxrd7 s = (uint d, rskip 1 s)"
  using READLINE_PF_code [OF assms(1,2)] bspec [OF digits_values assms(3)]
  by (simp add: noxrd7_unfold [of s] noxrd7_skips_def Let_def)

definition hex_digit :: "int \<Rightarrow> int" where
  "hex_digit c = (let n = c - 48 in if n > 9 then n - 39 else n)"

lemma zgethex_unfold:
  "zgethex s =
     (case noxrd7 s of (c, s1) \<Rightarrow>
        if c < 0 then (c, s1)
        else if hex_digit c AND NOT 15 \<noteq> 0 then (MYERROR, s1)
        else (case noxrd7 s1 of (d, s2) \<Rightarrow>
          if d < 0 then (d, s2)
          else if hex_digit d AND NOT 15 \<noteq> 0 then (MYERROR, s2)
          else (hex_digit d + push_bit 4 (hex_digit c), s2)))"
  by (simp only: zgethex_def zgeth1_def hex_digit_def Let_def)

lemma hex_digit_digits: "n < 16 \<Longrightarrow> hex_digit (uint (digits ! n)) = int n \<and> digits ! n \<in> set digits"
proof -
  have "\<forall>n \<in> set [0..<16]. hex_digit (uint (digits ! n)) = int n \<and> digits ! n \<in> set digits"
    by (simp add: upt_rec digits_def hex_digit_def Let_def)
  then show "n < 16 \<Longrightarrow> ?thesis" by simp
qed

lemma zgethex_digits:
  assumes "0 < readline_readnum s" "pending s = digits ! m # digits ! n # rest" "m < 16" "n < 16"
  shows "zgethex s = (int n + 16 * int m, rskip 2 s)"
proof -
  note m = hex_digit_digits [OF assms(3)] and n = hex_digit_digits [OF assms(4)]
  have 1: "noxrd7 s = (uint (digits ! m), rskip 1 s)"
    using noxrd7_digit [OF assms(1,2)] m by blast
  have 2: "noxrd7 (rskip (Suc 0) s) = (uint (digits ! n), rskip 2 s)"
    using noxrd7_digit [of "rskip 1 s" "digits ! n" rest] n assms
    by (simp add: frame_simps numeral_2_eq_2)
  have "\<forall>k \<in> set [0..<16]. int k AND NOT 15 = 0" by (simp add: upt_rec)
  then have nibble: "int k AND NOT 15 = 0" if "k < 16" for k
    using that by simp
  show ?thesis
    using nibble [OF assms(3)] nibble [OF assms(4)] m n
    by (simp add: zgethex_unfold 1 2 push_bit_eq_mult)
qed

definition hex_code :: "byte \<Rightarrow> byte list \<Rightarrow> bool" where
  "hex_code b w \<longleftrightarrow> w = zputhex b"

lemma nibbles:
  fixes b :: byte
  shows "unat (drop_bit 4 (b AND 0xF0)) = unat b div 16" "unat (b AND 0x0F) = unat b mod 16"
proof -
  have mask: "n AND 15 = n mod 16" for n :: nat
    using take_bit_eq_mask [of 4 n] by (simp add: take_bit_eq_mod mask_eq_exp_minus_1)
  then show "unat (b AND 0x0F) = unat b mod 16" by (simp add: unsigned_and_eq)
  have "unat (drop_bit 4 b) = unat b div 16"
    by (simp add: drop_bit_eq_div unat_div)
  then show "unat (drop_bit 4 (b AND 0xF0)) = unat b div 16"
    using byte_less [of b] by (simp add: unsigned_and_eq mask)
qed

lemma zputhex_nibbles: "zputhex b = [digits ! (unat b div 16), digits ! (unat b mod 16)]"
  by (simp only: zputhex_def nibbles)

lemma zgethex_code:
  assumes "0 < readline_readnum s" "hex_code b w" "pending s = w @ rest"
  shows "zgethex s = (uint b, rskip (length w) s)"
proof -
  have "zgethex s = (int (unat b mod 16) + 16 * int (unat b div 16), rskip 2 s)"
    using assms byte_less [of b]
    by (intro zgethex_digits [where rest = rest]) (simp_all add: hex_code_def zputhex_nibbles)
  moreover have "int (unat b mod 16) + 16 * int (unat b div 16) = uint b"
    by (metis mod_mult_div_eq mult.commute of_nat_add of_nat_mult of_nat_numeral uint_nat)
  ultimately show ?thesis using assms(2) by (simp add: hex_code_def zputhex_def numeral_2_eq_2)
qed

interpretation hex: coded_source READLINE_PF pending "\<lambda>s. 0 < readline_readnum s" bytes_left
  zgethex "\<lambda>s. hex_code"
  by unfold_locales (simp_all add: zgethex_code)

subsection \<open>Reading headers\<close>

lemma READLINE_PF_Rx:
  "READLINE_PF (s\<lparr>Rxhdr := h\<rparr>) = (fst (READLINE_PF s), (snd (READLINE_PF s))\<lparr>Rxhdr := h\<rparr>)"
  "READLINE_PF (s\<lparr>Rxtype := t\<rparr>) = (fst (READLINE_PF s), (snd (READLINE_PF s))\<lparr>Rxtype := t\<rparr>)"
  "READLINE_PF (s\<lparr>Rxframeind := f\<rparr>) = (fst (READLINE_PF s), (snd (READLINE_PF s))\<lparr>Rxframeind := f\<rparr>)"
  "READLINE_PF (s\<lparr>Crc32 := c\<rparr>) = (fst (READLINE_PF s), (snd (READLINE_PF s))\<lparr>Crc32 := c\<rparr>)"
  "READLINE_PF (s\<lparr>protocol := p\<rparr>) = (fst (READLINE_PF s), (snd (READLINE_PF s))\<lparr>protocol := p\<rparr>)"
  "READLINE_PF (s\<lparr>zmodem_requested := z\<rparr>) = (fst (READLINE_PF s), (snd (READLINE_PF s))\<lparr>zmodem_requested := z\<rparr>)"
  by (simp_all add: READLINE_PF_def readline_internal_def split: list.split prod.split)

lemma rskip_Rx [frame_simps]:
  "rskip n (s\<lparr>Rxhdr := h\<rparr>) = (rskip n s)\<lparr>Rxhdr := h\<rparr>"
  "rskip n (s\<lparr>Rxtype := t\<rparr>) = (rskip n s)\<lparr>Rxtype := t\<rparr>"
  "rskip n (s\<lparr>Rxframeind := f\<rparr>) = (rskip n s)\<lparr>Rxframeind := f\<rparr>"
  "rskip n (s\<lparr>Crc32 := c\<rparr>) = (rskip n s)\<lparr>Crc32 := c\<rparr>"
  "rskip n (s\<lparr>protocol := p\<rparr>) = (rskip n s)\<lparr>protocol := p\<rparr>"
  "rskip n (s\<lparr>zmodem_requested := z\<rparr>) = (rskip n s)\<lparr>zmodem_requested := z\<rparr>"
  by (induction n arbitrary: s) (simp_all add: skip.simps READLINE_PF_Rx)

lemma pending_Rx [frame_simps]:
  "pending (s\<lparr>Rxhdr := h\<rparr>) = pending s"
  "pending (s\<lparr>Rxtype := t\<rparr>) = pending s"
  "pending (s\<lparr>Rxframeind := f\<rparr>) = pending s"
  "pending (s\<lparr>Crc32 := c\<rparr>) = pending s"
  "pending (s\<lparr>protocol := p\<rparr>) = pending s"
  "pending (s\<lparr>zmodem_requested := z\<rparr>) = pending s"
  by (simp_all add: pending_def)

locale header_source =
  coded_source READLINE_PF pending "\<lambda>s. 0 < readline_readnum s" bytes_left dec codes
  for dec :: "'a zm_scheme \<Rightarrow> int \<times> 'a zm_scheme" and codes +
  fixes bad :: "int \<Rightarrow> bool"
  assumes codes_Rxhdr: "codes (s\<lparr>Rxhdr := h\<rparr>) = codes s"
    and codes_Rxtype: "codes (s\<lparr>Rxtype := t\<rparr>) = codes s"
    and plain: "\<not> bad (uint (b :: byte))"
begin

lemma rd_hdr_codes:
  assumes "0 < readline_readnum s" "list_all2 (codes s) bs ws" "pending s = concat ws @ rest"
    and "i + length bs \<le> length (Rxhdr s)"
  shows "rd_hdr dec bad upd [i..<i + length bs] crc s
    = Inr (fold (\<lambda>b. upd (uint b)) bs crc, (rskip (length (concat ws)) s)
        \<lparr>Rxhdr := take i (Rxhdr s) @ bs @ drop (i + length bs) (Rxhdr s)\<rparr>)"
  using assms
proof (induction bs arbitrary: i ws crc s)
  case (Cons b bs)
  then obtain w ws' where ws: "ws = w # ws'" "codes s b w" "list_all2 (codes s) bs ws'"
    by (auto simp: list_all2_Cons1)
  define s1 where "s1 = (rskip (length w) s)\<lparr>Rxhdr := (Rxhdr s)[i := b]\<rparr>"
  have dec: "dec s = (uint b, rskip (length w) s)"
    using Cons.prems ws by (intro dec_code) auto
  have "rd_hdr dec bad upd [Suc i..<Suc i + length bs] (upd (uint b) crc) s1
    = Inr (fold (\<lambda>b. upd (uint b)) bs (upd (uint b) crc), (rskip (length (concat ws')) s1)
        \<lparr>Rxhdr := take (Suc i) (Rxhdr s1) @ bs @ drop (Suc i + length bs) (Rxhdr s1)\<rparr>)"
    using Cons.prems ws
    by (intro Cons.IH) (simp_all add: s1_def codes_Rxhdr codes_skip frame_simps)
  moreover have "[i..<i + length (b # bs)] = i # [Suc i..<Suc i + length bs]"
    by (simp add: upt_conv_Cons del: upt_Suc)
  ultimately show ?case
    using Cons.prems ws(1) dec
    by (simp add: s1_def plain frame_simps take_Suc_conv_app_nth del: upt_Suc)
qed (simp add: frame_simps)

text \<open>A frame is the type, the four header bytes and the check bytes, coded.\<close>

lemma rd_frame_codes:
  assumes "0 < readline_readnum s" "list_all2 (codes s) (t # hdr @ chk) ws"
    and "pending s = concat ws @ rest" "length hdr = 4" "length (Rxhdr s) = 4"
  defines "s' \<equiv> (rskip (length (concat ws)) s)\<lparr>Rxtype := uint t, Rxhdr := hdr\<rparr>"
  shows "rd_frame dec bad upd ini (length chk) good s
    = (if fold (\<lambda>b. upd (uint b)) (t # hdr @ chk) ini = good then Inr s' else Inl (MYERROR, s'))"
proof -
  from assms(2) obtain w ws1 ws2 where ws: "ws = w # ws1 @ ws2" "codes s t w"
    "list_all2 (codes s) hdr ws1" "list_all2 (codes s) chk ws2"
    by (auto simp: list_all2_Cons1 list_all2_append1)
  have 1: "dec s = (uint t, rskip (length w) s)"
    using assms ws by (intro dec_code) auto
  define s1 where "s1 = (rskip (length w) s)\<lparr>Rxtype := uint t\<rparr>"
  have upt: "[0, 1, 2, 3] = [0..<0 + length hdr]" by (simp add: assms(4) upt_rec)
  have 2: "rd_hdr dec bad upd [0, 1, 2, 3] crc s1
    = Inr (fold (\<lambda>b. upd (uint b)) hdr crc, (rskip (length (concat ws1)) s1)\<lparr>Rxhdr := hdr\<rparr>)" for crc
    using rd_hdr_codes [of s1 hdr ws1 "concat ws2 @ rest" 0 upd crc] assms ws
    unfolding upt by (simp add: s1_def codes_Rxtype codes_skip frame_simps del: rd_hdr.simps)
  have 3: "rd_check dec bad upd (length chk) crc ((rskip (length (concat ws1)) s1)\<lparr>Rxhdr := hdr\<rparr>)
    = Inr (fold (\<lambda>b. upd (uint b)) chk crc, s')" for crc
    using read_codes [of "(rskip (length (concat ws1)) s1)\<lparr>Rxhdr := hdr\<rparr>" chk ws2 rest bad upd crc]
      assms ws
    by (simp add: add.assoc s1_def s'_def codes_Rxhdr codes_Rxtype codes_skip plain frame_simps)
  show ?thesis
    unfolding rd_frame_def 1 by (simp only: prod.case sum.case plain if_False s1_def [symmetric] 2 3) simp
qed

lemma rd_frame_good:
  assumes "0 < readline_readnum s" "length (Rxhdr s) = 4" "length hdr = 4" "0 \<le> type" "type < 256"
    and "fr = word_of_int type # hdr @ chk" "length chk = n"
    and "fold (\<lambda>b. upd (uint b)) fr ini = good"
    and "list_all2 (codes s) fr ws" "pending s = concat ws @ rest"
  shows "rd_frame dec bad upd ini n good s
    = Inr ((rskip (length (concat ws)) s)\<lparr>Rxtype := type, Rxhdr := hdr\<rparr>)"
proof -
  have "uint (word_of_int type :: byte) = type"
    using assms by (simp add: uint_word_of_int_eq take_bit_int_eq_self)
  with rd_frame_codes [of s "word_of_int type" hdr chk ws rest upd ini good] assms
  show ?thesis by (simp del: fold_simps fold_append)
qed

end

lemma special_byte [simp]: "\<not> special (uint (b :: byte))"
proof -
  have "uint b = take_bit 8 (uint b)" by (simp add: take_bit_int_eq_self)
  also have "\<dots> AND NOT (mask 8) = 0" by (simp add: take_bit_eq_mask and.assoc)
  finally show ?thesis by (simp add: special_def mask_eq_exp_minus_1)
qed

interpretation zdl: header_source zdlread "\<lambda>s. zdl_code (Zctlesc s)" special
  by unfold_locales simp_all

interpretation hex: header_source zgethex "\<lambda>s. hex_code" "\<lambda>c. c < 0"
  by unfold_locales simp_all

subsection \<open>Sender and receiver agree on the escapes\<close>

text \<open>
  The sender's table is the one \<^verbatim>\<open>zsendline_init\<close> computes, and a receiver that drops
  control characters has a sender that escapes them all.
\<close>

definition escapes_for :: "'a zm_scheme \<Rightarrow> 'b zm_scheme \<Rightarrow> bool" where
  "escapes_for t s \<longleftrightarrow> zsendline_tab t = zsendline_tab (zsendline_init t)
     \<and> (Zctlesc s \<noteq> 0 \<longrightarrow> Zctlesc t \<noteq> 0 \<and> \<not> turbo_escape t)"

lemma unat_and_96: "unat (b :: byte) AND 96 = 0 \<longleftrightarrow> b AND 96 = 0"
proof -
  have "unat (b AND 96) = unat b AND 96" by (simp add: unsigned_and_eq)
  then show ?thesis by (metis unat_eq_zero)
qed

lemma unat_byte_numeral: "unat (b :: byte) = numeral n \<longleftrightarrow> b = numeral n \<and> numeral n < (256 :: nat)"
proof -
  have "unat b = numeral n \<longleftrightarrow> uint b = numeral n"
    using of_nat_eq_iff [of "unat b" "numeral n", where ?'a = int] by simp
  then show ?thesis by (simp add: uint_byte_numeral)
qed

lemma zbytes_code:
  assumes "ctlesc \<noteq> 0 \<Longrightarrow> ctlesc' \<noteq> 0 \<and> \<not> turbo"
  shows "zdl_code ctlesc b (zbytes (zsendline_entry turbo ctlesc' (unat b)) ls b)"
proof (cases "b AND 96 = 0")
  case True
  with assms show ?thesis
    by (auto simp: zdl_code_def zbytes_def zsendline_entry_def unat_and_96 unat_byte_numeral)
qed (simp add: zdl_code_def zbytes_def zsendline_entry_def unat_and_96)

lemma escapes_for_tab_ok: "escapes_for t s \<Longrightarrow> tab_ok (zsendline_tab t)"
  by (metis escapes_for_def tab_ok_init)

lemma zencode_codes:
  assumes "escapes_for t s"
  shows "list_all2 (zdl_code (Zctlesc s)) bs (zencode (zsendline_tab t) ls bs)"
proof -
  have "zsendline_tab t ! unat b = zsendline_entry (turbo_escape t) (Zctlesc t) (unat b)" for b :: byte
    using assms byte_less [of b] by (simp add: escapes_for_def zsendline_init_def)
  then show ?thesis
    using assms by (induction bs arbitrary: ls) (simp_all add: zbytes_code escapes_for_def Let_def)
qed

subsection \<open>Headers arrive as sent\<close>

lemma sent_zsendlines [wire_simps]:
  "tab_ok (zsendline_tab s) \<Longrightarrow>
     sent (fold zsendline bs s) = sent s @ concat (zencode (zsendline_tab s) (lastsent s) bs)"
  by (simp add: fold_zsendline sent_def)

lemma zsendline_frame [frame_simps]:
  "zsendline_tab (xsendline c s) = zsendline_tab s"
  "lastsent (xsendline c s) = lastsent s"
  "zsendline_tab (flushmo s) = zsendline_tab s"
  "Txfcs32 (xsendline c s) = Txfcs32 s"
  by (simp_all add: xsendline_def flushmo_def)

lemma word_of_int_ucast: "(word_of_int (uint (b :: byte)) :: 'a::len word) = ucast b"
  by simp

definition zb_frame :: "bool \<Rightarrow> int \<Rightarrow> byte list \<Rightarrow> byte list" where
  "zb_frame fcs32 type hdr =
     (let bs = word_of_int type # hdr
      in bs @ (if fcs32 then trailer32 (fold upd32 bs 0xFFFFFFFF) else trailer16 (fold upd16 bs 0)))"

lemma upd_byte:
  "updcrc (ucast b) = upd16 b" "UPDC32 (ucast b) = upd32 b"
  by (auto simp: upd16_def upd32_def fun_eq_iff)

lemma zsbh32_fold:
  assumes "0 \<le> type" "type < 256"
  shows "zsbh32 hdr type s = fold zsendline (zb_frame True type hdr) (xsendline ZBIN32 s)"
proof -
  have t: "(word_of_int type :: u32) = ucast (word_of_int type :: byte)"
    using assms by (simp add: unsigned_of_int take_bit_int_eq_self)
  show ?thesis
    by (simp add: zsbh32_def t upd_byte fold_pair zb_frame_def trailer32_def Let_def)
qed

lemma zsbhdr_sent:
  assumes "0 \<le> type" "type < 256" "tab_ok (zsendline_tab s)"
  shows "sent (zsbhdr type hdr s) = sent s @ (if type = ZDATA then replicate (Znulls s) 0 else [])
    @ [ZPAD, ZDLE, if Txfcs32 s then ZBIN32 else ZBIN]
    @ concat (zencode (zsendline_tab s) (lastsent s) (zb_frame (Txfcs32 s) type hdr))"
proof -
  have t: "(word_of_int type :: u16) = ucast (word_of_int type :: byte)"
    using assms by (simp add: unsigned_of_int take_bit_int_eq_self)
  have nulls: "(xsendline 0 ^^ n) s = s\<lparr>obuf := obuf s @ replicate n 0\<rparr>" for n
    by (induction n) (simp_all add: xsendline_def replicate_append_same)
  define z where "z \<longleftrightarrow> type = ZDATA"
  define s1 where "s1 = (xsendline ZDLE (xsendline ZPAD (if z then (xsendline 0 ^^ Znulls s) s else s)))
    \<lparr>Crc32t := Txfcs32 s\<rparr>"
  have s1: "sent s1 = sent s @ (if z then replicate (Znulls s) 0 else []) @ [ZPAD, ZDLE]"
    "zsendline_tab s1 = zsendline_tab s" "lastsent s1 = lastsent s"
    by (simp_all add: s1_def nulls sent_def xsendline_def)
  have "zsbhdr type hdr s = (if z then id else flushmo) (fold zsendline (zb_frame (Txfcs32 s) type hdr)
      (xsendline (if Txfcs32 s then ZBIN32 else ZBIN) s1))"
    unfolding zsbhdr_def z_def [symmetric] zsbh32_fold [OF assms(1,2)] Let_def
    by (simp add: s1_def t upd_byte fold_pair zb_frame_def trailer16_def Let_def nulls frame_simps)
  then show ?thesis
    using assms(3) s1 by (simp add: z_def [symmetric] wire_simps frame_simps)
qed

text \<open>The state after a good header.\<close>

definition got_header :: "int \<Rightarrow> int \<Rightarrow> byte list \<Rightarrow> 'a zm_scheme \<Rightarrow> 'a zm_scheme" where
  "got_header frameind type hdr s =
     s\<lparr>Rxframeind := frameind, Crc32 := if frameind = ZBIN32 then ZBIN32 else 0, Rxtype := type,
       Rxhdr := hdr, protocol := ZM_ZMODEM, zmodem_requested := True\<rparr>"

lemma noxrd7_char:
  assumes "0 < readline_readnum s" "pending s = c # bs" "uint c < 128" "c \<notin> {17, 19}"
    and "c \<in> {10, 13, 24} \<or> c AND 96 \<noteq> 0"
  shows "noxrd7 s = (uint c, rskip 1 s)"
proof -
  have mask: "uint c AND 127 = uint c"
    using take_bit_int_eq_self [of "uint c" 7] assms(3)
    by (simp add: take_bit_eq_mask mask_eq_exp_minus_1)
  then have "\<not> noxrd7_skips s (uint c)"
    using assms(4,5) by (auto simp: noxrd7_skips_def Let_def uint_byte_numeral uint_and_96)
  then show ?thesis
    using READLINE_PF_code [OF assms(1,2)] mask by (simp add: noxrd7_unfold [of s])
qed

lemma zg_splat_zdle:
  assumes "0 < readline_readnum s" "pending s = replicate n ZPAD @ ZDLE # bs"
  shows "zg_splat s = (24, rskip (Suc n) s)"
  using assms
proof (induction n arbitrary: s)
  case 0
  then show ?case
    using noxrd7_char [of s 24 bs] by (simp add: zg_splat.simps [of s])
next
  case (Suc n)
  then have "noxrd7 s = (42, rskip (Suc 0) s)"
    using noxrd7_char [of s 42 "replicate n 42 @ 24 # bs"] by simp
  with Suc show ?case by (simp add: zg_splat.simps [of s] frame_simps)
qed

lemma fold_upd_bytes:
  "fold (\<lambda>b. upd16i (uint b)) = fold upd16" "fold (\<lambda>b. upd32i (uint b)) = fold upd32"
  by (simp_all add: upd_byte fun_eq_iff)

lemma zb_frame_good:
  "fold upd32 (zb_frame True type hdr) 0xFFFFFFFF = 0xDEBB20E3"
  "fold upd16 (zb_frame False type hdr) 0 = 0"
  using crc32.fold_sent [of "word_of_int type # hdr" "0xFFFFFFFF"]
    crc16.fold_sent [of "word_of_int type # hdr" 0]
  by (simp_all add: zb_frame_def Let_def)

lemma zb_frame_parts:
  obtains chk where "zb_frame fcs32 type hdr = word_of_int type # hdr @ chk"
    "length chk = (if fcs32 then 4 else 2)"
  by (simp add: zb_frame_def trailer16_def trailer32_def Let_def)

lemma zrb_frame:
  assumes "0 < readline_readnum s" "length (Rxhdr s) = 4" "length hdr = 4" "0 \<le> type" "type < 256"
    and "list_all2 (zdl_code (Zctlesc s)) (zb_frame fcs32 type hdr) ws" "pending s = concat ws @ rest"
  shows "(if fcs32 then zrbhdr32 s else zrbhdr s)
    = (type, (rskip (length (concat ws)) s)
        \<lparr>Rxtype := type, Rxhdr := hdr, protocol := ZM_ZMODEM, zmodem_requested := True\<rparr>)"
proof -
  obtain chk where fr: "zb_frame fcs32 type hdr = word_of_int type # hdr @ chk"
    and len: "length chk = (if fcs32 then 4 else 2)" by (rule zb_frame_parts)
  show ?thesis
  proof (cases fcs32)
    case True
    with assms fr len zb_frame_good(1) [of type hdr]
    have "rd_frame zdlread special upd32i 0xFFFFFFFF 4 0xDEBB20E3 s
      = Inr ((rskip (length (concat ws)) s)\<lparr>Rxtype := type, Rxhdr := hdr\<rparr>)"
      by (intro zdl.rd_frame_good [where chk = chk]) (simp_all only: fold_upd_bytes if_True)
    with True show ?thesis by (simp add: zrbhdr32_def zm_accept_def)
  next
    case False
    with assms fr len zb_frame_good(2) [of type hdr]
    have "rd_frame zdlread special upd16i 0 2 0 s
      = Inr ((rskip (length (concat ws)) s)\<lparr>Rxtype := type, Rxhdr := hdr\<rparr>)"
      by (intro zdl.rd_frame_good [where chk = chk]) (simp_all only: fold_upd_bytes if_False)
    with False show ?thesis by (simp add: zrbhdr_def zm_accept_def)
  qed
qed

text \<open>From the pads on, a binary header of either kind is read.\<close>

lemma zg_pad_bin:
  assumes "0 < readline_readnum s" "length (Rxhdr s) = 4" "length hdr = 4" "0 \<le> type" "type < 256"
    and "list_all2 (zdl_code (Zctlesc s)) (zb_frame fcs32 type hdr) ws"
    and "pending s = ZDLE # (if fcs32 then ZBIN32 else ZBIN) # concat ws @ rest"
  shows "zg_pad s = (Header type, got_header (if fcs32 then ZBIN32 else ZBIN) type hdr
    (rskip (2 + length (concat ws)) s))"
proof -
  have 1: "zg_splat s = (24, rskip (Suc 0) s)"
    using zg_splat_zdle [of s 0] assms by simp
  have 2: "noxrd7 (rskip (Suc 0) s) = (if fcs32 then 67 else 65, rskip (Suc (Suc 0)) s)"
    using noxrd7_char [of "rskip (Suc 0) s" "if fcs32 then 67 else 65" "concat ws @ rest"] assms
    by (simp add: frame_simps)
  define s1 where "s1 = (rskip 2 s)\<lparr>Rxframeind := if fcs32 then 67 else 65, Crc32 := if fcs32 then 67 else 0\<rparr>"
  have "pending s1 = concat ws @ rest" "0 < readline_readnum s1" "length (Rxhdr s1) = 4"
    "list_all2 (zdl_code (Zctlesc s1)) (zb_frame fcs32 type hdr) ws"
    using assms by (simp_all add: s1_def frame_simps)
  then have 3: "(if fcs32 then zrbhdr32 s1 else zrbhdr s1) = (type, (rskip (length (concat ws)) s1)
        \<lparr>Rxtype := type, Rxhdr := hdr, protocol := ZM_ZMODEM, zmodem_requested := True\<rparr>)"
    using assms by (intro zrb_frame)
  show ?thesis
    using 3 unfolding zg_pad_def 1
    by (cases fcs32) (simp_all add: 2 s1_def got_header_def frame_simps numeral_2_eq_2)
qed

text \<open>\<^verbatim>\<open>zgethdr\<close> skips characters that cannot begin a header or a cancel sequence.\<close>

definition garbage :: "byte list \<Rightarrow> bool" where
  "garbage gs \<longleftrightarrow> (\<forall>g \<in> set gs. g \<noteq> CAN \<and> g \<noteq> ZPAD \<and> g \<noteq> ZPAD + 128)"

lemma zg_again_garbage:
  assumes "0 < readline_readnum s" "pending s = gs @ ZPAD # bs" "length gs < unat mg" "garbage gs"
    and pad: "zg_pad (rskip (Suc (length gs)) s) = (Header c, s')" "c \<noteq> GOTCAN"
  shows "zg_again mg 5 s = (c, Some (rx_position (Rxhdr s')), s')"
  using assms
proof (induction gs arbitrary: s mg)
  case Nil
  then have "zg_step 5 s = (Header c, s')"
    using READLINE_PF_code [of s 42 bs] by (simp add: zg_step_def)
  with Nil show ?case by (simp add: zg_again.simps [of mg])
next
  case (Cons g gs)
  have "0 \<le> uint g" by simp
  then have "uint g \<noteq> -3" "uint g \<noteq> -2" by linarith+
  moreover have "g \<noteq> 24" "g \<noteq> 42" "g \<noteq> 170" using Cons.prems(4) by (simp_all add: garbage_def)
  ultimately have step: "zg_step 5 s = (Agn2, rskip (Suc 0) s)"
    using READLINE_PF_code [of s g "gs @ 42 # bs"] Cons.prems by (simp add: zg_step_def uint_byte_numeral)
  have "mg \<noteq> 0" "mg \<noteq> 1" using Cons.prems(3) by auto
  then have mg: "unat (mg - 1) = unat mg - 1" "mg \<noteq> 1"
    by (simp_all add: unat_minus_one)
  have "zg_again (mg - 1) 5 (rskip (Suc 0) s) = (c, Some (rx_position (Rxhdr s')), s')"
    using Cons.prems mg by (intro Cons.IH) (simp_all add: frame_simps garbage_def)
  with mg step show ?case by (simp add: zg_again.simps [of mg])
qed

lemma zgethdr_bin:
  assumes "0 < readline_readnum s" "length (Rxhdr s) = 4" "length hdr = 4" "0 \<le> type" "type < 256"
    and "list_all2 (zdl_code (Zctlesc s)) (zb_frame fcs32 type hdr) ws"
    and "pending s = gs @ [ZPAD, ZDLE, if fcs32 then ZBIN32 else ZBIN] @ concat ws @ rest"
    and "length gs < unat (Zrwindow s + Baudrate s)" "garbage gs"
  shows "zgethdr s = (type, Some (rx_position hdr),
    got_header (if fcs32 then ZBIN32 else ZBIN) type hdr (rskip (length gs + 3 + length (concat ws)) s))"
proof -
  define n where "n = length gs"
  define s0 where "s0 = s\<lparr>Rxframeind := 0, Rxtype := 0\<rparr>"
  have pad: "zg_pad (rskip (Suc n) s0) = (Header type,
      got_header (if fcs32 then ZBIN32 else ZBIN) type hdr
        (rskip (2 + length (concat ws)) (rskip (Suc n) s0)))"
    using assms by (intro zg_pad_bin) (simp_all add: s0_def n_def frame_simps)
  have "zgethdr s = (type, Some (rx_position hdr),
      got_header (if fcs32 then ZBIN32 else ZBIN) type hdr
        (rskip (2 + length (concat ws)) (rskip (Suc n) s0)))"
    unfolding zgethdr_def s0_def [symmetric]
    using assms zg_again_garbage [OF _ _ _ _ pad [unfolded n_def]]
    by (simp add: s0_def n_def frame_simps got_header_def)
  then show ?thesis
    by (simp add: s0_def n_def got_header_def frame_simps numeral_3_eq_3)
qed

lemma zsbhdr_received:
  assumes "escapes_for t s" "0 < readline_readnum s" "length (Rxhdr s) = 4"
    and "length hdr = 4" "0 \<le> type" "type < 256" "garbage gs"
    and "length gs + Znulls t < unat (Zrwindow s + Baudrate s)"
    and "pending s = gs @ drop (length (sent t)) (sent (zsbhdr type hdr t)) @ rest"
  shows "\<exists>n. zgethdr s = (type, Some (rx_position hdr),
      got_header (if Txfcs32 t then ZBIN32 else ZBIN) type hdr (rskip n s))
    \<and> pending (rskip n s) = rest"
proof -
  define n where "n = (if type = ZDATA then Znulls t else 0)"
  define ws where "ws = zencode (zsendline_tab t) (lastsent t) (zb_frame (Txfcs32 t) type hdr)"
  let ?gs = "gs @ replicate n 0"
  have pend: "pending s = ?gs @ [ZPAD, ZDLE, if Txfcs32 t then ZBIN32 else ZBIN] @ concat ws @ rest"
    using assms(9) zsbhdr_sent [OF assms(5,6) escapes_for_tab_ok [OF assms(1)]]
    by (simp add: n_def ws_def split: if_splits)
  have "zgethdr s = (type, Some (rx_position hdr),
      got_header (if Txfcs32 t then ZBIN32 else ZBIN) type hdr (rskip (length ?gs + 3 + length (concat ws)) s))"
    using assms pend zencode_codes [OF assms(1)]
    by (intro zgethdr_bin) (auto simp: ws_def n_def garbage_def)
  moreover have "pending (rskip (length ?gs + 3 + length (concat ws)) s) = rest"
    using assms(2) pend by (simp add: frame_simps numeral_3_eq_3)
  ultimately show ?thesis by blast
qed

text \<open>
  Claim C16: a binary header sent by \<^verbatim>\<open>zsbhdr\<close>, with a 16-bit or a 32-bit frame check and
  after the nulls that precede a ZDATA header, is read by \<^verbatim>\<open>zgethdr\<close> as it was sent: the
  type, the position and the four bytes are those of the sender, the receiver knows which
  frame check data subpackets will have, and exactly the header is taken from the line,
  whatever follows and however the bytes were chunked. The receiver may ask for escaped
  control characters, then the sender's table escapes them.
\<close>

theorem zsbhdr_zgethdr:
  assumes "escapes_for t s" "0 < readline_readnum s" "length (Rxhdr s) = 4"
    and "length hdr = 4" "0 \<le> type" "type < 256"
    and "Znulls t < unat (Zrwindow s + Baudrate s)"
    and "sent t @ pending s = sent (zsbhdr type hdr t) @ rest"
  shows "\<exists>n. zgethdr s = (type, Some (rx_position hdr),
      got_header (if Txfcs32 t then ZBIN32 else ZBIN) type hdr (rskip n s))
    \<and> pending (rskip n s) = rest"
  using assms zsbhdr_received [of t s hdr type "[]" rest]
    zsbhdr_sent [OF assms(5,6) escapes_for_tab_ok [OF assms(1)], of hdr]
  by (simp add: garbage_def)

text \<open>Two ends for the examples: a receiver with the given bytes on the line, a sender.\<close>

definition rx_example :: "byte list \<Rightarrow> zm" where
  "rx_example bs = zm_init\<lparr>line_in := [bs], Zctlesc := 1\<rparr>"

definition tx_example :: "bool \<Rightarrow> zm" where
  "tx_example fcs32 = zsendline_init (zm_init\<lparr>Txfcs32 := fcs32, Zctlesc := 1\<rparr>)"

lemma example_simps [simp]:
  "pending (rx_example bs) = bs" "0 < readline_readnum (rx_example bs)" "Rxhdr (rx_example bs) = [0, 0, 0, 0]"
  "Zrwindow (rx_example bs) = 1400" "Baudrate (rx_example bs) = 2400" "Rxframeind (rx_example bs) = 0"
  "sent (tx_example fcs32) = []" "Txfcs32 (tx_example fcs32) = fcs32" "Znulls (tx_example fcs32) = 0"
  "escapes_for (tx_example fcs32) (rx_example bs)"
  by (simp_all add: rx_example_def tx_example_def zm_init_def pending_def sent_def zsendline_init_def
      escapes_for_def)

theorem zsbhdr_zgethdr_witness:
  "\<exists>n. zgethdr (rx_example (sent (zsbhdr ZRPOS [0, 17, 255, 24] (tx_example True))))
     = (ZRPOS, Some (rx_position [0, 17, 255, 24]), got_header ZBIN32 ZRPOS [0, 17, 255, 24]
          (rskip n (rx_example (sent (zsbhdr ZRPOS [0, 17, 255, 24] (tx_example True))))))"
  using zsbhdr_zgethdr [of "tx_example True" "rx_example (sent (zsbhdr ZRPOS [0, 17, 255, 24] (tx_example True)))"
      "[0, 17, 255, 24]" ZRPOS "[]"] by auto

subsection \<open>Hexadecimal headers\<close>

definition zh_frame :: "int \<Rightarrow> byte list \<Rightarrow> byte list" where
  "zh_frame type hdr =
     (let bs = word_of_int type # hdr in bs @ trailer16 (fold upd16 bs 0))"

lemma fold_hex: "fold (\<lambda>h (out, crc). (out @ f h, g h crc)) hs (out, crc)
    = (out @ concat (map f hs), fold g hs crc)"
  by (induction hs arbitrary: out crc) simp_all

lemma zshhdr_sent:
  assumes "0 \<le> type" "type < 128"
  shows "sent (zshhdr type hdr s) = sent s @ [ZPAD, ZPAD, ZDLE, ZHEX]
    @ concat (map zputhex (zh_frame type hdr)) @ [13, 138]
    @ (if type \<noteq> ZFIN \<and> type \<noteq> ZACK then [XON] else [])"
proof -
  have m: "type AND 127 = type"
    using take_bit_int_eq_self [of type 7] assms by (simp add: take_bit_eq_mask mask_eq_exp_minus_1)
  have t: "(word_of_int type :: u16) = ucast (word_of_int type :: byte)"
    using assms by (simp add: unsigned_of_int take_bit_int_eq_self)
  show ?thesis
    by (simp add: zshhdr_def m t upd_byte fold_hex zh_frame_def trailer16_def Let_def
        sent_def write1_def flushmo_def)
qed

lemma hex_codes: "list_all2 hex_code bs (map zputhex bs)"
  by (simp add: list_all2_conv_all_nth hex_code_def)

lemma zh_frame_eq: "zh_frame type hdr = zb_frame False type hdr"
  by (simp add: zh_frame_def zb_frame_def)

lemma length_hex_frame:
  assumes "length hdr = 4"
  shows "length (concat (map zputhex (zh_frame type hdr))) = 14"
proof -
  obtain chk where fr: "zh_frame type hdr = word_of_int type # hdr @ chk" and chk: "length chk = 2"
    unfolding zh_frame_eq using zb_frame_parts [of False] by auto
  have "length (zputhex b) = 2" for b by (simp add: zputhex_def)
  then show ?thesis
    by (simp add: length_concat comp_def sum_list_triv fr chk assms)
qed

lemma zrh_frame:
  assumes "0 < readline_readnum s" "length (Rxhdr s) = 4" "length hdr = 4" "0 \<le> type" "type < 256"
    and "pending s = concat (map zputhex (zh_frame type hdr)) @ 13 # 138 # rest"
  shows "zrhhdr s = (type, (rskip 16 s)
    \<lparr>Rxtype := type, Rxhdr := hdr, protocol := ZM_ZMODEM, zmodem_requested := True\<rparr>)"
proof -
  obtain chk where fr: "zh_frame type hdr = word_of_int type # hdr @ chk" and chk: "length chk = 2"
    unfolding zh_frame_eq using zb_frame_parts [of False] by auto
  note len = length_hex_frame [OF assms(3)]
  have "rd_frame zgethex (\<lambda>c. c < 0) upd16i 0 2 0 s
      = Inr ((rskip (length (concat (map zputhex (zh_frame type hdr)))) s)\<lparr>Rxtype := type, Rxhdr := hdr\<rparr>)"
    using assms fr chk hex_codes zb_frame_good(2) [of type hdr]
    by (intro hex.rd_frame_good [where chk = chk]) (simp_all only: fold_upd_bytes zh_frame_eq)
  moreover have "READLINE_PF (rskip 14 s) = (13, rskip (Suc 14) s)"
    using READLINE_PF_code [of "rskip 14 s" 13 "138 # rest"] assms len by (simp add: frame_simps)
  moreover have "READLINE_PF (rskip (Suc 14) s) = (138, rskip 16 s)"
    using READLINE_PF_code [of "rskip 15 s" 138 rest] assms len by (simp add: frame_simps)
  ultimately show ?thesis
    by (simp add: zrhhdr_def zm_accept_def len READLINE_PF_Rx)
qed

lemma zg_pad_hex:
  assumes "0 < readline_readnum s" "length (Rxhdr s) = 4" "length hdr = 4" "0 \<le> type" "type < 256"
    and "pending s = [ZPAD, ZDLE, ZHEX] @ concat (map zputhex (zh_frame type hdr)) @ 13 # 138 # rest"
  shows "zg_pad s = (Header type, got_header ZHEX type hdr (rskip 19 s))"
proof -
  have 1: "zg_splat s = (24, rskip 2 s)"
    using zg_splat_zdle [of s 1] assms by (simp add: numeral_2_eq_2)
  have 2: "noxrd7 (rskip 2 s) = (66, rskip 3 s)"
    using noxrd7_char [of "rskip 2 s" 66 "concat (map zputhex (zh_frame type hdr)) @ 13 # 138 # rest"] assms
    by (simp add: frame_simps)
  have "zrhhdr ((rskip 3 s)\<lparr>Rxframeind := 66, Crc32 := 0\<rparr>)
      = (type, (rskip 16 ((rskip 3 s)\<lparr>Rxframeind := 66, Crc32 := 0\<rparr>))
        \<lparr>Rxtype := type, Rxhdr := hdr, protocol := ZM_ZMODEM, zmodem_requested := True\<rparr>)"
    using assms by (intro zrh_frame [where rest = rest]) (simp_all add: frame_simps)
  then show ?thesis
    by (simp add: zg_pad_def 1 2 got_header_def frame_simps)
qed

text \<open>
  Claim C17: a hexadecimal header sent by \<^verbatim>\<open>zshhdr\<close> is read by \<^verbatim>\<open>zgethdr\<close> as it was sent,
  for every type below 128 and every four header bytes; only the XON that follows most
  hexadecimal headers is left on the line.
\<close>

theorem zshhdr_zgethdr:
  assumes "0 < readline_readnum s" "length (Rxhdr s) = 4" "length hdr = 4" "0 \<le> type" "type < 128"
    and "0 < Zrwindow s + Baudrate s"
    and "sent t @ pending s = sent (zshhdr type hdr t) @ rest"
  shows "zgethdr s = (type, Some (rx_position hdr), got_header ZHEX type hdr (rskip 20 s))
    \<and> pending (rskip 20 s) = (if type \<noteq> ZFIN \<and> type \<noteq> ZACK then [XON] else []) @ rest"
proof -
  define s0 where "s0 = s\<lparr>Rxframeind := 0, Rxtype := 0\<rparr>"
  define end_xon :: "byte list" where "end_xon = (if type \<noteq> ZFIN \<and> type \<noteq> ZACK then [XON] else [])"
  have "sent (zshhdr type hdr t) = sent t @ [ZPAD, ZPAD, ZDLE, ZHEX]
    @ concat (map zputhex (zh_frame type hdr)) @ [13, 138] @ end_xon"
    unfolding end_xon_def by (rule zshhdr_sent [OF assms(4,5)])
  with assms(7) have pend: "pending s0 = [ZPAD, ZPAD, ZDLE, ZHEX]
    @ concat (map zputhex (zh_frame type hdr)) @ 13 # 138 # end_xon @ rest"
    by (simp add: s0_def frame_simps)
  have pad: "zg_pad (rskip (Suc 0) s0) = (Header type, got_header ZHEX type hdr (rskip 19 (rskip (Suc 0) s0)))"
    using assms pend by (intro zg_pad_hex [where rest = "end_xon @ rest"]) (simp_all add: s0_def frame_simps)
  have "0 < unat (Zrwindow s + Baudrate s)"
    using assms(6) by (simp add: unat_gt_0 word_neq_0_conv)
  then have "zg_again (Zrwindow s + Baudrate s) 5 s0 = (type,
      Some (rx_position (Rxhdr (got_header ZHEX type hdr (rskip 19 (rskip (Suc 0) s0))))),
      got_header ZHEX type hdr (rskip 19 (rskip (Suc 0) s0)))"
    using pad pend assms(1,4,5)
    by (intro zg_again_garbage [where gs = "[]"]) (simp_all add: s0_def garbage_def)
  then have "zgethdr s = (type, Some (rx_position hdr), got_header ZHEX type hdr (rskip 19 (rskip (Suc 0) s0)))"
    unfolding zgethdr_def s0_def [symmetric] by (simp add: got_header_def)
  moreover have "pending (rskip 20 s) = end_xon @ rest"
    using pend assms(1) length_hex_frame [OF assms(3), of type] by (simp add: s0_def frame_simps)
  ultimately show ?thesis
    by (simp add: s0_def got_header_def frame_simps end_xon_def)
qed

theorem zshhdr_zgethdr_witness:
  "fst (zgethdr (rx_example (sent (zshhdr ZRINIT [0, 0, 0, 35] (tx_example False))))) = ZRINIT"
  using zshhdr_zgethdr [of "rx_example (sent (zshhdr ZRINIT [0, 0, 0, 35] (tx_example False)))"
      "[0, 0, 0, 35]" ZRINIT "tx_example False" "[]"] by simp

subsection \<open>Data subpackets arrive as sent\<close>

definition subpacket_end :: "byte \<Rightarrow> bool" where
  "subpacket_end fe \<longleftrightarrow> fe \<in> {ZCRCE, ZCRCG, ZCRCQ, ZCRCW}"

lemma subpacket_end_value:
  assumes "subpacket_end fe"
  shows "zdl_value (uint fe) = uint fe + 256" "special (uint fe + 256)"
    "uint fe + 256 \<in> {GOTCRCE, GOTCRCG, GOTCRCQ, GOTCRCW}" "(uint fe + 256) AND 255 = uint fe"
  using assms by (auto simp: subpacket_end_def zdl_value_def special_def)

lemma zdlread_subpacket_end:
  assumes "0 < readline_readnum s" "pending s = ZDLE # fe # rest" "subpacket_end fe"
  shows "zdlread s = (uint fe + 256, rskip 2 s)"
proof -
  have "zdl_again2 (rskip 1 s) = (zdl_value (uint fe), rskip 1 (rskip 1 s))"
    using assms by (intro zdl_again2_special [where bs = rest]) (auto simp: frame_simps subpacket_end_def)
  with assms show ?thesis
    using zdlread_zdle [OF assms(1,2)] by (simp add: subpacket_end_value numeral_2_eq_2)
qed

text \<open>A good subpacket of at most as many bytes as the buffer holds.\<close>

lemma zrdata_loop_data:
  assumes "0 < readline_readnum s" "list_all2 (zdl_code (Zctlesc s)) data ws"
    and "list_all2 (zdl_code (Zctlesc s)) chk cs" "length chk = n" "subpacket_end fe"
    and "pending s = concat ws @ ZDLE # fe # concat cs @ rest" "length data \<le> k"
    and "fold (\<lambda>b. upd (uint b)) (data @ fe # chk) crc = good"
  shows "zrdata_loop upd n good (Suc k) crc buf s = (uint fe + 256, length (buf @ data), buf @ data,
    rskip (length (concat ws) + 2 + length (concat cs)) s)"
  using assms
proof (induction data arbitrary: ws s crc buf k)
  case Nil
  have "zdlread s = (uint fe + 256, rskip 2 s)"
    using Nil by (intro zdlread_subpacket_end [where rest = "concat cs @ rest"]) simp_all
  moreover have "rd_check zdlread special upd (length chk) (upd (uint fe) crc) (rskip 2 s)
      = Inr (fold (\<lambda>b. upd (uint b)) chk (upd (uint fe) crc), rskip (length (concat cs)) (rskip 2 s))"
    using Nil by (intro zdl.read_codes [where rest = rest]) (simp_all add: frame_simps)
  ultimately show ?case
    using Nil subpacket_end_value [OF Nil.prems(5)]
    by (simp add: crcfoo.simps [of upd n])
next
  case (Cons b data)
  then obtain w ws' where ws: "ws = w # ws'" "zdl_code (Zctlesc s) b w"
    "list_all2 (zdl_code (Zctlesc s)) data ws'"
    by (auto simp: list_all2_Cons1)
  obtain k' where k: "k = Suc k'" "length data \<le> k'" using Cons.prems(7) by (cases k) auto
  have "zdlread s = (uint b, rskip (length w) s)"
    using Cons.prems ws by (intro zdlread_code) simp_all
  moreover have "zrdata_loop upd n good (Suc k') (upd (uint b) crc) (buf @ [b]) (rskip (length w) s)
    = (uint fe + 256, length ((buf @ [b]) @ data), (buf @ [b]) @ data,
       rskip (length (concat ws') + 2 + length (concat cs)) (rskip (length w) s))"
    using Cons.prems ws k by (intro Cons.IH) (simp_all add: frame_simps)
  ultimately show ?case
    using ws(1) k by (simp add: add.assoc)
qed

lemma zsdata_loop_eq:
  assumes "0 < len" "unat len \<le> length buf"
  shows "zsdata_loop buf len crc s
    = Some (fold upd16 (take (unat len) buf) crc, fold zsendline (take (unat len) buf) s)"
  using assms
proof (induction buf arbitrary: len crc s)
  case Nil
  then show ?case by (auto simp: unat_eq_zero)
next
  case (Cons b buf)
  from Cons.prems(1) have len: "unat len = Suc (unat (len - 1))"
    using unat_minus_one [of len] by (simp add: word_neq_0_conv unat_gt_0)
  then show ?case
    using Cons by (cases "len - 1 = 0") (auto simp: Let_def upd_byte word_greater_zero_iff)
qed

lemma tab_ok_plain:
  assumes "escapes_for t s" "(c :: byte) AND 96 \<noteq> 0"
  shows "zsendline_tab t ! unat c = 0"
  using assms byte_less [of c]
  by (simp add: escapes_for_def zsendline_init_def zsendline_entry_def unat_and_96)

lemma zsda32_crc_eq:
  assumes "zsendline_tab s = zsendline_tab t" "escapes_for t r"
  shows "fold zsda32_crc cs s = fold zsendline cs s"
  using assms(1)
proof (induction cs arbitrary: s)
  case (Cons c cs)
  have "zsda32_crc c s = zsendline c s"
    using tab_ok_plain [OF assms(2), of c] Cons.prems
    by (auto simp: zsda32_crc_def zsendline_def zsend_by_entry_def)
  with Cons show ?case by simp
qed simp

definition zs_data :: "bool \<Rightarrow> byte list \<Rightarrow> u64 \<Rightarrow> byte \<Rightarrow> 'a zm_scheme \<Rightarrow> 'a zm_scheme option" where
  "zs_data fcs32 buf len fe s = (if fcs32 then zsda32 buf len fe s else zsdata buf len fe s)"

definition data_trailer :: "bool \<Rightarrow> byte list \<Rightarrow> byte list" where
  "data_trailer fcs32 bs =
     (if fcs32 then trailer32 (fold upd32 bs 0xFFFFFFFF) else trailer16 (fold upd16 bs 0))"

lemma zs_data_sent:
  assumes "escapes_for t r" "unat len \<le> length buf" "fcs32 \<or> 0 < len"
  defines "data \<equiv> take (unat len) buf"
  obtains t' cs where "zs_data fcs32 buf len fe t = Some t'"
    "sent t' = sent t @ concat (zencode (zsendline_tab t) (lastsent t) data) @ [ZDLE, fe]
       @ concat cs @ (if fe = ZCRCW then [XON] else [])"
    "list_all2 (zdl_code (Zctlesc r)) (data_trailer fcs32 (data @ [fe])) cs"
proof -
  define t1 where "t1 = xsendline fe (xsendline ZDLE (fold zsendline data t))"
  define t2 where "t2 = fold zsendline (data_trailer fcs32 (data @ [fe])) t1"
  define cs where "cs = zencode (zsendline_tab t) (lastsent t1) (data_trailer fcs32 (data @ [fe]))"
  note ok = escapes_for_tab_ok [OF assms(1)]
  have t1: "sent t1 = sent t @ concat (zencode (zsendline_tab t) (lastsent t) data) @ [ZDLE, fe]"
    "zsendline_tab t1 = zsendline_tab t"
    using ok by (simp_all add: t1_def wire_simps frame_simps) (simp add: fold_zsendline)
  then have t2: "sent t2 = sent t1 @ concat cs"
    using ok by (simp add: t2_def cs_def wire_simps)
  have eq: "zs_data fcs32 buf len fe t = Some (if fe = ZCRCW then flushmo (xsendline XON t2) else t2)"
  proof (cases fcs32)
    case True
    then have "t2 = fold zsda32_crc (trailer32 (upd32 fe (fold upd32 data 0xFFFFFFFF))) t1"
      using zsda32_crc_eq [OF t1(2) assms(1)] by (simp only: t2_def data_trailer_def fold_append_single if_True)
    then show ?thesis
      unfolding zs_data_def zsda32_def trailer32_def Let_def data_def [symmetric] zsendline_s_eq upd_byte
        t1_def [symmetric]
      using True assms(2) by (simp only: if_True linorder_not_less [symmetric] if_False)
  next
    case False
    with assms(2,3) zsdata_loop_eq [of len buf 0 t] show ?thesis
      by (simp add: zs_data_def zsdata_def data_def [symmetric] upd_byte t1_def
          t2_def data_trailer_def trailer16_def Let_def)
  qed
  show thesis
  proof (rule that [OF eq])
    show "list_all2 (zdl_code (Zctlesc r)) (data_trailer fcs32 (data @ [fe])) cs"
      unfolding cs_def by (rule zencode_codes [OF assms(1)])
  qed (simp add: wire_simps t1 t2)
qed

lemma zrdata_data:
  assumes "0 < readline_readnum s" "list_all2 (zdl_code (Zctlesc s)) data ws"
    and "list_all2 (zdl_code (Zctlesc s)) (data_trailer fcs32 (data @ [fe])) cs" "subpacket_end fe"
    and "pending s = concat ws @ ZDLE # fe # concat cs @ rest" "length data \<le> mx"
    and "Rxframeind s = ZBIN32 \<longleftrightarrow> fcs32"
  shows "zrdata mx s = (uint fe + 256, length data, data,
    rskip (length (concat ws) + 2 + length (concat cs)) s)"
proof -
  define chk where "chk = data_trailer fcs32 (data @ [fe])"
  have len: "length chk = (if fcs32 then 4 else 2)"
    by (simp add: chk_def data_trailer_def trailer16_def trailer32_def Let_def)
  note codes = assms(1,2) assms(3) [folded chk_def] len assms(4-6)
  show ?thesis
  proof (cases fcs32)
    case True
    then have "fold (\<lambda>b. upd32i (uint b)) (data @ fe # chk) 0xFFFFFFFF = 0xDEBB20E3"
      using crc32.fold_sent [of "data @ [fe]" "0xFFFFFFFF"]
      by (simp only: fold_upd_bytes chk_def data_trailer_def if_True append_assoc append_Cons append_Nil)
    with zrdata_loop_data [of s data ws chk cs 4 fe rest mx upd32i] codes True assms(7) show ?thesis
      by (simp add: zrdata_def zrdat32_def del: zrdata_loop.simps fold_simps fold_append)
  next
    case False
    then have "fold (\<lambda>b. upd16i (uint b)) (data @ fe # chk) 0 = 0"
      using crc16.fold_sent [of "data @ [fe]" 0]
      by (simp only: fold_upd_bytes chk_def data_trailer_def if_False append_assoc append_Cons append_Nil)
    with zrdata_loop_data [of s data ws chk cs 2 fe rest mx upd16i] codes False assms(7) show ?thesis
      by (simp add: zrdata_def del: zrdata_loop.simps fold_simps fold_append)
  qed
qed

lemma zs_data_received:
  assumes "escapes_for t s" "0 < readline_readnum s" "subpacket_end fe"
    and "unat len \<le> length buf" "unat len \<le> mx" "fcs32 \<or> 0 < len" "Rxframeind s = ZBIN32 \<longleftrightarrow> fcs32"
  shows "\<exists>t'. zs_data fcs32 buf len fe t = Some t'
    \<and> (\<forall>rest. sent t @ pending s = sent t' @ rest \<longrightarrow>
        (\<exists>n. zrdata mx s = (uint fe + GOTOR, unat len, take (unat len) buf, rskip n s)
           \<and> pending (rskip n s) = (if fe = ZCRCW then [XON] else []) @ rest))"
proof -
  define data where "data = take (unat len) buf"
  define ws where "ws = zencode (zsendline_tab t) (lastsent t) data"
  define xon :: "byte list" where "xon = (if fe = ZCRCW then [XON] else [])"
  obtain t' cs where t': "zs_data fcs32 buf len fe t = Some t'"
    "sent t' = sent t @ concat ws @ [ZDLE, fe] @ concat cs @ xon"
    "list_all2 (zdl_code (Zctlesc s)) (data_trailer fcs32 (data @ [fe])) cs"
    unfolding xon_def data_def ws_def using zs_data_sent [OF assms(1,4,6)] by metis
  have dlen: "length data = unat len" "length data \<le> mx" using assms by (simp_all add: data_def)
  have "\<exists>n. zrdata mx s = (uint fe + GOTOR, unat len, data, rskip n s) \<and> pending (rskip n s) = xon @ rest"
    if rest: "sent t @ pending s = sent t' @ rest" for rest
  proof (intro exI conjI)
    have pend: "pending s = concat ws @ ZDLE # fe # concat cs @ xon @ rest" using rest t' by simp
    show "zrdata mx s = (uint fe + GOTOR, unat len, data, rskip (length (concat ws) + 2 + length (concat cs)) s)"
      using zrdata_data [OF assms(2) zencode_codes [OF assms(1)] t'(3) assms(3) pend [unfolded ws_def]
          dlen(2) assms(7)] dlen by (simp add: ws_def)
    show "pending (rskip (length (concat ws) + 2 + length (concat cs)) s) = xon @ rest"
      using pend assms(2) by (simp add: frame_simps)
  qed
  with t'(1) show ?thesis unfolding data_def xon_def by blast
qed

text \<open>
  Claim C15: a data subpacket sent by \<^verbatim>\<open>zsdata\<close> (16-bit frame check) or \<^verbatim>\<open>zsda32\<close> (32-bit)
  for the first \<open>len\<close> bytes of the buffer arrives at \<^verbatim>\<open>zrdata\<close> byte for byte: the sender
  reads inside its buffer, the receiver returns the kind of the subpacket's end, the
  number of bytes and the bytes, and takes exactly the subpacket from the line, except for
  the XON after a ZCRCW. The receiver's buffer has at least \<open>len\<close> bytes and its last header
  announced the frame check; an empty subpacket goes through \<^verbatim>\<open>zsda32\<close> only.
\<close>

theorem zsdata_zrdata:
  assumes "escapes_for t s" "0 < readline_readnum s" "subpacket_end fe"
    and "unat len \<le> length buf" "unat len \<le> mx" "fcs32 \<or> 0 < len" "Rxframeind s = ZBIN32 \<longleftrightarrow> fcs32"
  shows "\<exists>t'. zs_data fcs32 buf len fe t = Some t'
    \<and> (\<forall>rest. sent t @ pending s = sent t' @ rest \<longrightarrow>
        (\<exists>n. zrdata mx s = (uint fe + GOTOR, unat len, take (unat len) buf, rskip n s)
           \<and> pending (rskip n s) = (if fe = ZCRCW then [XON] else []) @ rest))"
  using assms by (rule zs_data_received)

theorem zsdata_zrdata_witness:
  "\<exists>t' n. zs_data False [24, 64, 13, 255] 3 ZCRCG (tx_example False) = Some t'
     \<and> zrdata 8192 (rx_example (sent t')) = (GOTCRCG, 3, [24, 64, 13], rskip n (rx_example (sent t')))"
proof -
  have ex: "\<exists>t'. zs_data False [24, 64, 13, 255] 3 ZCRCG (tx_example False) = Some t'
    \<and> (\<forall>rest. sent (tx_example False) @ pending (rx_example bs) = sent t' @ rest \<longrightarrow>
        (\<exists>n. zrdata 8192 (rx_example bs) = (uint (ZCRCG :: byte) + GOTOR, unat (3 :: u64),
            take (unat (3 :: u64)) [24, 64, 13, 255], rskip n (rx_example bs))
           \<and> pending (rskip n (rx_example bs)) = (if (ZCRCG :: byte) = ZCRCW then [XON] else []) @ rest))" for bs
    by (rule zsdata_zrdata) (simp_all add: subpacket_end_def)
  obtain t' where t': "zs_data False [24, 64, 13, 255] 3 ZCRCG (tx_example False) = Some t'"
    using ex by blast
  with ex [of "sent t'"] show ?thesis by auto
qed

subsection \<open>What a sender keeps\<close>

text \<open>The settings of the sender on which the escapes and the frame format depend.\<close>

definition sender_cfg :: "'a zm_scheme \<Rightarrow> nat list \<times> int \<times> bool \<times> bool \<times> nat" where
  "sender_cfg t = (zsendline_tab t, Zctlesc t, turbo_escape t, Txfcs32 t, Znulls t)"

lemma sender_cfg_chars [simp]:
  "sender_cfg (xsendline c t) = sender_cfg t" "sender_cfg (flushmo t) = sender_cfg t"
  "sender_cfg (t\<lparr>Crc32t := b\<rparr>) = sender_cfg t" "sender_cfg (zsendline c t) = sender_cfg t"
  "sender_cfg (zsda32_crc c t) = sender_cfg t"
  by (auto simp: sender_cfg_def xsendline_def flushmo_def zsendline_def zsend_by_entry_def send_plain_def
      send_escaped_def zsda32_crc_def)

lemma sender_cfg_fold:
  "(\<And>c t. sender_cfg (f c t) = sender_cfg t) \<Longrightarrow> sender_cfg (fold f cs t) = sender_cfg t"
  by (induction cs arbitrary: t) simp_all

lemma sender_cfg_zsdata_loop: "zsdata_loop buf len crc t = Some (crc', t') \<Longrightarrow> sender_cfg t' = sender_cfg t"
  by (induction buf len crc t rule: zsdata_loop.induct) (auto simp: Let_def split: if_splits)

lemma sender_cfg_zs_data: "zs_data fcs32 buf len fe t = Some t' \<Longrightarrow> sender_cfg t' = sender_cfg t"
  by (auto simp: zs_data_def zsdata_def zsda32_def Let_def sender_cfg_fold zsendline_s_eq
      dest!: sender_cfg_zsdata_loop split: if_splits option.splits)

lemma sender_cfg_zsbhdr: "sender_cfg (zsbhdr type hdr t) = sender_cfg t"
proof -
  have nulls: "sender_cfg ((xsendline 0 ^^ n) t) = sender_cfg t" for n by (induction n) simp_all
  show ?thesis
    by (simp add: zsbhdr_def zsbh32_def Let_def fold_pair sender_cfg_fold nulls)
qed

lemma escapes_for_cfg: "sender_cfg t' = sender_cfg t \<Longrightarrow> escapes_for t' s = escapes_for t s"
  by (simp add: sender_cfg_def escapes_for_def zsendline_init_def)

lemma zs_data_extends:
  assumes "escapes_for t r" "zs_data fcs32 d (word_of_nat (length d)) fe t = Some t'"
    and "length d \<le> 8192" "fcs32 \<or> d \<noteq> []"
  shows "\<exists>e. sent t' = sent t @ e"
proof -
  have len: "unat (word_of_nat (length d) :: u64) = length d"
    using assms(3) by (simp add: unat_of_nat)
  have nz: "fcs32 \<or> 0 < (word_of_nat (length d) :: u64)"
    using assms(4) len by (auto simp: word_greater_zero_iff unat_eq_0 [symmetric])
  from zs_data_sent [OF assms(1) _ nz, of d fe] len assms(2) show ?thesis by auto
qed
subsection \<open>Bounds and edge cases\<close>

text \<open>The subpacket ends that \<^verbatim>\<open>crcfoo\<close> accepts are the only values it calls good.\<close>

definition got_end :: "int \<Rightarrow> bool" where
  "got_end c \<longleftrightarrow> c \<in> {GOTCRCE, GOTCRCG, GOTCRCQ, GOTCRCW}"

lemma crcfoo_good: "crcfoo upd n good c crc s = (r, ok, s') \<Longrightarrow> ok \<longleftrightarrow> got_end r"
proof (induction upd n good c crc s rule: crcfoo.induct)
  case (1 upd n good c crc s)
  note step = crcfoo.simps [of upd n good c crc s]
  show ?case
  proof (cases "c = 360 \<or> c = 361 \<or> c = 362 \<or> c = 363")
    case True
    show ?thesis
    proof (cases "rd_check zdlread special upd n (upd (c AND 255) crc) s")
      case (Inl x)
      obtain c' crc' s1 where x: "x = (c', crc', s1)" by (cases x)
      with 1(2) step True Inl have "crcfoo upd n good c' crc' s1 = (r, ok, s')" by simp
      then show ?thesis by (rule 1(1) [OF True Inl x [symmetric] refl])
    next
      case (Inr x)
      with 1(2) step True show ?thesis by (cases x) (auto simp: got_end_def split: if_splits)
    qed
  next
    case False
    with 1(2) step show ?thesis by (auto simp: got_end_def split: if_splits)
  qed
qed

lemma zrdata_loop_bounds:
  assumes "zrdata_loop upd n good k crc buf s = (r, m, buf', s')"
  shows "length buf' \<le> length buf + k" "m = (if got_end r then length buf' else 0)"
    "got_end r \<Longrightarrow> length buf' < length buf + k"
  using assms
proof (induction k arbitrary: crc buf s)
  case 0
  { case 1 then show ?case by simp
  next case 2 then show ?case by (auto simp: got_end_def)
  next case 3 then show ?case by (auto simp: got_end_def) }
next
  case (Suc k)
  { case 1 with Suc(1) show ?case by (fastforce split: prod.splits if_splits)
  next case 2 with Suc(2) show ?case
      by (fastforce split: prod.splits if_splits dest: crcfoo_good)
  next case 3 with Suc(3) show ?case by (fastforce split: prod.splits if_splits) }
qed

text \<open>
  Claim C21: \<^verbatim>\<open>zrdata\<close> with a buffer of \<open>len\<close> bytes never stores more than one byte beyond
  it, and only when it returns an error; with a good subpacket the bytes stored are the
  bytes reported and fit the buffer, and on every error it reports no bytes. This holds
  for any input.
\<close>

theorem zrdata_bounds:
  assumes "zrdata len s = (r, n, stored, s')"
  shows "length stored \<le> len + 1 \<and> (got_end r \<longrightarrow> length stored \<le> len)
    \<and> n = (if got_end r then length stored else 0)"
  using assms zrdata_loop_bounds [of upd32i 4 "0xDEBB20E3" "Suc len" "0xFFFFFFFF" "[]" s r n stored s']
    zrdata_loop_bounds [of upd16i 2 0 "Suc len" 0 "[]" s r n stored s']
  by (cases "Rxframeind s = ZBIN32")
    (auto simp: zrdata_def zrdat32_def simp del: zrdata_loop.simps)

theorem zrdata_bounds_witness:
  "zrdata 1 (rx_example [97, 98, 99]) = (MYERROR, 0, [97, 98], rskip 2 (rx_example [97, 98, 99]))
   \<and> length [97, 98 :: byte] \<le> 1 + (1 :: nat)"
proof -
  have "zrdata 1 (rx_example [97, 98, 99]) = (MYERROR, 0, [97, 98], rskip 2 (rx_example [97, 98, 99]))"
    by code_simp
  from zrdata_bounds [OF this] this show ?thesis by simp
qed

lemma rclhdr_hdr_of [simp]: "rclhdr (hdr_of l) = l"
proof (rule bit_word_eqI)
  fix n
  assume "n < LENGTH(32)"
  then consider "n < 8" | "8 \<le> n" "n < 16" | "16 \<le> n" "n < 24" | "24 \<le> n" "n < 32" by force
  then show "bit (rclhdr (hdr_of l)) n \<longleftrightarrow> bit l n"
    by cases (auto simp: rclhdr_def hdr_of_def bit_simps Let_def)
qed

text \<open>
  Claim C22: a file position written to a header by \<^verbatim>\<open>stohdr\<close> is the position
  \<^verbatim>\<open>zgethdr\<close> computes from the header and the \<^verbatim>\<open>long\<close> that \<^verbatim>\<open>rclhdr\<close> recalls, modulo
  \<open>2 ^ 32\<close>: positions from 4 GB on wrap around.
\<close>

theorem stohdr_position:
  "rx_position (Txhdr (stohdr pos s)) = pos mod 2 ^ 32
   \<and> rclhdr (Txhdr (stohdr pos s)) = word_of_nat pos"
proof
  show "rclhdr (Txhdr (stohdr pos s)) = word_of_nat pos" by (simp add: stohdr_def)
  have "rx_position (hdr_of l) = unat l" for l :: u32
  proof -
    have l: "unat l < 4294967296" using unsigned_less [of l] by simp
    have byte: "unat (ucast (drop_bit n l) :: byte) = unat l div 2 ^ n mod 256" for n
      by (simp only: unsigned_ucast_eq unsigned_drop_bit_eq)
        (simp add: take_bit_eq_mod drop_bit_eq_div l)
    from l have "((unat l div 2 ^ 24 mod 256 * 256 + unat l div 2 ^ 16 mod 256) * 256
      + unat l div 2 ^ 8 mod 256) * 256 + unat l div 2 ^ 0 mod 256 = unat l"
      using div_mult_mod_eq [of "unat l" 256] div_mult_mod_eq [of "unat l div 256" 256]
        div_mult_mod_eq [of "unat l div 65536" 256]
      by (simp add: div_mult2_eq [symmetric])
    then show ?thesis
      using byte [of 24] byte [of 16] byte [of 8] byte [of 0]
      by (simp add: rx_position_def hdr_of_def)
  qed
  then show "rx_position (Txhdr (stohdr pos s)) = pos mod 2 ^ 32"
    by (simp add: stohdr_def unsigned_of_nat take_bit_eq_mod)
qed

text \<open>
  Claim C23: \<^verbatim>\<open>zsdata\<close> called with length 0 reads past the end of every buffer of less
  than \<open>2 ^ 64\<close> bytes: its do-while loop decrements the \<^verbatim>\<open>size_t\<close> length before testing it.
  The 32-bit routine \<^verbatim>\<open>zsda32\<close> has no such case.
\<close>

theorem zsdata_empty:
  assumes "length buf < 2 ^ 64"
  shows "zsdata buf 0 fe s = None \<and> (\<exists>s'. zsda32 buf 0 fe s = Some s')"
proof -
  have "zsdata_loop buf len crc s = None" if "length buf \<le> unat (len - 1)" for len crc and s :: "'a zm_scheme"
    using that
  proof (induction buf arbitrary: len crc s)
    case (Cons b buf)
    then have "len - 1 \<noteq> 0" by (auto simp del: right_minus_eq)
    then have "unat (len - 1 - 1) = unat (len - 1) - 1" by (rule unat_minus_one)
    with Cons have "length buf \<le> unat (len - 1 - 1)" by simp
    from Cons.IH [OF this] \<open>len - 1 \<noteq> 0\<close> show ?case
      by (simp add: Let_def word_greater_zero_iff)
  qed simp
  moreover have "length buf \<le> unat (0 - 1 :: u64)"
    using assms by (simp add: unsigned_minus_1_eq_mask mask_eq_exp_minus_1)
  ultimately show ?thesis by (simp add: zsdata_def zsda32_def Let_def del: diff_0)
qed

theorem zsdata_empty_witness: "zsdata (replicate 8192 0) 0 ZCRCE (tx_example False) = None"
  using zsdata_empty [of "replicate 8192 0" ZCRCE "tx_example False"] by simp

end
