(* ===== verification/Lrz_File.thy ===== *)
theory Lrz_File
  imports Zm_Roundtrip "HOL-Library.Monad_Syntax"
begin

text \<open>
  The files of the receiver, \<^verbatim>\<open>lszrz/lrz.c\<close>: its state, the operations of the C library on
  files that it uses, the processing of the file information header (\<^verbatim>\<open>procheader\<close>,
  \<^verbatim>\<open>checkpath\<close>, \<^verbatim>\<open>make_dirs\<close>, \<^verbatim>\<open>do_crc_check\<close>), and \<^verbatim>\<open>putsec\<close> and \<^verbatim>\<open>closeit\<close>.

  A result \<open>None\<close> is a run without a defined result: a loop that does not end, or an access
  outside of an object.
\<close>

subsection \<open>State\<close>

type_synonym cstring = "byte list"

text \<open>\<^verbatim>\<open>struct zm_fileinfo\<close>; \<^verbatim>\<open>size_t\<close> has 64 bits.\<close>

record zm_fileinfo =
  fname :: cstring
  modtime :: int
  mode :: int
  bytes_total :: u64
  bytes_sent :: u64
  bytes_received :: u64
  bytes_skipped :: u64
  eof_seen :: bool

definition R_BYTESLEFT :: "zm_fileinfo \<Rightarrow> u64" where
  "R_BYTESLEFT zi = bytes_total zi - bytes_received zi"

record fs_file =
  content :: "byte list"
  st_mtime :: int
  st_mode :: int

text \<open>A stream: the path, the position, whether writes go to the end, whether it was closed.\<close>

record stream =
  path :: cstring
  pos :: nat
  at_end :: bool
  is_open :: bool

text \<open>An out-of-sync block, \<^verbatim>\<open>oosb_t\<close>.\<close>

record oosb_t =
  oosb_pos :: u64
  oosb_data :: "byte list"

text \<open>
  The globals of \<^verbatim>\<open>lrz.c\<close> and the single \<^verbatim>\<open>zm_fileinfo\<close> that its functions hand on. The
  last fields are the file system: the files, the directories, the paths the system lets
  the program create, whether writing and closing work, the next commands' exit values,
  and the stack contents that \<^verbatim>\<open>sscanf\<close> leaves when it converts nothing.
\<close>

record lrz = zm +
  Lastrx :: int
  Crcflg :: bool
  Firstsec :: bool
  Restricted :: int
  skip_if_not_found :: bool
  Pathname :: "cstring option"
  MakeLCPathname :: bool
  Nflag :: bool
  Rxclob :: bool
  Rxbinary :: bool
  Rxascii :: bool
  Thisbinary :: bool
  try_resume :: bool
  allow_remote_commands :: bool
  junk_path :: bool
  under_rsh :: bool
  secbuf :: "byte list"
  Lzmanag :: byte
  zconv :: byte
  zmanag :: byte
  ztrans :: byte
  tryzhdrtype :: int
  anker :: "oosb_t list"
  fout :: "stream option"
  zi :: zm_fileinfo
  files :: "cstring \<Rightarrow> fs_file option"
  dirs :: "cstring list"
  may_create :: "cstring \<Rightarrow> bool"
  write_ok :: bool
  close_ok :: bool
  sys_result :: "cstring \<Rightarrow> int"
  commands_run :: "cstring list"
  uninit :: "int \<times> int \<times> int"

definition zi_init :: zm_fileinfo where
  "zi_init = \<lparr>fname = [], modtime = 0, mode = 0, bytes_total = 0, bytes_sent = 0, bytes_received = 0,
     bytes_skipped = 0, eof_seen = False\<rparr>"

text \<open>The globals at the start of the program, with an empty file system that permits everything.\<close>

definition lrz_init :: lrz where
  "lrz_init = \<lparr>readline_buf = [], readline_readnum = 255, line_in = [], obuf = [], wire = [],
     Rxframeind = 0, Rxtype = 0, Rxhdr = [0, 0, 0, 0], Txhdr = [0, 0, 0, 0], Txfcs32 = False,
     Crc32t = False, Crc32 = 0, Znulls = 0, Attn = replicate 33 0, lastsent = 0, turbo_escape = False,
     Zctlesc = 0, zsendline_tab = replicate 256 0, Zrwindow = 1400, Baudrate = 2400,
     zmodem_requested = False, protocol = ZM_XMODEM, errors = 0,
     Lastrx = 0, Crcflg = False, Firstsec = False, Restricted = 1, skip_if_not_found = False,
     Pathname = None, MakeLCPathname = True, Nflag = False, Rxclob = False, Rxbinary = False,
     Rxascii = False, Thisbinary = False, try_resume = False, allow_remote_commands = False,
     junk_path = False, under_rsh = False, secbuf = replicate 8193 0, Lzmanag = 0, zconv = 0,
     zmanag = 0, ztrans = 0, tryzhdrtype = ZRINIT, anker = [], fout = None, zi = zi_init,
     files = Map.empty, dirs = [], may_create = (\<lambda>_. True), write_ok = True, close_ok = True,
     sys_result = (\<lambda>_. 0), commands_run = [], uninit = (0, 0, 0)\<rparr>"

abbreviation (input) MAX_BLOCK :: nat where "MAX_BLOCK \<equiv> 8192"
abbreviation (input) PATH_MAX :: nat where "PATH_MAX \<equiv> 254"
abbreviation (input) DEFBYTL :: "'a::numeral" where "DEFBYTL \<equiv> 2000000000"
abbreviation (input) UNIXFILE :: int where "UNIXFILE \<equiv> 0xF000"
abbreviation (input) S_IFREG :: int where "S_IFREG \<equiv> 0x8000"
abbreviation (input) ZCBIN :: byte where "ZCBIN \<equiv> 1"
abbreviation (input) ZCNL :: byte where "ZCNL \<equiv> 2"
abbreviation (input) ZCRESUM :: byte where "ZCRESUM \<equiv> 3"
abbreviation (input) ZF1_ZMSKNOLOC :: byte where "ZF1_ZMSKNOLOC \<equiv> 0x80"
abbreviation (input) ZF1_ZMMASK :: byte where "ZF1_ZMMASK \<equiv> 0x1f"
abbreviation (input) ZF1_ZMNEWL :: byte where "ZF1_ZMNEWL \<equiv> 1"
abbreviation (input) ZF1_ZMCRC :: byte where "ZF1_ZMCRC \<equiv> 2"
abbreviation (input) ZF1_ZMAPND :: byte where "ZF1_ZMAPND \<equiv> 3"
abbreviation (input) ZF1_ZMCLOB :: byte where "ZF1_ZMCLOB \<equiv> 4"
abbreviation (input) ZF1_ZMNEW :: byte where "ZF1_ZMNEW \<equiv> 5"
abbreviation (input) ZF1_ZMCHNG :: byte where "ZF1_ZMCHNG \<equiv> 8"
abbreviation (input) ZCACK1 :: byte where "ZCACK1 \<equiv> 1"
abbreviation (input) ZCRC_DIFFERS :: int where "ZCRC_DIFFERS \<equiv> 0"
abbreviation (input) ZCRC_EQUAL :: int where "ZCRC_EQUAL \<equiv> 1"
abbreviation (input) slash :: byte where "slash \<equiv> 47"
abbreviation (input) dot :: byte where "dot \<equiv> 46"

subsection \<open>The C library on strings and files\<close>

text \<open>A C string in a buffer, with the bytes after its terminator.\<close>

definition c_str :: "byte list \<Rightarrow> cstring" where
  "c_str buf = takeWhile (\<lambda>b. b \<noteq> 0) buf"

definition after_nul :: "byte list \<Rightarrow> byte list" where
  "after_nul buf = drop (Suc (length (c_str buf))) buf"

lemma c_str_append: "0 \<notin> set xs \<Longrightarrow> c_str (xs @ 0 # ys) = xs"
  unfolding c_str_def by (induction xs) auto

lemma after_nul_append: "0 \<notin> set xs \<Longrightarrow> after_nul (xs @ 0 # ys) = ys"
  by (simp add: after_nul_def c_str_append)

definition strstr :: "cstring \<Rightarrow> cstring \<Rightarrow> bool" where
  "strstr hay needle \<longleftrightarrow> (\<exists>i \<in> set [0..<Suc (length hay)]. take (length needle) (drop i hay) = needle)"

text \<open>The part of a path after its last slash, with the slash itself told apart.\<close>

definition after_slash :: "cstring \<Rightarrow> cstring" where
  "after_slash p = rev (takeWhile (\<lambda>b. b \<noteq> slash) (rev p))"

definition dir_of :: "cstring \<Rightarrow> cstring option" where
  "dir_of p = (if slash \<in> set p then Some (take (length p - length (after_slash p) - 1) p) else None)"

definition parent_ok :: "'a lrz_scheme \<Rightarrow> cstring \<Rightarrow> bool" where
  "parent_ok s p \<longleftrightarrow> (case dir_of p of None \<Rightarrow> True | Some d \<Rightarrow> d = [] \<or> d \<in> set (dirs s))"

datatype openmode = RB | WB | AB | RPB

definition empty_file :: fs_file where
  "empty_file = \<lparr>content = [], st_mtime = 0, st_mode = 0\<rparr>"

definition fopen :: "cstring \<Rightarrow> openmode \<Rightarrow> 'a lrz_scheme \<Rightarrow> stream option \<times> 'a lrz_scheme" where
  "fopen name m s =
     (case m of
        RB \<Rightarrow> (if files s name = None then None else Some \<lparr>path = name, pos = 0, at_end = False, is_open = True\<rparr>, s)
      | RPB \<Rightarrow> (if files s name = None \<or> \<not> may_create s name then None
                else Some \<lparr>path = name, pos = 0, at_end = False, is_open = True\<rparr>, s)
      | WB \<Rightarrow>
          if may_create s name \<and> parent_ok s name then
            (Some \<lparr>path = name, pos = 0, at_end = False, is_open = True\<rparr>,
             s\<lparr>files := (files s)(name \<mapsto> (case files s name of None \<Rightarrow> empty_file | Some f \<Rightarrow> f\<lparr>content := []\<rparr>))\<rparr>)
          else (None, s)
      | AB \<Rightarrow>
          if may_create s name \<and> parent_ok s name then
            (Some \<lparr>path = name, pos = 0, at_end = True, is_open = True\<rparr>,
             s\<lparr>files := (files s)(name \<mapsto> (case files s name of None \<Rightarrow> empty_file | Some f \<Rightarrow> f))\<rparr>)
          else (None, s))"

text \<open>Bytes written at a position replace what is there; a gap reads as zeros.\<close>

definition write_at :: "nat \<Rightarrow> byte list \<Rightarrow> byte list \<Rightarrow> byte list" where
  "write_at n bs old =
     take n old @ replicate (n - length old) 0 @ bs @ drop (n + length bs) old"

text \<open>\<^verbatim>\<open>fwrite\<close> and \<^verbatim>\<open>putc\<close> on \<^verbatim>\<open>fout\<close>; a removed file takes the bytes without effect.\<close>

definition fput :: "byte list \<Rightarrow> 'a lrz_scheme \<Rightarrow> 'a lrz_scheme" where
  "fput bs s =
     (case fout s of
        None \<Rightarrow> s
      | Some f \<Rightarrow>
          (case files s (path f) of
             None \<Rightarrow> s
           | Some x \<Rightarrow>
               let n = (if at_end f then length (content x) else pos f)
               in s\<lparr>files := (files s)(path f \<mapsto> x\<lparr>content := write_at n bs (content x)\<rparr>),
                    fout := Some (f\<lparr>pos := n + length bs\<rparr>)\<rparr>))"

definition unlink :: "cstring \<Rightarrow> 'a lrz_scheme \<Rightarrow> 'a lrz_scheme" where
  "unlink name s = s\<lparr>files := (files s)(name := None)\<rparr>"

text \<open>\<^verbatim>\<open>fclose(fout)\<close>; the pointer stays, and closing it again has no defined result.\<close>

definition fclose :: "'a lrz_scheme \<Rightarrow> 'a lrz_scheme option" where
  "fclose s =
     (case fout s of
        None \<Rightarrow> None
      | Some f \<Rightarrow> if is_open f then Some (s\<lparr>fout := Some (f\<lparr>is_open := False\<rparr>)\<rparr>) else None)"

definition mkdir :: "cstring \<Rightarrow> 'a lrz_scheme \<Rightarrow> bool \<times> 'a lrz_scheme" where
  "mkdir p s =
     (if may_create s p \<and> parent_ok s p \<and> p \<notin> set (dirs s) \<and> files s p = None
      then (True, s\<lparr>dirs := p # dirs s\<rparr>) else (False, s))"

definition is_space :: "byte \<Rightarrow> bool" where
  "is_space b \<longleftrightarrow> b = 32 \<or> 9 \<le> b \<and> b \<le> 13"

definition is_digit :: "nat \<Rightarrow> byte \<Rightarrow> bool" where
  "is_digit base b \<longleftrightarrow> 48 \<le> b \<and> unat b < 48 + base"

definition digits_value :: "nat \<Rightarrow> byte list \<Rightarrow> nat" where
  "digits_value base ds = foldl (\<lambda>n d. n * base + (unat d - 48)) 0 ds"

text \<open>One conversion of \<^verbatim>\<open>sscanf\<close>: the number and the rest of the string.\<close>

definition scan_num :: "nat \<Rightarrow> cstring \<Rightarrow> (int \<times> cstring) option" where
  "scan_num base bs =
     (let bs = dropWhile is_space bs;
          neg = (bs \<noteq> [] \<and> hd bs = 45);
          bs = (if bs \<noteq> [] \<and> (hd bs = 43 \<or> hd bs = 45) then tl bs else bs);
          ds = takeWhile (is_digit base) bs;
          v = int (digits_value base ds)
      in if ds = [] then None else Some (if neg then - v else v, dropWhile (is_digit base) bs))"

definition long_of :: "int \<Rightarrow> int" where
  "long_of n = sint (word_of_int n :: u32)"

text \<open>\<^verbatim>\<open>sscanf(nameend, "%ld%lo%o", ...)\<close> over the three uninitialised variables.\<close>

definition scan_info :: "cstring \<Rightarrow> int \<times> int \<times> int \<Rightarrow> int \<times> int \<times> int" where
  "scan_info bs junk =
     (case junk of (tot0, modtime0, mode0) \<Rightarrow>
        (case scan_num 10 bs of
           None \<Rightarrow> junk
         | Some (tot, bs) \<Rightarrow>
             (case scan_num 8 bs of
                None \<Rightarrow> (long_of tot, modtime0, mode0)
              | Some (mt, bs) \<Rightarrow>
                  (case scan_num 8 bs of
                     None \<Rightarrow> (long_of tot, long_of mt, mode0)
                   | Some (md, bs) \<Rightarrow> (long_of tot, long_of mt, long_of md)))))"

subsection \<open>Writing and closing (putsec, closeit)\<close>

definition fputc :: "byte \<Rightarrow> 'a lrz_scheme \<Rightarrow> 'a lrz_scheme" where
  "fputc c s = (if write_ok s then fput [c] s else s)"

fun putsec_ascii :: "byte list \<Rightarrow> 'a lrz_scheme \<Rightarrow> 'a lrz_scheme" where
  "putsec_ascii [] s = s"
| "putsec_ascii (p # ps) s =
     (if p = 13 then putsec_ascii ps s
      else if p = CPMEOF then s\<lparr>zi := (zi s)\<lparr>eof_seen := True\<rparr>\<rparr>
      else putsec_ascii ps (fputc p s))"

definition putsec :: "byte list \<Rightarrow> nat \<Rightarrow> 'a lrz_scheme \<Rightarrow> int \<times> 'a lrz_scheme" where
  "putsec buf n s =
     (if n = 0 then (OK, s)
      else if Thisbinary s then (if write_ok s then (OK, fput (take n buf) s) else (MYERROR, s))
      else if eof_seen (zi s) then (OK, s)
      else (OK, putsec_ascii (take n buf) s))"

definition set_attrs :: "cstring \<Rightarrow> (fs_file \<Rightarrow> fs_file) \<Rightarrow> 'a lrz_scheme \<Rightarrow> 'a lrz_scheme" where
  "set_attrs p f s = s\<lparr>files := (files s)(p := map_option f (files s p))\<rparr>"

text \<open>\<^verbatim>\<open>closeit\<close>; a null \<^verbatim>\<open>Pathname\<close> is never passed, it is set before a file is opened.\<close>

definition closeit :: "'a lrz_scheme \<Rightarrow> (int \<times> 'a lrz_scheme) option" where
  "closeit s =
     (case fclose s of
        None \<Rightarrow> None
      | Some s \<Rightarrow>
          let p = (case Pathname s of None \<Rightarrow> [] | Some p \<Rightarrow> p)
          in if \<not> close_ok s then Some (MYERROR, unlink p s)
             else
               let s = (if modtime (zi s) \<noteq> 0 then set_attrs p (\<lambda>f. f\<lparr>st_mtime := modtime (zi s)\<rparr>) s else s);
                   s = (if mode (zi s) AND 0xF000 = S_IFREG
                        then set_attrs p (\<lambda>f. f\<lparr>st_mode := (if under_rsh s then 438 else 4095) AND mode (zi s)\<rparr>) s
                        else s)
               in Some (OK, s))"

subsection \<open>Names (uncaps, IsAnyLower, checkpath, make_dirs)\<close>

definition is_upper :: "byte \<Rightarrow> bool" where
  "is_upper b \<longleftrightarrow> 65 \<le> b \<and> b \<le> 90"

definition uncaps :: "cstring \<Rightarrow> cstring" where
  "uncaps p = map (\<lambda>b. if is_upper b then b + 32 else b) p"

definition IsAnyLower :: "cstring \<Rightarrow> bool" where
  "IsAnyLower p \<longleftrightarrow> (\<exists>b \<in> set p. 97 \<le> b \<and> b \<le> 122)"

text \<open>
  \<^verbatim>\<open>checkpath\<close> cancels the transfer and logs, but it does not tell its caller; \<^verbatim>\<open>PUBDIR\<close> is
  not defined.
\<close>

definition checkpath :: "cstring \<Rightarrow> 'a lrz_scheme \<Rightarrow> 'a lrz_scheme" where
  "checkpath name s =
     (if Restricted s = 0 then s
      else
        let hidden = (name \<noteq> [] \<and> hd name = dot);
            s = (if (Restricted s = 2 \<or> hidden) \<and> fst (fopen name RB s) \<noteq> None then canit s else s);
            s = (if strstr name [dot, dot, slash] then canit s else s)
        in if Restricted s > 1 \<and> (hidden \<or> strstr name [slash, dot]) then canit s else s)"

fun make_dirs_loop :: "cstring \<Rightarrow> nat list \<Rightarrow> int \<Rightarrow> 'a lrz_scheme \<Rightarrow> int \<times> 'a lrz_scheme" where
  "make_dirs_loop p [] madeone s = (madeone, s)"
| "make_dirs_loop p (i # is) madeone s =
     (if i = 0 \<or> p ! (i - 1) = slash then make_dirs_loop p is madeone s
      else if p ! (i - 1) = dot \<and> (i = 1 \<or> p ! (i - 2) = slash) then make_dirs_loop p is madeone s
      else (case mkdir (take i p) s of
        (True, s') \<Rightarrow> make_dirs_loop p is (madeone + 1) s'
      | (False, s') \<Rightarrow>
          if take i p \<in> set (dirs s) \<or> files s (take i p) \<noteq> None
          then make_dirs_loop p is madeone s' else (madeone, s')))"

definition make_dirs :: "bool \<Rightarrow> cstring \<Rightarrow> 'a lrz_scheme \<Rightarrow> int \<times> 'a lrz_scheme" where
  "make_dirs enoent p s =
     (if \<not> enoent then (0, s)
      else make_dirs_loop p (filter (\<lambda>i. p ! i = slash) [0..<length p]) 0 s)"

subsection \<open>Comparing checksums (do\_crc\_check)\<close>

text \<open>The inner loop; neither it nor the outer one changes its counter.\<close>

partial_function (option) crc_wait :: "u32 \<Rightarrow> int \<Rightarrow> 'a lrz_scheme \<Rightarrow> (int option \<times> 'a lrz_scheme) option" where
  "crc_wait crc t2 s =
     (if t2 < 3 then
        (case zgethdr s of (c, rx, s') \<Rightarrow>
           if c = ZFIN \<or> c = ZRINIT \<or> c = ZCAN then Some (Some MYERROR, s')
           else if c = ZCRC then
             Some (Some (if rx \<noteq> Some (unat crc) then ZCRC_DIFFERS else ZCRC_EQUAL), s')
           else crc_wait crc t2 s')
      else Some (None, s))"

partial_function (option) crc_send :: "u32 \<Rightarrow> nat \<Rightarrow> int \<Rightarrow> int \<Rightarrow> 'a lrz_scheme \<Rightarrow> (int \<times> 'a lrz_scheme) option" where
  "crc_send crc check_bytes t1 t2 s =
     (if t1 < 3 then
        (let s1 = stohdr check_bytes s; s2 = zshhdr ZCRC (Txhdr s1) s1
         in Option.bind (crc_wait crc t2 s2) (\<lambda>(r, s3).
              case r of Some r \<Rightarrow> Some (r, s3) | None \<Rightarrow> crc_send crc check_bytes t1 t2 s3))
      else Some (MYERROR, s))"

definition do_crc_check :: "byte list \<Rightarrow> u64 \<Rightarrow> nat \<Rightarrow> 'a lrz_scheme \<Rightarrow> (int \<times> 'a lrz_scheme) option" where
  "do_crc_check data remote_bytes check_bytes s =
     (if check_bytes = 0 \<and> word_of_nat (length data) \<noteq> remote_bytes then Some (ZCRC_DIFFERS, s)
      else
        let n = (if check_bytes = 0 then length data else check_bytes);
            crc = NOT (fold (\<lambda>c. UPDC32 (ucast c)) (take n data) 0xFFFFFFFF)
        in crc_send crc check_bytes 0 0 s)"

subsection \<open>The file information header (procheader)\<close>

text \<open>The overrides from the flags of the ZFILE header.\<close>

definition ph_flags :: "'a lrz_scheme \<Rightarrow> openmode \<times> 'a lrz_scheme" where
  "ph_flags s =
     (let s = s\<lparr>Thisbinary := \<not> Rxascii s \<or> Rxbinary s\<rparr>;
          s = (if Lzmanag s \<noteq> 0 then s\<lparr>zmanag := Lzmanag s\<rparr> else s);
          s = (if \<not> Rxbinary s \<and> zconv s = ZCNL then s\<lparr>Thisbinary := False\<rparr> else s);
          s = (if zconv s = ZCBIN then s\<lparr>Thisbinary := True\<rparr> else s);
          s = (if Thisbinary s \<and> zconv s = ZCBIN \<and> try_resume s then s\<lparr>zconv := ZCRESUM\<rparr> else s);
          m = (if zmanag s = ZF1_ZMAPND \<and> zconv s \<noteq> ZCRESUM then AB else WB);
          m = (if skip_if_not_found s then RPB else m)
      in (m, s))"

definition ph_info :: "byte list \<Rightarrow> 'a lrz_scheme \<Rightarrow> 'a lrz_scheme" where
  "ph_info nameend s =
     (let z = (zi s)\<lparr>bytes_total := DEFBYTL, mode := 0, eof_seen := False, modtime := 0\<rparr>
      in if c_str nameend = [] then s\<lparr>zi := z\<rparr>
         else
           (case scan_info (c_str nameend) (uninit s) of (tot, mt, md) \<Rightarrow>
              s\<lparr>zi := z\<lparr>modtime := mt, bytes_total := word_of_int tot, mode := md\<rparr>,
                Thisbinary := Thisbinary s \<or> md AND UNIXFILE \<noteq> 0\<rparr>))"

text \<open>The decimal digits \<^verbatim>\<open>sprintf\<close> writes for a number below 1000.\<close>

definition dec3 :: "nat \<Rightarrow> cstring" where
  "dec3 n = (let d = (\<lambda>k. 48 + word_of_nat k)
     in if n < 10 then [d n]
        else if n < 100 then [d (n div 10), d (n mod 10)]
        else [d (n div 100), d (n div 10 mod 10), d (n mod 10)])"

text \<open>The loop that looks for a free name; \<open>i\<close> is counted before the test.\<close>

fun ph_rename :: "cstring \<Rightarrow> nat list \<Rightarrow> 'a lrz_scheme \<Rightarrow> cstring option" where
  "ph_rename name [] s = None"
| "ph_rename name (i # is) s =
     (let tmp = name @ [dot] @ dec3 i
      in if Suc i < 1000 \<and> (files s tmp \<noteq> None \<or> tmp \<in> set (dirs s)) then ph_rename name is s
         else if Suc i = 1000 then None else Some tmp)"

text \<open>
  The check for an existing file. The left result is a return value; the right result is
  the name under which to go on.
\<close>

definition ph_exists :: "cstring \<Rightarrow> 'a lrz_scheme \<Rightarrow> ((int + cstring) \<times> 'a lrz_scheme) option" where
  "ph_exists name s =
     (if zconv s = ZCRESUM \<or> Rxclob s \<or> zmanag s AND ZF1_ZMMASK = ZF1_ZMCLOB
          \<or> zmanag s AND ZF1_ZMMASK = ZF1_ZMAPND then Some (Inr name, s)
      else
        (case fopen name RB s of (f, s) \<Rightarrow>
          let s = s\<lparr>fout := f\<rparr> in
          case files s name of
            None \<Rightarrow> Some (Inr name, s)
          | Some x \<Rightarrow>
              if zmanag s = ZF1_ZMNEW \<or> zmanag s = ZF1_ZMNEWL then
                (if zmanag s = ZF1_ZMNEW \<and> st_mtime x > modtime (zi s) then Some (Inl MYERROR, s)
                 else if zmanag s = ZF1_ZMNEWL \<and> word_of_nat (length (content x)) \<ge> bytes_total (zi s)
                     \<and> st_mtime x > modtime (zi s) then Some (Inl MYERROR, s)
                 else map_option (\<lambda>s. (Inr name, s)) (fclose s))
              else if zmanag s = ZF1_ZMCRC then
                Option.bind (do_crc_check (content x) (bytes_total (zi s)) 0 s) (\<lambda>(r, s).
                  if r = MYERROR then map_option (\<lambda>s. (Inl MYERROR, s)) (fclose s)
                  else if r \<noteq> ZCRC_DIFFERS then Some (Inl MYERROR, s)
                  else map_option (\<lambda>s. (Inr name, s)) (fclose s))
              else
                Option.bind (fclose s) (\<lambda>s.
                  if zmanag s AND ZF1_ZMMASK \<noteq> ZF1_ZMCHNG then Some (Inl MYERROR, s)
                  else (case ph_rename name [0..<1000] s of
                      None \<Rightarrow> Some (Inl MYERROR, s)
                    | Some tmp \<Rightarrow> Some (Inr tmp, s\<lparr>zi := (zi s)\<lparr>fname := tmp\<rparr>\<rparr>)))))"

text \<open>Names from CP/M: slashes become underscores, a trailing period goes.\<close>

definition ph_cpm :: "cstring \<Rightarrow> cstring option" where
  "ph_cpm name =
     (let p = map (\<lambda>b. if b = slash then 95 else b) name
      in if p = [] then None else Some (if last p = dot then butlast p else p))"

text \<open>
  Opening the file. The left result is a return value; the right results are the states at
  the label \<open>buffer_it\<close>.
\<close>

definition ph_resume :: "cstring \<Rightarrow> 'a lrz_scheme \<Rightarrow> ((int option) \<times> 'a lrz_scheme) option" where
  "ph_resume name s =
     (case files s name of
        None \<Rightarrow> Some (Some ZFERR, s)
      | Some x \<Rightarrow>
          Option.bind (if zmanag s = ZF1_ZMCRC
              then do_crc_check (content x) (bytes_total (zi s)) (length (content x)) s
              else Some (ZCRC_EQUAL, s)) (\<lambda>(r, s).
            if r = MYERROR then map_option (\<lambda>s. (Some ZFERR, s)) (fclose s)
            else
              let can_resume = (r \<noteq> ZCRC_DIFFERS \<and> \<not> word_of_nat (length (content x)) > bytes_total (zi s));
                  skipped = (if can_resume then length (content x) - length (content x) mod 1024 else 0)
              in Some (None, s\<lparr>zi := (zi s)\<lparr>bytes_skipped := word_of_nat skipped\<rparr>,
                   fout := map_option (\<lambda>f. f\<lparr>pos := skipped\<rparr>) (fout s)\<rparr>)))"

definition ph_open :: "openmode \<Rightarrow> cstring \<Rightarrow> 'a lrz_scheme \<Rightarrow> ((int option) \<times> 'a lrz_scheme) option" where
  "ph_open m name s =
     Option.bind
       (if Thisbinary s \<and> zconv s = ZCRESUM then
          (case fopen name RPB s of
             (Some f, s) \<Rightarrow> map_option Inl (ph_resume name (s\<lparr>fout := Some f\<rparr>))
           | (None, s) \<Rightarrow> Some (Inr (s\<lparr>fout := None, zi := (zi s)\<lparr>bytes_skipped := 0\<rparr>\<rparr>)))
        else Some (Inr s))
       (\<lambda>r. case r of
          Inl r \<Rightarrow> Some r
        | Inr s \<Rightarrow>
            (case fopen name m s of
               (Some f, s) \<Rightarrow> Some (None, s\<lparr>fout := Some f\<rparr>)
             | (None, s) \<Rightarrow>
                 if Restricted s < 2 then
                   (case make_dirs (\<not> parent_ok s name \<or> m = RPB \<and> files s name = None) name s of (made, s) \<Rightarrow>
                      if made \<noteq> 0 then
                        (case fopen name m s of
                           (Some f, s) \<Rightarrow> Some (None, s\<lparr>fout := Some f\<rparr>)
                         | (None, s) \<Rightarrow> Some (Some MYERROR, s\<lparr>fout := None\<rparr>))
                      else Some (Some MYERROR, s\<lparr>fout := None\<rparr>))
                 else Some (Some MYERROR, s\<lparr>fout := None\<rparr>)))"

definition ph_name :: "byte list \<Rightarrow> cstring \<Rightarrow> 'a lrz_scheme \<Rightarrow> cstring option" where
  "ph_name nameend name s =
     map_option (\<lambda>n.
         if \<not> zmodem_requested s \<and> MakeLCPathname s \<and> \<not> IsAnyLower n \<and> mode (zi s) AND UNIXFILE = 0
         then uncaps n else n)
       (if c_str nameend = [] then ph_cpm name else Some name)"

definition dev_null :: cstring where
  "dev_null = [47, 100, 101, 118, 47, 110, 117, 108, 108]"

text \<open>
  \<^verbatim>\<open>procheader\<close> on a buffer. The copy to \<^verbatim>\<open>Pathname\<close> has room for \<^verbatim>\<open>2 * PATH_MAX\<close> bytes.
\<close>

definition procheader :: "byte list \<Rightarrow> 'a lrz_scheme \<Rightarrow> (int \<times> 'a lrz_scheme) option" where
  "procheader buf s =
     (let name = c_str buf; nameend = after_nul buf
      in if 0 \<notin> set nameend then None
         else if junk_path s \<and> slash \<in> set name \<and> after_slash name = [] then Some (MYERROR, s)
         else
           let name = (if junk_path s then after_slash name else name);
               s = s\<lparr>zi := (zi s)\<lparr>fname := name\<rparr>\<rparr>;
               (m, s) = ph_flags s;
               s = ph_info nameend s
           in Option.bind (ph_exists name s) (\<lambda>(r, s).
                case r of
                  Inl r \<Rightarrow> Some (r, s)
                | Inr name \<Rightarrow>
                    Option.bind (ph_name nameend name s) (\<lambda>name.
                      let s = s\<lparr>zi := (zi s)\<lparr>fname := name\<rparr>\<rparr> in
                      if protocol s = ZM_XMODEM then Some (OK, s)
                      else if length name + 1 > 2 * PATH_MAX then None
                      else
                        let s = checkpath name (s\<lparr>Pathname := Some name\<rparr>);
                            name = (if Nflag s then dev_null else name)
                        in Option.bind (ph_open m name s) (\<lambda>(r, s).
                             case r of
                               Some r \<Rightarrow> Some (r, s)
                             | None \<Rightarrow> Some (OK, s\<lparr>zi := (zi s)\<lparr>bytes_received := bytes_skipped (zi s)\<rparr>\<rparr>)))))"

end
