(* ===== verification/Lrz_Xmodem.thy ===== *)
theory Lrz_Xmodem
  imports Lrz_File
begin

text \<open>
  The XMODEM and YMODEM side of the receiver, \<^verbatim>\<open>lszrz/lrz.c\<close>: \<^verbatim>\<open>wcgetsec\<close>, \<^verbatim>\<open>wcrxpn\<close> and
  \<^verbatim>\<open>wcrx\<close>. Every loop ends because each round takes a byte from the line, or is counted.
\<close>

subsection \<open>One sector (wcgetsec)\<close>

text \<open>
  The data bytes of a sector go to \<^verbatim>\<open>rxbuf\<close>, which is \<^verbatim>\<open>secbuf\<close> for both callers; a
  timeout among them is the jump to \<open>bilge\<close>.
\<close>

fun wc_data :: "nat \<Rightarrow> nat \<Rightarrow> u16 \<Rightarrow> int \<Rightarrow> 'a lrz_scheme \<Rightarrow> (u16 \<times> int) option \<times> 'a lrz_scheme" where
  "wc_data 0 i oldcrc checksum s = (Some (oldcrc, checksum), s)"
| "wc_data (Suc wcj) i oldcrc checksum s =
     (case READLINE_PF s of (c, s) \<Rightarrow>
        if c < 0 then (None, s)
        else wc_data wcj (Suc i) (updcrc (word_of_int c) oldcrc)
          (checksum + sint (word_of_int c :: byte))
          (s\<lparr>secbuf := (secbuf s)[i := word_of_int c]\<rparr>))"

text \<open>The check after the data: a CRC or a checksum.\<close>

definition wc_check :: "u16 \<Rightarrow> int \<Rightarrow> 'a lrz_scheme \<Rightarrow> bool \<times> 'a lrz_scheme" where
  "wc_check oldcrc checksum s =
     (case READLINE_PF s of (c, s) \<Rightarrow>
        if c < 0 then (False, s)
        else if Crcflg s then
          (case READLINE_PF s of (d, s) \<Rightarrow>
             if d < 0 then (False, s)
             else (updcrc (word_of_int d) (updcrc (word_of_int c) oldcrc) = 0, s))
        else ((checksum - c) AND 255 = 0, s))"

text \<open>From the label \<open>get2\<close>: the sector number when the sector is good.\<close>

definition wc_get2 :: "nat \<Rightarrow> 'a lrz_scheme \<Rightarrow> int option \<times> 'a lrz_scheme" where
  "wc_get2 blklen s =
     (case READLINE_PF s of (sectcurr, s) \<Rightarrow>
      case READLINE_PF s of (d, s) \<Rightarrow>
        if sectcurr + uint (word_of_int d :: u16) \<noteq> 255 then (None, s)
        else (case wc_data blklen 0 0 0 s of
          (None, s) \<Rightarrow> (None, s)
        | (Some (oldcrc, checksum), s) \<Rightarrow>
            (case wc_check oldcrc checksum s of (ok, s) \<Rightarrow>
               if ok then (Some sectcurr, s\<lparr>Firstsec := False\<rparr>) else (None, s))))"

fun wc_drain :: "nat \<Rightarrow> 'a lrz_scheme \<Rightarrow> 'a lrz_scheme" where
  "wc_drain 0 s = s"
| "wc_drain (Suc cnt) s =
     (case READLINE_PF s of (c, s) \<Rightarrow> if c \<noteq> TIMEOUT then wc_drain cnt s else s)"

definition wc_humbug :: "'a lrz_scheme \<Rightarrow> 'a lrz_scheme" where
  "wc_humbug s =
     (let s = wc_drain 1000 (s\<lparr>Lastrx := 0\<rparr>)
      in purgeline (flushmo (sendline (if Firstsec s \<and> Crcflg s then WANTCRC else NAK) s)))"

text \<open>One round of the loop: what \<^verbatim>\<open>wcgetsec\<close> returns, if it does, and \<^verbatim>\<open>*Blklen\<close>.\<close>

definition wc_round :: "nat \<Rightarrow> 'a lrz_scheme \<Rightarrow> int option \<times> nat \<times> 'a lrz_scheme" where
  "wc_round blklen s =
     (case READLINE_PF s of (firstch, s) \<Rightarrow>
        if firstch = STX \<or> firstch = SOH then
          (let blklen = (if firstch = STX then 1024 else 128) in
           case wc_get2 blklen s of
             (Some sectcurr, s) \<Rightarrow> (Some sectcurr, blklen, s)
           | (None, s) \<Rightarrow> (None, blklen, wc_humbug s))
        else if firstch = EOT then
          (case READLINE_PF s of (c, s) \<Rightarrow>
             if c = TIMEOUT then (Some WCEOT, blklen, s) else (None, blklen, wc_humbug s))
        else if firstch = CAN then
          (if Lastrx s = CAN then (Some MYERROR, blklen, s) else (None, blklen, s\<lparr>Lastrx := CAN\<rparr>))
        else (None, blklen, wc_humbug s))"

fun wc_rounds :: "nat \<Rightarrow> nat \<Rightarrow> 'a lrz_scheme \<Rightarrow> int \<times> nat \<times> 'a lrz_scheme" where
  "wc_rounds 0 blklen s = (MYERROR, blklen, canit s)"
| "wc_rounds (Suc n) blklen s =
     (case wc_round blklen s of
        (Some r, blklen, s) \<Rightarrow> (r, blklen, s)
      | (None, blklen, s) \<Rightarrow> wc_rounds n blklen (s\<lparr>errors := errors s + 1\<rparr>))"

text \<open>\<open>RETRYMAX\<close> rounds.\<close>

definition wcgetsec :: "nat \<Rightarrow> 'a lrz_scheme \<Rightarrow> int \<times> nat \<times> 'a lrz_scheme" where
  "wcgetsec blklen s = wc_rounds 10 blklen (s\<lparr>Lastrx := 0, errors := 0\<rparr>)"

subsection \<open>A sector consumes input\<close>

lemma bytes_left_lrz [simp]:
  "bytes_left (s\<lparr>secbuf := b\<rparr>) = bytes_left s" "bytes_left (s\<lparr>Firstsec := f\<rparr>) = bytes_left s"
  "bytes_left (s\<lparr>Lastrx := l\<rparr>) = bytes_left s" "bytes_left (s\<lparr>errors := e\<rparr>) = bytes_left s"
  "bytes_left (s\<lparr>zi := z\<rparr>) = bytes_left s"
  by (simp_all add: bytes_left_def)

lemma bytes_left_write [simp]:
  "bytes_left (sendline c s) = bytes_left s" "bytes_left (flushmo s) = bytes_left s"
  "bytes_left (purgeline s) \<le> bytes_left s"
  by (simp_all add: bytes_left_def sendline_def xsendline_def flushmo_def purgeline_def readline_purge_def)

lemma wc_data_left: "bytes_left (snd (wc_data n i crc ck s)) \<le> bytes_left s"
proof (induction n arbitrary: i crc ck s)
  case (Suc n)
  obtain c s1 where rd: "READLINE_PF s = (c, s1)" by fastforce
  have "bytes_left s1 \<le> bytes_left s" using READLINE_PF_le [OF rd] .
  then show ?case
    using le_trans [OF Suc.IH [where s = "s1\<lparr>secbuf := (secbuf s1)[i := word_of_int c]\<rparr>"]] by (simp add: rd)
qed simp

lemma wc_check_left: "bytes_left (snd (wc_check crc ck s)) \<le> bytes_left s"
proof -
  obtain c s1 where rd: "READLINE_PF s = (c, s1)" by fastforce
  obtain d s2 where rd2: "READLINE_PF s1 = (d, s2)" by fastforce
  from READLINE_PF_le [OF rd] READLINE_PF_le [OF rd2] show ?thesis
    by (simp add: wc_check_def rd rd2)
qed

lemma wc_get2_left: "bytes_left (snd (wc_get2 n s)) \<le> bytes_left s"
proof -
  obtain c s1 where rd: "READLINE_PF s = (c, s1)" by fastforce
  obtain d s2 where rd2: "READLINE_PF s1 = (d, s2)" by fastforce
  obtain r s3 where wd: "wc_data n 0 0 0 s2 = (r, s3)" by fastforce
  have "bytes_left s3 \<le> bytes_left s"
    using READLINE_PF_le [OF rd] READLINE_PF_le [OF rd2] wc_data_left [of n 0 0 0 s2] wd by simp
  moreover have "bytes_left (snd (wc_check a b s3)) \<le> bytes_left s3" for a b
    by (rule wc_check_left)
  ultimately show ?thesis
    using READLINE_PF_le [OF rd] READLINE_PF_le [OF rd2]
    by (auto simp: wc_get2_def rd rd2 wd split: option.split prod.split)
       (metis order_trans snd_conv)+
qed

lemma wc_drain_left: "bytes_left (wc_drain n s) \<le> bytes_left s"
proof (induction n arbitrary: s)
  case (Suc n)
  obtain c s1 where rd: "READLINE_PF s = (c, s1)" by fastforce
  then show ?case using READLINE_PF_le [OF rd] le_trans [OF Suc.IH [of s1]] by (simp add: rd)
qed simp

lemma wc_humbug_left: "bytes_left (wc_humbug s) \<le> bytes_left s"
proof -
  have "bytes_left (wc_drain 1000 (s\<lparr>Lastrx := 0\<rparr>)) \<le> bytes_left s"
    using wc_drain_left [of 1000 "s\<lparr>Lastrx := 0\<rparr>"] by simp
  then show ?thesis
    unfolding wc_humbug_def Let_def
    by (rule le_trans [OF bytes_left_write(3) le_trans, rotated]) simp
qed

lemma wc_round_left:
  assumes "wc_round b s = (r, b', s')"
  shows "bytes_left s' \<le> bytes_left s" "r \<noteq> None \<Longrightarrow> bytes_left s' < bytes_left s"
proof -
  obtain c s1 where rd: "READLINE_PF s = (c, s1)" by fastforce
  obtain d s2 where rd2: "READLINE_PF s1 = (d, s2)" by fastforce
  have g: "bytes_left (snd (wc_get2 n s1)) \<le> bytes_left s1" for n by (rule wc_get2_left)
  have h: "bytes_left (wc_humbug t) \<le> bytes_left t" for t :: "'a lrz_scheme" by (rule wc_humbug_left)
  have le: "bytes_left s' \<le> bytes_left s1"
    using assms READLINE_PF_le [OF rd2] g h
    by (auto simp: wc_round_def rd rd2 Let_def split: if_splits option.splits prod.splits)
       (metis le_trans snd_conv)+
  show "bytes_left s' \<le> bytes_left s" using le READLINE_PF_le [OF rd] by simp
  assume "r \<noteq> None"
  then have "c \<noteq> TIMEOUT" using assms by (auto simp: wc_round_def rd)
  with le READLINE_PF_less [OF rd] show "bytes_left s' < bytes_left s" by simp
qed

lemma wc_rounds_less:
  "wc_rounds n b s = (r, b', s') \<Longrightarrow> r \<noteq> MYERROR \<Longrightarrow> bytes_left s' < bytes_left s"
proof (induction n b s rule: wc_rounds.induct)
  case (2 n b s)
  obtain x b1 s1 where rnd: "wc_round b s = (x, b1, s1)" by (cases "wc_round b s")
  show ?case
  proof (cases x)
    case None
    with 2 rnd wc_round_left(1) [OF rnd] show ?thesis by fastforce
  next
    case (Some y)
    with 2(2) rnd wc_round_left(2) [OF rnd] show ?thesis by simp
  qed
qed simp

lemma wcgetsec_less:
  "wcgetsec b s = (r, b', s') \<Longrightarrow> r \<noteq> MYERROR \<Longrightarrow> bytes_left s' < bytes_left s"
  unfolding wcgetsec_def by (drule wc_rounds_less) simp_all

subsection \<open>Whole transfers (wcrxpn, wcrx)\<close>

definition send_flush :: "int \<Rightarrow> 'a lrz_scheme \<Rightarrow> 'a lrz_scheme" where
  "send_flush c s = purgeline (flushmo (sendline c s))"

lemma send_flush_left: "bytes_left (send_flush c s) \<le> bytes_left s"
  unfolding send_flush_def by (metis bytes_left_write)

text \<open>\<^verbatim>\<open>wcrxpn\<close> from the label \<open>et_tu\<close>; the path name is left in \<^verbatim>\<open>secbuf\<close>.\<close>

function wcrxpn_et_tu :: "nat \<Rightarrow> 'a lrz_scheme \<Rightarrow> int \<times> 'a lrz_scheme" where
  "wcrxpn_et_tu blklen s =
     (let s1 = send_flush (if Crcflg s then WANTCRC else NAK)
                 (s\<lparr>Firstsec := True, zi := (zi s)\<lparr>eof_seen := False\<rparr>\<rparr>)
      in case wcgetsec blklen s1 of (c, blklen, s2) \<Rightarrow>
           if c = 0 then (OK, flushmo (sendline ACK s2))
           else if c = WCEOT then wcrxpn_et_tu blklen (snd (READLINE_PF (send_flush ACK s2)))
           else (MYERROR, s2))"
  by pat_completeness auto
termination
proof (relation "measure (\<lambda>(b, s). bytes_left s)", simp, clarsimp)
  fix b b' and s s2 :: "'a lrz_scheme"
  let ?s1 = "send_flush (if Crcflg s then 67 else 21) (s\<lparr>Firstsec := True, zi := (zi s)\<lparr>eof_seen := False\<rparr>\<rparr>)"
  assume get: "(- 10, b', s2) = wcgetsec b ?s1"
  have "bytes_left (snd (READLINE_PF (send_flush 6 s2))) \<le> bytes_left s2"
    using line.rd_left_le [of "send_flush 6 s2"] send_flush_left [of 6 s2] by simp
  also have "\<dots> < bytes_left ?s1" using wcgetsec_less [OF get [symmetric]] by simp
  also have "\<dots> \<le> bytes_left s"
    using send_flush_left [of _ "s\<lparr>Firstsec := True, zi := (zi s)\<lparr>eof_seen := False\<rparr>\<rparr>"] by simp
  finally show "bytes_left (snd (READLINE_PF (send_flush 6 s2))) < bytes_left s" .
qed

declare wcrxpn_et_tu.simps [simp del]

definition wcrxpn :: "'a lrz_scheme \<Rightarrow> int \<times> 'a lrz_scheme" where
  "wcrxpn s = wcrxpn_et_tu 0 (snd (READLINE_PF s))"

lemma putsec_left [simp]: "bytes_left (snd (putsec buf n s)) = bytes_left s"
proof -
  have put: "bytes_left (fput bs s) = bytes_left s" for bs and s :: "'a lrz_scheme"
    by (simp add: fput_def bytes_left_def Let_def split: option.split)
  have "bytes_left (putsec_ascii bs s) = bytes_left s" for bs
    by (induction bs s rule: putsec_ascii.induct) (simp_all add: fputc_def put)
  then show ?thesis by (simp add: putsec_def put)
qed

text \<open>A good sector: the last one of a file of known length is cut off.\<close>

definition wcrx_store :: "nat \<Rightarrow> 'a lrz_scheme \<Rightarrow> int \<times> 'a lrz_scheme" where
  "wcrx_store blklen s =
     (let left = R_BYTESLEFT (zi s);
          n = (if bytes_total (zi s) \<noteq> 0 \<and> left < word_of_nat blklen then unat left else blklen);
          s = s\<lparr>zi := (zi s)\<lparr>bytes_received := bytes_received (zi s) + word_of_nat n\<rparr>\<rparr>
      in putsec (secbuf s) n s)"

lemma wcrx_store_left [simp]: "bytes_left (snd (wcrx_store n s)) = bytes_left s"
  by (simp add: wcrx_store_def Let_def)

lemma wcgetsec_flush_less:
  "(r, b', s') = wcgetsec b (send_flush c s) \<Longrightarrow> 0 \<le> r \<Longrightarrow> bytes_left s' < bytes_left s"
  using wcgetsec_less [of b "send_flush c s" r b' s'] send_flush_left [of c s] by simp

lemma wcrx_store_eq_left: "(r, s') = wcrx_store n s \<Longrightarrow> bytes_left s' = bytes_left s"
  using wcrx_store_left [of n s] by (metis snd_conv)

lemma and_255_range [simp]: "0 \<le> (n :: int) AND 255"
  by simp

function wcrx_loop :: "int \<Rightarrow> int \<Rightarrow> nat \<Rightarrow> 'a lrz_scheme \<Rightarrow> (int \<times> 'a lrz_scheme) option" where
  "wcrx_loop sectnum sendchar blklen s =
     (case wcgetsec blklen (send_flush sendchar s) of (sectcurr, blklen, s1) \<Rightarrow>
        if sectcurr = (sectnum + 1) AND 255 then
          (case wcrx_store blklen s1 of (r, s2) \<Rightarrow>
             if r = MYERROR then Some (MYERROR, s2) else wcrx_loop (sectnum + 1) ACK blklen s2)
        else if sectcurr = sectnum AND 255 then wcrx_loop sectnum ACK blklen s1
        else if sectcurr = WCEOT then
          (case closeit s1 of
             None \<Rightarrow> None
           | Some (r, s2) \<Rightarrow> if r \<noteq> 0 then Some (MYERROR, s2) else Some (OK, send_flush ACK s2))
        else Some (MYERROR, s1))"
  by pat_completeness auto
termination
  by (relation "measure (\<lambda>(n, c, b, s). bytes_left s)")
     (auto dest: wcgetsec_flush_less dest!: wcrx_store_eq_left)

declare wcrx_loop.simps [simp del]

definition wcrx :: "'a lrz_scheme \<Rightarrow> (int \<times> 'a lrz_scheme) option" where
  "wcrx s =
     wcrx_loop 0 (if Crcflg s then WANTCRC else NAK) 0
       (s\<lparr>Firstsec := True, zi := (zi s)\<lparr>eof_seen := False\<rparr>\<rparr>)"

subsection \<open>A good sector\<close>

text \<open>The sector for some data: its start, its number and the complement, the data, the check.\<close>

definition wc_sector :: "bool \<Rightarrow> byte \<Rightarrow> byte list \<Rightarrow> byte list" where
  "wc_sector crcflg n data =
     (if length data = 1024 then STX else SOH) # n # NOT n # data
       @ (if crcflg then trailer16 (fold upd16 data 0) else [sum_list data])"

lemma READLINE_PF_lrz:
  "READLINE_PF (s\<lparr>secbuf := b\<rparr>) = (fst (READLINE_PF s), (snd (READLINE_PF s))\<lparr>secbuf := b\<rparr>)"
  by (simp add: READLINE_PF_def readline_internal_def split: list.split prod.split)

lemma rskip_lrz [frame_simps]:
  "rskip n (s\<lparr>secbuf := b\<rparr>) = (rskip n s)\<lparr>secbuf := b\<rparr>"
  by (induction n arbitrary: s) (simp_all add: skip.simps READLINE_PF_lrz)

lemma pending_lrz [frame_simps]:
  "pending (s\<lparr>secbuf := b\<rparr>) = pending s" "pending (s\<lparr>Lastrx := l\<rparr>) = pending s"
  "pending (s\<lparr>errors := e\<rparr>) = pending s"
  by (simp_all add: pending_def)

lemma rskip_lrz_frame [frame_simps]:
  "secbuf (rskip n s) = secbuf s" "Crcflg (rskip n s) = Crcflg s" "zi (rskip n s) = zi s"
  using rskip_fields [of n s] by auto

lemma wc_data_bytes:
  assumes "0 < readline_readnum s" "pending s = data @ rest" "i + length data \<le> length (secbuf s)"
  shows "wc_data (length data) i crc ck s
    = (Some (fold upd16 data crc, ck + (\<Sum>b\<leftarrow>data. sint b)), (rskip (length data) s)
        \<lparr>secbuf := take i (secbuf s) @ data @ drop (i + length data) (secbuf s)\<rparr>)"
  using assms
proof (induction data arbitrary: i crc ck s)
  case Nil
  then show ?case by simp
next
  case (Cons b data)
  then have rd: "READLINE_PF s = (uint b, rskip 1 s)"
    by (intro READLINE_PF_code [of _ _ "data @ rest"]) simp_all
  let ?s1 = "(rskip 1 s)\<lparr>secbuf := (secbuf s)[i := b]\<rparr>"
  have "wc_data (length data) (Suc i) (upd16 b crc) (ck + sint b) ?s1
    = (Some (fold upd16 data (upd16 b crc), ck + sint b + (\<Sum>b\<leftarrow>data. sint b)), (rskip (length data) ?s1)
        \<lparr>secbuf := take (Suc i) (secbuf ?s1) @ data @ drop (Suc i + length data) (secbuf ?s1)\<rparr>)"
    using Cons.prems by (intro Cons.IH) (simp_all add: frame_simps)
  then show ?case
    using Cons.prems by (simp add: rd upd_byte frame_simps take_Suc_conv_app_nth add.assoc)
qed

lemma word_of_int_sum: "word_of_int (\<Sum>b\<leftarrow>data. sint b) = (sum_list data :: byte)"
  by (induction data) simp_all

lemma and_255_zero: "(x :: int) AND 255 = 0 \<longleftrightarrow> (word_of_int x :: byte) = 0"
proof -
  have "(word_of_int x :: byte) = 0 \<longleftrightarrow> take_bit 8 x = 0"
    by (simp add: word_of_int_eq_0_iff take_bit_eq_0_iff dvd_eq_mod_eq_0)
  then show ?thesis by (simp add: take_bit_eq_mask mask_eq_exp_minus_1)
qed

lemma uint_not_byte: "uint (NOT b :: byte) = 255 - uint b"
proof -
  have n: "NOT b = word_of_int (255 - uint b)"
    by (simp add: not_eq_complement)
  have "0 \<le> 255 - uint b" "255 - uint b < 256" using byte_uint_range [of b] by linarith+
  then have "take_bit 8 (255 - uint b) = 255 - uint b" by (rule take_bit_byte_range) simp
  then show ?thesis unfolding n by (simp only: uint_word_of_int_eq) simp
qed

lemma wc_check_good:
  assumes "0 < readline_readnum s"
    and "pending s = (if Crcflg s then trailer16 crc else [c]) @ rest"
    and "word_of_int ck = c"
  shows "wc_check crc ck s = (True, rskip (if Crcflg s then 2 else 1) s)"
proof (cases "Crcflg s")
  case True
  then obtain a b where tr: "trailer16 crc = [a, b]" by (simp add: trailer16_def Let_def)
  have 1: "READLINE_PF s = (uint a, rskip 1 s)"
    using assms True tr by (intro READLINE_PF_code [of _ _ "b # rest"]) simp_all
  have 2: "READLINE_PF (rskip (Suc 0) s) = (uint b, rskip 2 s)"
    using READLINE_PF_code [of "rskip 1 s" b rest] assms True tr by (simp add: frame_simps numeral_2_eq_2)
  have "upd16 b (upd16 a crc) = 0" using residue16 [of crc] tr by simp
  with True 1 2 show ?thesis by (simp add: wc_check_def frame_simps upd_byte)
next
  case False
  then have "READLINE_PF s = (uint c, rskip 1 s)"
    using assms by (intro READLINE_PF_code [of _ _ rest]) simp_all
  with False assms(3) show ?thesis
    by (simp add: wc_check_def frame_simps and_255_zero)
qed

lemma wc_get2_good:
  assumes "0 < readline_readnum s" "length data \<le> length (secbuf s)"
    and "pending s = n # NOT n # data @ (if Crcflg s then trailer16 (fold upd16 data 0) else [sum_list data]) @ rest"
  shows "wc_get2 (length data) s = (Some (uint n), (rskip (2 + length data + (if Crcflg s then 2 else 1)) s)
    \<lparr>secbuf := data @ drop (length data) (secbuf s), Firstsec := False\<rparr>)"
proof -
  define chk where "chk = (if Crcflg s then trailer16 (fold upd16 data 0) else [sum_list data])"
  have pend: "pending s = n # NOT n # data @ chk @ rest" using assms(3) by (simp add: chk_def)
  have 1: "READLINE_PF s = (uint n, rskip (Suc 0) s)"
    using READLINE_PF_code [OF assms(1) pend] by simp
  have 2: "READLINE_PF (rskip (Suc 0) s) = (uint (NOT n), rskip 2 s)"
    using READLINE_PF_code [of "rskip 1 s" "NOT n" "data @ chk @ rest"] assms(1) pend
    by (simp add: frame_simps numeral_2_eq_2)
  define s3 where "s3 = (rskip (2 + length data) s)\<lparr>secbuf := data @ drop (length data) (secbuf s)\<rparr>"
  have 3: "wc_data (length data) 0 0 0 (rskip 2 s)
    = (Some (fold upd16 data 0, \<Sum>b\<leftarrow>data. sint b), s3)"
    using wc_data_bytes [of "rskip 2 s" data "chk @ rest" 0] assms pend by (simp add: s3_def frame_simps)
  have 4: "wc_check (fold upd16 data 0) (\<Sum>b\<leftarrow>data. sint b) s3
      = (True, rskip (if Crcflg s3 then 2 else 1) s3)"
    using assms(1) pend
    by (intro wc_check_good [where c = "sum_list data" and rest = rest])
      (simp_all add: s3_def frame_simps chk_def word_of_int_sum)
  have "take_bit 16 (uint (NOT n)) = uint (NOT n)"
    by (rule take_bit_byte_range) simp_all
  then have "uint (word_of_int (uint (NOT n)) :: u16) = uint (NOT n)"
    by (simp only: uint_word_of_int_eq) simp
  then have "uint n + uint (word_of_int (uint (NOT n)) :: u16) = 255"
    by (simp only: uint_not_byte)
  then show ?thesis
    by (simp add: wc_get2_def 1 2 3 4) (simp add: s3_def frame_simps)
qed

lemma wc_round_good:
  assumes "0 < readline_readnum s" "length data \<in> {128, 1024}" "1024 \<le> length (secbuf s)"
    and "pending s = wc_sector (Crcflg s) n data @ rest"
  shows "wc_round b s = (Some (uint n), length data, (rskip (length (wc_sector (Crcflg s) n data)) s)
    \<lparr>secbuf := data @ drop (length data) (secbuf s), Firstsec := False\<rparr>)"
proof -
  define st :: byte where "st = (if length data = 1024 then STX else SOH)"
  define chk where "chk = (if Crcflg s then trailer16 (fold upd16 data 0) else [sum_list data])"
  have pend: "pending s = st # n # NOT n # data @ chk @ rest"
    using assms(4) by (simp add: wc_sector_def chk_def st_def)
  have len: "length (wc_sector (Crcflg s) n data) = Suc (2 + length data + (if Crcflg s then 2 else 1))"
    by (simp add: wc_sector_def trailer16_def Let_def)
  have 1: "READLINE_PF s = (uint st, rskip (Suc 0) s)"
    using READLINE_PF_code [OF assms(1) pend] by simp
  have "wc_get2 (length data) (rskip (Suc 0) s) = (Some (uint n),
      (rskip (2 + length data + (if Crcflg s then 2 else 1)) (rskip (Suc 0) s))
        \<lparr>secbuf := data @ drop (length data) (secbuf s), Firstsec := False\<rparr>)"
    using wc_get2_good [of "rskip (Suc 0) s" data n rest] assms pend
    by (auto simp: frame_simps chk_def)
  with 1 assms(2) show ?thesis
    unfolding len by (auto simp: wc_round_def st_def)
qed

lemma wcgetsec_good:
  assumes "0 < readline_readnum s" "length data \<in> {128, 1024}" "1024 \<le> length (secbuf s)"
    and "pending s = wc_sector (Crcflg s) n data @ rest"
  shows "wcgetsec b s = (uint n, length data, (rskip (length (wc_sector (Crcflg s) n data))
      (s\<lparr>Lastrx := 0, errors := 0\<rparr>))
    \<lparr>secbuf := data @ drop (length data) (secbuf s), Firstsec := False\<rparr>)"
proof -
  have ten: "(10 :: nat) = Suc 9" by simp
  show ?thesis
    unfolding wcgetsec_def ten wc_rounds.simps
    using wc_round_good [of "s\<lparr>Lastrx := 0, errors := 0\<rparr>" data n rest b] assms by (simp add: frame_simps)
qed

subsection \<open>A whole file\<close>

text \<open>
  The sender waits for each answer, so a sector is what arrives before the next purge: it
  comes in some non-empty chunks, and the user-space buffer is empty again after it.
\<close>

lemma wcgetsec_chunks:
  assumes "0 < readline_readnum s" "length data \<in> {128, 1024}" "1024 \<le> length (secbuf s)"
    and "readline_buf s = []" "line_in s = cs @ rest" "[] \<notin> set cs"
    and "concat cs = wc_sector (Crcflg s) n data"
  shows "wcgetsec b s = (uint n, length data, s\<lparr>line_in := rest, Lastrx := 0, errors := 0,
    secbuf := data @ drop (length data) (secbuf s), Firstsec := False\<rparr>)"
proof -
  have p: "takeWhile (\<lambda>c. c \<noteq> []) (cs @ rest) = cs @ takeWhile (\<lambda>c. c \<noteq> []) rest"
    using assms(6) by (induction cs) auto
  then have "pending s = wc_sector (Crcflg s) n data @ concat (takeWhile (\<lambda>c. c \<noteq> []) rest)"
    using assms by (simp add: pending_def)
  from wcgetsec_good [OF assms(1-3) this, of b]
    rskip_chunks [of "s\<lparr>Lastrx := 0, errors := 0\<rparr>" cs rest] assms
  show ?thesis by simp
qed

definition acks :: "int \<Rightarrow> byte" where
  "acks c = word_of_int (c AND 255)"

lemma send_flush_eq:
  "send_flush c s = s\<lparr>wire := wire s @ obuf s @ [acks c], obuf := [], readline_buf := []\<rparr>"
  by (simp add: send_flush_def purgeline_def readline_purge_def flushmo_def sendline_def xsendline_def acks_def)

text \<open>The file written so far ends where the stream stands.\<close>

definition writing :: "'a lrz_scheme \<Rightarrow> stream \<Rightarrow> fs_file \<Rightarrow> bool" where
  "writing s f x \<longleftrightarrow> fout s = Some f \<and> is_open f \<and> files s (path f) = Some x
     \<and> (\<not> at_end f \<longrightarrow> pos f = length (content x))"

lemma fput_writing:
  fixes bs :: "byte list"
  assumes "writing s f x"
  defines "f' \<equiv> f\<lparr>pos := length (content x) + length bs\<rparr>" and "x' \<equiv> x\<lparr>content := content x @ bs\<rparr>"
  shows "fput bs s = s\<lparr>files := (files s)(path f \<mapsto> x'), fout := Some f'\<rparr>"
    and "writing (fput bs s) f' x'"
proof -
  have "write_at (length (content x)) bs (content x) = content x @ bs" by (simp add: write_at_def)
  with assms show eq: "fput bs s = s\<lparr>files := (files s)(path f \<mapsto> x'), fout := Some f'\<rparr>"
    by (cases "at_end f") (auto simp: fput_def writing_def Let_def)
  show "writing (fput bs s) f' x'" unfolding eq using assms(1) by (simp add: writing_def f'_def x'_def)
qed

text \<open>What writing a sector leaves of the state.\<close>

definition stored :: "byte list \<Rightarrow> stream \<Rightarrow> fs_file \<Rightarrow> 'a lrz_scheme \<Rightarrow> 'a lrz_scheme" where
  "stored bs f x s =
     (if bs = [] then s
      else s\<lparr>files := (files s)(path f \<mapsto> x\<lparr>content := content x @ bs\<rparr>),
        fout := Some (f\<lparr>pos := length (content x) + length bs\<rparr>)\<rparr>)"

definition stored_at :: "byte list \<Rightarrow> stream \<Rightarrow> fs_file \<Rightarrow> stream" where
  "stored_at bs f x = (if bs = [] then f else f\<lparr>pos := length (content x) + length bs\<rparr>)"

lemma writing_stored:
  "writing s f x \<Longrightarrow> writing (stored bs f x s) (stored_at bs f x) (x\<lparr>content := content x @ bs\<rparr>)"
  by (simp add: writing_def stored_def stored_at_def)

lemma path_stored_at [simp]: "path (stored_at bs f x) = path f"
  by (simp add: stored_at_def)

lemma putsec_binary:
  assumes "writing s f x" "Thisbinary s" "write_ok s" "buf \<noteq> []"
  shows "putsec buf n s = (OK, stored (take n buf) f x s)"
  using assms fput_writing(1) [OF assms(1), of "take n buf"] by (simp add: putsec_def stored_def)

text \<open>The receiver writes a binary file of known length, of which it has a beginning.\<close>

definition receiving :: "'a lrz_scheme \<Rightarrow> stream \<Rightarrow> fs_file \<Rightarrow> bool" where
  "receiving s f x \<longleftrightarrow> writing s f x \<and> Thisbinary s \<and> write_ok s \<and> close_ok s
     \<and> 1024 \<le> length (secbuf s) \<and> 0 < readline_readnum s
     \<and> bytes_total (zi s) \<noteq> 0 \<and> bytes_received (zi s) = word_of_nat (length (content x))
     \<and> length (content x) \<le> unat (bytes_total (zi s))"

lemma unat_u64_small: "n \<le> 1024 \<Longrightarrow> unat (word_of_nat n :: u64) = n"
  by (simp add: unat_of_nat)

lemma wcrx_store_good:
  fixes data :: "byte list"
  assumes "receiving s f x" "secbuf s = data @ rest" "length data \<in> {128, 1024}"
  defines "bs \<equiv> take (unat (bytes_total (zi s)) - length (content x)) data"
  shows "wcrx_store (length data) s = (OK, stored bs f x
    (s\<lparr>zi := (zi s)\<lparr>bytes_received := word_of_nat (length (content x) + length bs)\<rparr>\<rparr>))"
proof -
  note r = assms(1) [unfolded receiving_def]
  let ?len = "length (content x)" and ?T = "bytes_total (zi s)"
  have small: "length data \<le> 1024" using assms(3) by auto
  have lt: "?len \<le> unat ?T" and "?len < 2 ^ 64"
    using r unsigned_less [of ?T] by (auto intro: le_less_trans)
  then have len: "unat (word_of_nat ?len :: u64) = ?len" by (simp add: unat_of_nat)
  then have left: "unat (?T - word_of_nat ?len) = unat ?T - ?len"
    using lt by (simp add: unat_sub word_le_nat_alt)
  have less: "?T - word_of_nat ?len < word_of_nat (length data) \<longleftrightarrow> unat ?T - ?len < length data"
    by (simp add: word_less_nat_alt left unat_u64_small [OF small])
  define n where "n = (if unat ?T - ?len < length data then unat ?T - ?len else length data)"
  have bs: "take n (secbuf s) = bs" "length bs = n"
    by (auto simp: n_def bs_def assms(2))
  define s1 where "s1 = s\<lparr>zi := (zi s)\<lparr>bytes_received := word_of_nat (?len + length bs)\<rparr>\<rparr>"
  have "wcrx_store (length data) s = putsec (secbuf s1) n s1"
    using r by (simp add: wcrx_store_def R_BYTESLEFT_def Let_def less left n_def s1_def bs)
  also have "\<dots> = (OK, stored (take n (secbuf s1)) f x s1)"
    using r assms(2,3) by (intro putsec_binary) (auto simp: s1_def writing_def)
  finally show ?thesis using bs by (simp add: s1_def)
qed

lemma sector_number: "uint (word_of_int n :: byte) = n AND 255"
  by (simp add: uint_word_of_int_eq take_bit_eq_mask mask_eq_exp_minus_1)

lemma wcrx_step:
  fixes data :: "byte list"
  assumes "receiving s f x" "length data \<in> {128, 1024}" "line_in s = cs @ rest" "[] \<notin> set cs"
    and "concat cs = wc_sector (Crcflg s) (word_of_int (k + 1)) data"
  defines "bs \<equiv> take (unat (bytes_total (zi s)) - length (content x)) data"
  obtains s' f' where "wcrx_loop k c b s = wcrx_loop (k + 1) ACK (length data) s'"
    "receiving s' f' (x\<lparr>content := content x @ bs\<rparr>)" "path f' = path f" "line_in s' = rest"
    "Crcflg s' = Crcflg s" "sent s' = sent s @ [acks c]" "bytes_total (zi s') = bytes_total (zi s)"
proof -
  note r = assms(1) [unfolded receiving_def]
  define s1 where "s1 = (send_flush c s)\<lparr>line_in := rest, Lastrx := 0, errors := 0,
    secbuf := data @ drop (length data) (secbuf s), Firstsec := False\<rparr>"
  have get: "wcgetsec b (send_flush c s) = ((k + 1) AND 255, length data, s1)"
    using wcgetsec_chunks [of "send_flush c s" data cs rest "word_of_int (k + 1)" b] assms r
    by (simp add: send_flush_eq s1_def sector_number [of "k + 1", simplified])
  have r1: "receiving s1 f x" "secbuf s1 = data @ drop (length data) (secbuf s)" "zi s1 = zi s"
    using r assms(2) by (auto simp: s1_def send_flush_eq receiving_def writing_def)
  define s2 where "s2 = stored bs f x
    (s1\<lparr>zi := (zi s)\<lparr>bytes_received := word_of_nat (length (content x) + length bs)\<rparr>\<rparr>)"
  have st: "wcrx_store (length data) s1 = (OK, s2)"
    using wcrx_store_good [OF r1(1,2) assms(2)] by (simp add: bs_def s2_def r1(3))
  show thesis
  proof (rule that [of s2 "stored_at bs f x"])
    show "wcrx_loop k c b s = wcrx_loop (k + 1) ACK (length data) s2"
      by (subst wcrx_loop.simps) (simp add: get st)
    show "receiving s2 (stored_at bs f x) (x\<lparr>content := content x @ bs\<rparr>)"
      using r1(1) writing_stored [of _ f x bs]
      by (auto simp: s2_def receiving_def bs_def r1(3) stored_def stored_at_def writing_def)
    show "path (stored_at bs f x) = path f" "line_in s2 = rest" "Crcflg s2 = Crcflg s"
      "sent s2 = sent s @ [acks c]" "bytes_total (zi s2) = bytes_total (zi s)"
      by (simp_all add: s2_def s1_def stored_def send_flush_eq sent_def)
  qed
qed

lemma closeit_content:
  assumes "fout s = Some f" "is_open f" "close_ok s"
  shows "\<exists>s'. closeit s = Some (OK, s') \<and> (\<forall>p. map_option content (files s' p) = map_option content (files s p))
    \<and> wire s' = wire s \<and> obuf s' = obuf s"
  using assms
  by (auto simp: closeit_def fclose_def Let_def set_attrs_def option.map_comp comp_def split: option.split)

lemma wcrx_eot:
  assumes "receiving s f x" "line_in s = [[EOT]]"
  shows "\<exists>s'. wcrx_loop k c b s = Some (OK, s') \<and> map_option content (files s' (path f)) = Some (content x)
    \<and> sent s' = sent s @ [acks c, ACK]"
proof -
  note r = assms(1) [unfolded receiving_def]
  define s1 where "s1 = (send_flush c s)\<lparr>line_in := [], Lastrx := 0, errors := 0\<rparr>"
  have ten: "(10 :: nat) = Suc 9" by simp
  have get: "wcgetsec b (send_flush c s) = (WCEOT, b, s1)"
    unfolding wcgetsec_def ten wc_rounds.simps
    using r assms(2)
    by (simp add: wc_round_def send_flush_eq s1_def READLINE_PF_def readline_internal_def)
  obtain s2 where s2: "closeit s1 = Some (OK, s2)"
      "\<forall>p. map_option content (files s2 p) = map_option content (files s1 p)" "wire s2 = wire s1" "obuf s2 = obuf s1"
    using closeit_content [of s1 f] r by (auto simp: s1_def send_flush_eq writing_def)
  have ne: "n AND 255 \<noteq> WCEOT" for n :: int
    using and_255_range [of n] by linarith
  have "wcrx_loop k c b s = Some (OK, send_flush ACK s2)"
    by (subst wcrx_loop.simps) (simp add: get s2(1) ne [symmetric])
  moreover have "map_option content (files s2 (path f)) = Some (content x)"
    using s2(2) r by (simp add: s1_def send_flush_eq writing_def)
  ultimately show ?thesis
    using s2(3,4) by (intro exI [of _ "send_flush ACK s2"]) (simp add: s1_def send_flush_eq sent_def acks_def)
qed

lemma wcrx_loop_sectors:
  assumes "receiving s f x" "line_in s = concat (map fst ps) @ [[EOT]]"
    and "\<forall>i < length ps. [] \<notin> set (fst (ps ! i)) \<and> length (snd (ps ! i)) \<in> {128, 1024}
      \<and> concat (fst (ps ! i)) = wc_sector (Crcflg s) (word_of_int (k + int i + 1)) (snd (ps ! i))"
  shows "\<exists>s'. wcrx_loop k c b s = Some (OK, s')
    \<and> map_option content (files s' (path f))
      = Some (take (unat (bytes_total (zi s))) (content x @ concat (map snd ps)))
    \<and> sent s' = sent s @ acks c # replicate (length ps) ACK @ [ACK]"
  using assms
proof (induction ps arbitrary: s f x k c b)
  case Nil
  then have "length (content x) \<le> unat (bytes_total (zi s))" by (simp add: receiving_def)
  then show ?case using wcrx_eot [of s f x k c b] Nil by simp
next
  case (Cons p ps)
  obtain cs data where p: "p = (cs, data)" by fastforce
  let ?T = "unat (bytes_total (zi s))"
  define bs where "bs = take (?T - length (content x)) data"
  have p0: "length data \<in> {128, 1024}" "[] \<notin> set cs" "concat cs = wc_sector (Crcflg s) (word_of_int (k + 1)) data"
    "line_in s = cs @ concat (map fst ps) @ [[EOT]]"
    using Cons.prems(2) Cons.prems(3) [rule_format, of 0] p by simp_all
  obtain s1 f1 where s1: "wcrx_loop k c b s = wcrx_loop (k + 1) ACK (length data) s1"
    "receiving s1 f1 (x\<lparr>content := content x @ bs\<rparr>)" "path f1 = path f"
    "line_in s1 = concat (map fst ps) @ [[EOT]]"
    "Crcflg s1 = Crcflg s" "sent s1 = sent s @ [acks c]" "bytes_total (zi s1) = bytes_total (zi s)"
    using wcrx_step [OF Cons.prems(1) p0(1,4,2,3)] unfolding bs_def by metis
  have "\<forall>i < length ps. [] \<notin> set (fst (ps ! i)) \<and> length (snd (ps ! i)) \<in> {128, 1024}
      \<and> concat (fst (ps ! i)) = wc_sector (Crcflg s1) (word_of_int (k + 1 + int i + 1)) (snd (ps ! i))"
  proof (intro allI impI)
    fix i
    assume "i < length ps"
    with Cons.prems(3) [rule_format, of "Suc i"] s1(5)
    show "[] \<notin> set (fst (ps ! i)) \<and> length (snd (ps ! i)) \<in> {128, 1024}
      \<and> concat (fst (ps ! i)) = wc_sector (Crcflg s1) (word_of_int (k + 1 + int i + 1)) (snd (ps ! i))"
      by (simp add: algebra_simps)
  qed
  from Cons.IH [OF s1(2,4) this, of ACK "length data"] obtain s' where
      s'0: "wcrx_loop (k + 1) ACK (length data) s1 = Some (OK, s')"
      "map_option content (files s' (path f1)) = Some (take (unat (bytes_total (zi s1)))
         (content (x\<lparr>content := content x @ bs\<rparr>) @ concat (map snd ps)))"
      "sent s' = sent s1 @ acks ACK # replicate (length ps) ACK @ [ACK]" by blast
  then have s': "wcrx_loop k c b s = Some (OK, s')"
    "map_option content (files s' (path f)) = Some (take ?T ((content x @ bs) @ concat (map snd ps)))"
    "sent s' = sent s @ [acks c] @ acks ACK # replicate (length ps) ACK @ [ACK]"
    by (simp_all only: s1 append_assoc) simp
  have "length (content x) \<le> ?T" using Cons.prems(1) by (simp add: receiving_def)
  then have "take ?T ((content x @ bs) @ concat (map snd ps)) = take ?T (content x @ concat (map snd (p # ps)))"
    by (simp add: bs_def p min_def)
  with s' show ?case by (simp add: acks_def)
qed

text \<open>
  Claim C14: XMODEM and YMODEM reception. If the line delivers the sectors of some blocks of
  128 or 1024 bytes, numbered from 1 modulo 256 and each split into chunks in any way, and
  then an EOT, \<^verbatim>\<open>wcrx\<close> returns OK, the file holds the blocks in order, cut to the length
  from the file header, and the receiver has sent its start character, one ACK per sector
  and one for the EOT. The file is open, binary and empty at the start.
\<close>

theorem wcrx_receives:
  assumes "receiving s f x" "content x = []" "line_in s = concat (map fst ps) @ [[EOT]]"
    and "\<forall>i < length ps. [] \<notin> set (fst (ps ! i)) \<and> length (snd (ps ! i)) \<in> {128, 1024}
      \<and> concat (fst (ps ! i)) = wc_sector (Crcflg s) (word_of_nat (Suc i)) (snd (ps ! i))"
  shows "\<exists>s'. wcrx s = Some (OK, s')
    \<and> map_option content (files s' (path f)) = Some (take (unat (bytes_total (zi s))) (concat (map snd ps)))
    \<and> sent s' = sent s @ (if Crcflg s then WANTCRC else NAK) # replicate (length ps) ACK @ [ACK]"
proof -
  define s0 where "s0 = s\<lparr>Firstsec := True, zi := (zi s)\<lparr>eof_seen := False\<rparr>\<rparr>"
  have s0: "receiving s0 f x" "line_in s0 = concat (map fst ps) @ [[EOT]]" "Crcflg s0 = Crcflg s"
    "sent s0 = sent s" "bytes_total (zi s0) = bytes_total (zi s)"
    using assms by (simp_all add: s0_def receiving_def writing_def sent_def)
  have "\<forall>i < length ps. [] \<notin> set (fst (ps ! i)) \<and> length (snd (ps ! i)) \<in> {128, 1024}
      \<and> concat (fst (ps ! i)) = wc_sector (Crcflg s0) (word_of_int (0 + int i + 1)) (snd (ps ! i))"
    using assms(4) s0(3) by (simp add: add.commute)
  from wcrx_loop_sectors [OF s0(1,2) this, of "if Crcflg s then WANTCRC else NAK" 0] s0 assms(2)
  show ?thesis by (cases "Crcflg s") (simp_all add: wcrx_def s0_def acks_def)
qed


definition rx_file_example :: "byte list list \<Rightarrow> lrz" where
  "rx_file_example cs = lrz_init\<lparr>line_in := cs, Thisbinary := True,
     fout := Some \<lparr>path = [97], pos = 0, at_end = False, is_open = True\<rparr>,
     files := [[97] \<mapsto> empty_file], zi := zi_init\<lparr>bytes_total := 100\<rparr>\<rparr>"

theorem wcrx_receives_witness:
  "\<exists>s'. wcrx (rx_file_example [wc_sector False 1 (replicate 128 65), [EOT]]) = Some (OK, s')
     \<and> map_option content (files s' [97]) = Some (replicate 100 65) \<and> sent s' = [NAK, ACK, ACK]"
proof -
  define s where "s = rx_file_example [wc_sector False 1 (replicate 128 65), [EOT]]"
  define f where "f = \<lparr>path = [97 :: byte], pos = 0, at_end = False, is_open = True\<rparr>"
  have s: "receiving s f empty_file" "Crcflg s = False" "bytes_total (zi s) = 100" "sent s = []" "path f = [97]"
    "line_in s = concat (map fst [([wc_sector False 1 (replicate 128 65)], replicate 128 65)]) @ [[EOT]]"
    by (simp_all add: s_def f_def rx_file_example_def lrz_init_def zi_init_def receiving_def writing_def
        empty_file_def sent_def)
  have "\<exists>s'. wcrx s = Some (OK, s')
    \<and> map_option content (files s' (path f)) = Some (take (unat (bytes_total (zi s)))
        (concat (map snd [([wc_sector False 1 (replicate 128 65)], replicate 128 65)])))
    \<and> sent s' = sent s @ (if Crcflg s then WANTCRC else NAK)
        # replicate (length [([wc_sector False 1 (replicate 128 65)], replicate 128 (65 :: byte))]) ACK @ [ACK]"
    using s by (intro wcrx_receives [where x = empty_file]) (simp_all add: empty_file_def wc_sector_def)
  then show ?thesis using s by (simp add: s_def)
qed

end
