(* ===== verification/Lrz.thy ===== *)
theory Lrz
  imports Lrz_Xmodem
begin

text \<open>
  The ZMODEM side of the receiver, \<^verbatim>\<open>lszrz/lrz.c\<close>: \<^verbatim>\<open>tryz\<close>, \<^verbatim>\<open>rzfile\<close>, \<^verbatim>\<open>rzfiles\<close>,
  \<^verbatim>\<open>wcreceive\<close> and \<^verbatim>\<open>main\<close>.
\<close>

subsection \<open>Attention and goodbye (zmputs, ackbibi)\<close>

text \<open>A subpacket written over the start of a buffer.\<close>

definition overwrite :: "byte list \<Rightarrow> byte list \<Rightarrow> byte list" where
  "overwrite bs buf = bs @ drop (length bs) buf"

text \<open>
  \<^verbatim>\<open>zmputs\<close>: the characters \<^verbatim>\<open>\335\<close> and \<^verbatim>\<open>\336\<close> stand for a break and a pause. The pointer
  \<^verbatim>\<open>p\<close> is moved past them, the pointer \<^verbatim>\<open>s\<close> of the loop is not.
\<close>

definition pauses :: "byte \<Rightarrow> bool" where
  "pauses b \<longleftrightarrow> b = 221 \<or> b = 222"

partial_function (option) zmputs :: "cstring \<Rightarrow> 'a lrz_scheme \<Rightarrow> 'a lrz_scheme option" where
  "zmputs str s =
     (if str = [] then Some s
      else
        let pre = takeWhile (\<lambda>b. \<not> pauses b) str; rest = dropWhile (\<lambda>b. \<not> pauses b) str
        in if rest = [] then Some (write1 str s)
           else zmputs rest (if pre \<noteq> [] then write1 pre s else s))"

fun ackbibi_loop :: "nat \<Rightarrow> 'a lrz_scheme \<Rightarrow> 'a lrz_scheme" where
  "ackbibi_loop 0 s = s"
| "ackbibi_loop (Suc n) s =
     (let s = zshhdr ZFIN (Txhdr s) (purgeline s)
      in case READLINE_PF s of (c, s) \<Rightarrow>
           if c = 79 then snd (READLINE_PF s)
           else if c = RCDO then s
           else ackbibi_loop n s)"

definition ackbibi :: "'a lrz_scheme \<Rightarrow> 'a lrz_scheme" where
  "ackbibi s = ackbibi_loop 3 (stohdr 0 s)"

subsection \<open>Commands (sys2)\<close>

definition strip_bang :: "cstring \<Rightarrow> cstring" where
  "strip_bang c = (if c \<noteq> [] \<and> hd c = 33 then tl c else c)"

definition sys2 :: "cstring \<Rightarrow> 'a lrz_scheme \<Rightarrow> int \<times> 'a lrz_scheme" where
  "sys2 c s =
     (let c = strip_bang c in (sys_result s c, s\<lparr>commands_run := commands_run s @ [c]\<rparr>))"

definition exec2 :: "cstring \<Rightarrow> 'a lrz_scheme \<Rightarrow> 'a lrz_scheme" where
  "exec2 c s = s\<lparr>commands_run := commands_run s @ [strip_bang c]\<rparr>"

text \<open>
  \<^verbatim>\<open>do zshhdr(ZCOMPL) while (++errors < 20 && zgethdr() != ZFIN)\<close>, with the number of
  rounds that \<^verbatim>\<open>errors\<close> leaves after this one; \<^verbatim>\<open>zgethdr\<close> does not change \<^verbatim>\<open>errors\<close>.
\<close>

fun compl_loop :: "nat \<Rightarrow> 'a lrz_scheme \<Rightarrow> 'a lrz_scheme" where
  "compl_loop k s =
     (let s = zshhdr ZCOMPL (Txhdr s) s; s = s\<lparr>errors := errors s + 1\<rparr>
      in case k of
           0 \<Rightarrow> s
         | Suc k \<Rightarrow> (case zgethdr s of (c, _, s) \<Rightarrow> if c \<noteq> ZFIN then compl_loop k s else s))"

subsection \<open>Starting a transfer (tryz)\<close>

text \<open>
  What the switch in \<^verbatim>\<open>tryz\<close> leads to: a return value, the next round (with a ZRQINIT or
  without), or the end of the process in \<^verbatim>\<open>exec2\<close>.
\<close>

datatype tryz_out = TzReturn int | TzNext bool | TzExec

definition tryz_zfile :: "'a lrz_scheme \<Rightarrow> int \<times> 'a lrz_scheme" where
  "tryz_zfile s =
     (let zc = Rxhdr s ! ZF0;
          s = s\<lparr>zconv := if zc = 0 then ZCBIN else zc\<rparr>;
          s = (if Rxhdr s ! ZF1 AND ZF1_ZMSKNOLOC \<noteq> 0
               then s\<lparr>Rxhdr := (Rxhdr s)[ZF1 := Rxhdr s ! ZF1 AND NOT ZF1_ZMSKNOLOC], skip_if_not_found := True\<rparr>
               else s);
          s = s\<lparr>zmanag := Rxhdr s ! ZF1, ztrans := Rxhdr s ! ZF2, tryzhdrtype := ZRINIT\<rparr>
      in case zrdata MAX_BLOCK s of (c, _, bs, s) \<Rightarrow> (c, s\<lparr>secbuf := overwrite bs (secbuf s)\<rparr>))"

definition tryz_command :: "byte \<Rightarrow> 'a lrz_scheme \<Rightarrow> tryz_out \<times> 'a lrz_scheme" where
  "tryz_command cmdzack1flg s =
     (if \<not> allow_remote_commands s then (TzReturn ZCOMPL, zshhdr ZCOMPL (Txhdr s) s)
      else
        let cmd = c_str (secbuf s);
            s = (if cmdzack1flg AND ZCACK1 \<noteq> 0 then stohdr 0 s
                 else (case sys2 cmd s of (r, s) \<Rightarrow> stohdr (unat (word_of_int r :: u64)) s));
            s = ackbibi (compl_loop (nat (19 - errors s)) (purgeline s))
        in if cmdzack1flg AND ZCACK1 \<noteq> 0 then (TzExec, exec2 cmd s) else (TzReturn ZCOMPL, s))"

lemma tryz_zfile_left: "tryz_zfile s = (c, s') \<Longrightarrow> bytes_left s' \<le> bytes_left s"
  by (auto simp: tryz_zfile_def Let_def bytes_left_def dest!: zrdata_le split: prod.splits if_splits)

lemma zgethdr_less: "(c, p, s') = zgethdr s \<Longrightarrow> c \<noteq> TIMEOUT \<Longrightarrow> bytes_left s' < bytes_left s"
  using reads_from_less [OF reads_from_zgethdr [OF sym]] by blast

lemma zrdata_le': "(c, m, bs, s') = zrdata len s \<Longrightarrow> bytes_left s' \<le> bytes_left s"
  using zrdata_le [OF sym] by blast

lemma tryz_zfile_le': "(c, s') = tryz_zfile s \<Longrightarrow> bytes_left s' \<le> bytes_left s"
  using tryz_zfile_left [OF sym] by blast

lemma bytes_left_tryz [simp]:
  "bytes_left (s\<lparr>Zctlesc := z\<rparr>) = bytes_left s" "bytes_left (s\<lparr>Attn := a\<rparr>) = bytes_left s"
  by (simp_all add: bytes_left_def)

text \<open>The code from the label \<open>again\<close>; it returns to the label only after a header.\<close>

function tryz_again :: "'a lrz_scheme \<Rightarrow> tryz_out \<times> 'a lrz_scheme" where
  "tryz_again s =
     (case zgethdr s of (c, _, s1) \<Rightarrow>
        if c = ZRQINIT then (TzNext True, s1)
        else if c = ZFILE then
          (case tryz_zfile s1 of (d, s2) \<Rightarrow>
             if d = GOTCRCW then (TzReturn ZFILE, s2) else tryz_again (zshhdr ZNAK (Txhdr s2) s2))
        else if c = ZSINIT then
          (case zrdata ZATTNLEN (s1\<lparr>Zctlesc := Zctlesc s1 OR uint (TESCCTL AND Rxhdr s1 ! ZF0)\<rparr>) of (d, _, bs, s2) \<Rightarrow>
             let s3 = s2\<lparr>Attn := overwrite bs (Attn s2)\<rparr>
             in if d = GOTCRCW then tryz_again (zshhdr ZACK (Txhdr (stohdr 1 s3)) (stohdr 1 s3))
                else tryz_again (zshhdr ZNAK (Txhdr s3) s3))
        else if c = ZFREECNT then
          (let s2 = stohdr (2 ^ 64 - 1) s1 in tryz_again (zshhdr ZACK (Txhdr s2) s2))
        else if c = ZCOMMAND then
          (case zrdata MAX_BLOCK s1 of (d, _, bs, s2) \<Rightarrow>
             let s3 = s2\<lparr>secbuf := overwrite bs (secbuf s2)\<rparr>
             in if d = GOTCRCW then tryz_command (Rxhdr s1 ! ZF0) s3
                else tryz_again (zshhdr ZNAK (Txhdr s3) s3))
        else if c = ZCOMPL then tryz_again s1
        else if c = ZFIN then (TzReturn ZCOMPL, ackbibi s1)
        else if c = ZRINIT \<or> c = ZCAN then (TzReturn MYERROR, s1)
        else (TzNext False, s1))"
  by pat_completeness auto
termination
  by (relation "measure bytes_left")
     (fastforce dest!: zgethdr_less zrdata_le' tryz_zfile_le')+

declare tryz_again.simps [simp del]

definition tryz_send :: "'a lrz_scheme \<Rightarrow> 'a lrz_scheme" where
  "tryz_send s =
     (let s = stohdr 0 s;
          s = s\<lparr>Txhdr := (Txhdr s)[ZF0 := CANFC32 OR CANFDX OR CANOVIO]\<rparr>;
          s = (if Zctlesc s \<noteq> 0 then s\<lparr>Txhdr := (Txhdr s)[ZF0 := Txhdr s ! ZF0 OR TESCCTL]\<rparr> else s);
          s = zshhdr (tryzhdrtype s) (Txhdr s) s
      in if tryzhdrtype s = ZSKIP then s\<lparr>tryzhdrtype := ZRINIT\<rparr> else s)"

function tryz_loop :: "int \<Rightarrow> int \<Rightarrow> 'a lrz_scheme \<Rightarrow> int option \<times> 'a lrz_scheme" where
  "tryz_loop n zrqinits_received s =
     (if n - 1 + zrqinits_received \<ge> 0 \<and> zrqinits_received < 10 then
        (case tryz_again (tryz_send s) of
           (TzReturn r, s') \<Rightarrow> (Some r, s')
         | (TzExec, s') \<Rightarrow> (None, s')
         | (TzNext q, s') \<Rightarrow>
             tryz_loop (n - 1) (if q then zrqinits_received + 1 else zrqinits_received) s')
      else (Some 0, s))"
  by pat_completeness auto
termination
  by (relation "measures [\<lambda>(n, z, s). nat (10 - z), \<lambda>(n, z, s). nat (n + z)]") auto

declare tryz_loop.simps [simp del]

text \<open>\<^verbatim>\<open>tryz\<close>; no value means that \<^verbatim>\<open>exec2\<close> ended the process.\<close>

definition tryz :: "'a lrz_scheme \<Rightarrow> int option \<times> 'a lrz_scheme" where
  "tryz s =
     (if protocol s \<noteq> ZM_ZMODEM then (Some 0, s)
      else tryz_loop (if zmodem_requested s then 15 else 5) 0 s)"

subsection \<open>Receiving a file (rzfile)\<close>

text \<open>The search of the saved out-of-sync blocks: the block at the position, what is kept.\<close>

fun oosb_scan :: "u64 \<Rightarrow> oosb_t list \<Rightarrow> oosb_t option \<times> oosb_t list" where
  "oosb_scan rcvd [] = (None, [])"
| "oosb_scan rcvd (akt # rest) =
     (if oosb_pos akt = rcvd then (Some akt, akt # rest)
      else (case oosb_scan rcvd rest of (found, kept) \<Rightarrow>
        (found, if oosb_pos akt < rcvd then kept else akt # kept)))"

text \<open>The places of the loop: its top, and the labels \<open>nxthdr\<close>, \<open>skip_oosb\<close> and \<open>moredata\<close>.\<close>

datatype rz_pc = RzTop | RzNxthdr | RzHdr | RzMore

type_synonym 's rz_result = "((int + rz_pc \<times> int) \<times> 's) option"

definition rz_received :: "nat \<Rightarrow> 'a lrz_scheme \<Rightarrow> 'a lrz_scheme" where
  "rz_received n s = s\<lparr>zi := (zi s)\<lparr>bytes_received := bytes_received (zi s) + word_of_nat n\<rparr>\<rparr>"

text \<open>\<^verbatim>\<open>putsec\<close> and the count; the result of \<^verbatim>\<open>putsec\<close> is not looked at.\<close>

definition rz_put :: "byte list \<Rightarrow> nat \<Rightarrow> 'a lrz_scheme \<Rightarrow> 'a lrz_scheme" where
  "rz_put buf n s = rz_received n (snd (putsec buf n s))"

definition rz_nxthdr :: "int \<Rightarrow> 'a lrz_scheme \<Rightarrow> 'a lrz_scheme rz_result" where
  "rz_nxthdr n s =
     (case oosb_scan (bytes_received (zi s)) (anker s) of
        (Some akt, kept) \<Rightarrow>
          Some (Inr (RzNxthdr, n), rz_put (oosb_data akt) (length (oosb_data akt)) (s\<lparr>anker := kept\<rparr>))
      | (None, kept) \<Rightarrow> Some (Inr (RzHdr, n), s\<lparr>anker := kept\<rparr>))"

text \<open>\<^verbatim>\<open>zrdata\<close> into \<^verbatim>\<open>secbuf\<close>.\<close>

definition rz_data :: "'a lrz_scheme \<Rightarrow> int \<times> nat \<times> 'a lrz_scheme" where
  "rz_data s =
     (case zrdata MAX_BLOCK s of (c, n, bs, s) \<Rightarrow> (c, n, s\<lparr>secbuf := overwrite bs (secbuf s)\<rparr>))"

text \<open>An attention string to the sender, then from the top.\<close>

definition rz_attn :: "int \<Rightarrow> 'a lrz_scheme \<Rightarrow> 'a lrz_scheme rz_result" where
  "rz_attn n s = map_option (\<lambda>s. (Inr (RzTop, n), s)) (zmputs (c_str (Attn s)) s)"

text \<open>A \<^verbatim>\<open>long\<close> as a \<^verbatim>\<open>size_t\<close>.\<close>

definition long_to_size :: "u32 \<Rightarrow> u64" where
  "long_to_size l = scast l"

definition rz_out_of_sync :: "int \<Rightarrow> 'a lrz_scheme \<Rightarrow> 'a lrz_scheme rz_result" where
  "rz_out_of_sync n s =
     (let pos = long_to_size (rclhdr (Rxhdr s))
      in if n - 1 < 0 then Some (Inl MYERROR, s)
         else (case rz_data s of (c, m, s) \<Rightarrow>
           let s = (if got_end c \<and> pos > bytes_received (zi s)
                    then s\<lparr>anker := \<lparr>oosb_pos = pos, oosb_data = take m (secbuf s)\<rparr> # anker s\<rparr> else s)
           in rz_attn (n - 1) s))"

definition rz_header :: "int \<Rightarrow> 'a lrz_scheme \<Rightarrow> 'a lrz_scheme rz_result" where
  "rz_header n s =
     (case zgethdr s of (c, _, s) \<Rightarrow>
        if c = ZNAK \<or> c = TIMEOUT then
          (if n - 1 < 0 then Some (Inl MYERROR, s)
           else (case rz_data s of (_, _, s) \<Rightarrow> Some (Inr (RzTop, n - 1), s)))
        else if c = ZFILE then (case rz_data s of (_, _, s) \<Rightarrow> Some (Inr (RzTop, n), s))
        else if c = ZEOF then
          (if rclhdr (Rxhdr s) \<noteq> ucast (bytes_received (zi s))
           then Some (Inr (RzNxthdr, n), s\<lparr>errors := 0\<rparr>)
           else map_option (\<lambda>(r, s).
               if r \<noteq> 0 then (Inl MYERROR, s\<lparr>tryzhdrtype := ZFERR\<rparr>) else (Inl ZEOF, s)) (closeit s))
        else if c = MYERROR then
          (if n - 1 < 0 then Some (Inl MYERROR, s) else rz_attn (n - 1) s)
        else if c = ZSKIP then map_option (\<lambda>(_, s). (Inl ZSKIP, s)) (closeit s)
        else if c = ZDATA then
          (if rclhdr (Rxhdr s) \<noteq> ucast (bytes_received (zi s)) then rz_out_of_sync n s
           else Some (Inr (RzMore, n), s))
        else Some (Inl MYERROR, s))"

definition rz_moredata :: "int \<Rightarrow> 'a lrz_scheme \<Rightarrow> 'a lrz_scheme rz_result" where
  "rz_moredata n s =
     (case rz_data s of (c, m, s) \<Rightarrow>
        if c = ZCAN then Some (Inl MYERROR, s)
        else if c = MYERROR then (if n - 1 < 0 then Some (Inl MYERROR, s) else rz_attn (n - 1) s)
        else if c = TIMEOUT then
          (if n - 1 < 0 then Some (Inl MYERROR, s) else Some (Inr (RzTop, n - 1), s))
        else if got_end c then
          (let s = rz_put (secbuf s) m s
           in if c = GOTCRCW then
                (let s = stohdr (unat (bytes_received (zi s))) s
                 in Some (Inr (RzNxthdr, 20), zshhdr (ZACK OR 128) (Txhdr s) s))
              else if c = GOTCRCQ then
                (let s = stohdr (unat (bytes_received (zi s))) s
                 in Some (Inr (RzMore, 20), zshhdr ZACK (Txhdr s) s))
              else if c = GOTCRCG then Some (Inr (RzMore, 20), s)
              else Some (Inr (RzNxthdr, 20), s))
        else Some (Inr (RzTop, n), s))"

definition rz_step :: "rz_pc \<Rightarrow> int \<Rightarrow> 'a lrz_scheme \<Rightarrow> 'a lrz_scheme rz_result" where
  "rz_step pc n s =
     (case pc of
        RzTop \<Rightarrow>
          (let s = stohdr (unat (bytes_received (zi s))) s
           in Some (Inr (RzHdr, n), zshhdr ZRPOS (Txhdr s) s))
      | RzNxthdr \<Rightarrow> rz_nxthdr n s
      | RzHdr \<Rightarrow> rz_header n s
      | RzMore \<Rightarrow> rz_moredata n s)"

partial_function (option) rz_run :: "rz_pc \<Rightarrow> int \<Rightarrow> 'a lrz_scheme \<Rightarrow> (int \<times> 'a lrz_scheme) option" where
  "rz_run pc n s =
     Option.bind (rz_step pc n s) (\<lambda>(r, s').
       case r of Inl c \<Rightarrow> Some (c, s') | Inr (pc', n') \<Rightarrow> rz_run pc' n' s')"

text \<open>\<^verbatim>\<open>rzfile\<close>; the name frame is in \<^verbatim>\<open>secbuf\<close>.\<close>

definition rzfile :: "'a lrz_scheme \<Rightarrow> (int \<times> 'a lrz_scheme) option" where
  "rzfile s =
     Option.bind (procheader (secbuf s) (s\<lparr>zi := (zi s)\<lparr>eof_seen := False\<rparr>\<rparr>)) (\<lambda>(r, s).
       if r = MYERROR then Some (ZSKIP, s\<lparr>tryzhdrtype := ZSKIP\<rparr>) else rz_run RzTop 20 s)"

subsection \<open>Whole sessions (rzfiles, wcreceive, main)\<close>

partial_function (option) rzfiles :: "'a lrz_scheme \<Rightarrow> (int option \<times> 'a lrz_scheme) option" where
  "rzfiles s =
     Option.bind (rzfile s) (\<lambda>(c, s).
       if c = ZEOF \<or> c = ZSKIP then
         (case tryz s of (r, s) \<Rightarrow>
            if r = None then Some (None, s)
            else if r = Some ZCOMPL then Some (Some OK, s)
            else if r = Some ZFILE then rzfiles s
            else Some (Some MYERROR, s))
       else Some (Some c, s))"

text \<open>The jump to \<open>fubar\<close>: the transfer is cancelled and the file is removed.\<close>

definition wc_fubar :: "'a lrz_scheme \<Rightarrow> (int option \<times> 'a lrz_scheme) option" where
  "wc_fubar s =
     (let s = canit s
      in Option.bind (if fout s = None then Some s else fclose s) (\<lambda>s.
           Some (Some MYERROR,
             case Pathname s of
               Some p \<Rightarrow> if Restricted s \<noteq> 0 then unlink p s else s
             | None \<Rightarrow> s)))"

partial_function (option) wc_ymodem :: "'a lrz_scheme \<Rightarrow> (int option \<times> 'a lrz_scheme) option" where
  "wc_ymodem s =
     (case wcrxpn s of (r, s) \<Rightarrow>
        if r = MYERROR then wc_fubar s
        else if secbuf s ! 0 = 0 then Some (Some OK, s)
        else Option.bind (procheader (secbuf s) s) (\<lambda>(r, s).
          if r = MYERROR then wc_fubar s
          else Option.bind (wcrx s) (\<lambda>(r, s).
            if r = MYERROR then wc_fubar s else wc_ymodem s)))"

definition wc_xmodem :: "cstring \<Rightarrow> 'a lrz_scheme \<Rightarrow> (int option \<times> 'a lrz_scheme) option" where
  "wc_xmodem arg s =
     Option.bind (procheader (replicate 128 0) (s\<lparr>zi := (zi s)\<lparr>bytes_total := DEFBYTL\<rparr>\<rparr>)) (\<lambda>(_, s).
       if length arg > PATH_MAX then None
       else
         let s = checkpath arg (s\<lparr>Pathname := Some arg\<rparr>)
         in case fopen arg WB s of
              (None, s) \<Rightarrow> Some (Some MYERROR, s\<lparr>fout := None\<rparr>)
            | (Some f, s) \<Rightarrow>
                Option.bind (wcrx (s\<lparr>fout := Some f\<rparr>)) (\<lambda>(r, s).
                  if r = MYERROR then wc_fubar s else Some (Some OK, s)))"

definition wcreceive :: "cstring option \<Rightarrow> 'a lrz_scheme \<Rightarrow> (int option \<times> 'a lrz_scheme) option" where
  "wcreceive argp s =
     (let s = s\<lparr>zi := zi_init\<rparr>
      in case (if protocol s \<noteq> ZM_XMODEM then None else argp) of
           Some arg \<Rightarrow> wc_xmodem arg s
         | None \<Rightarrow>
             (case tryz (s\<lparr>Crcflg := True\<rparr>) of (r, s) \<Rightarrow>
                if r = None then Some (None, s)
                else if r = Some 0 then wc_ymodem s
                else if r = Some ZCOMPL then Some (Some OK, s)
                else if r = Some MYERROR then wc_fubar s
                else Option.bind (rzfiles s) (\<lambda>(c, s).
                  if c = None then Some (None, s)
                  else if c \<noteq> Some 0 then wc_fubar s else Some (Some OK, s))))"

text \<open>\<^verbatim>\<open>main\<close> with its exit code; the program name is only logged.\<close>

definition lrz_main :: "'a lrz_scheme \<Rightarrow> (int option \<times> 'a lrz_scheme) option" where
  "lrz_main s =
     (let s = s\<lparr>protocol := ZM_ZMODEM, Zctlesc := 1\<rparr>;
          s = zsendline_init s;
          s = (if Restricted s \<noteq> 0 \<and> allow_remote_commands s then s\<lparr>allow_remote_commands := False\<rparr> else s);
          s = readline_setup 255 (flushmo s)
      in Option.bind (wcreceive None s) (\<lambda>(r, s).
           if r = None then Some (None, s)
           else
             let code = (if r = Some MYERROR then 128 else 0);
                 s = (if code \<noteq> 0 then canit s else s);
                 s = flushmo s;
                 s = (if code \<noteq> 0 \<and> \<not> zmodem_requested s then canit s else s)
             in Some (Some code, s)))"

end
