(* ===== verification/Lrz_Transfer.thy ===== *)
theory Lrz_Transfer
  imports Lrz
begin

text \<open>
  What the ZMODEM receiver does with the frames of a sender: the file it writes is the
  file that was sent. Also the loops of the receiver that do not end, and its limits.
\<close>

subsection \<open>Frames of a sender\<close>

text \<open>Some subpackets, each with its data and its end.\<close>

fun zs_blocks :: "(byte list \<times> byte) list \<Rightarrow> 'a zm_scheme \<Rightarrow> 'a zm_scheme option" where
  "zs_blocks [] t = Some t"
| "zs_blocks ((d, fe) # bs) t =
     Option.bind (zs_data (Txfcs32 t) d (word_of_nat (length d)) fe t) (zs_blocks bs)"

text \<open>A frame goes on after ZCRCG and ZCRCQ and ends with ZCRCE or ZCRCW.\<close>

fun frame_ok :: "bool \<Rightarrow> (byte list \<times> byte) list \<Rightarrow> bool" where
  "frame_ok fcs32 [] = False"
| "frame_ok fcs32 ((d, fe) # bs) =
     (length d \<le> MAX_BLOCK \<and> (fcs32 \<or> d \<noteq> [])
      \<and> (if bs = [] then fe \<in> {ZCRCE, ZCRCW} else fe \<in> {ZCRCG, ZCRCQ} \<and> frame_ok fcs32 bs))"

definition frame_xon :: "(byte list \<times> byte) list \<Rightarrow> byte list" where
  "frame_xon bs = (if snd (last bs) = ZCRCW then [XON] else [])"

subsection \<open>A receiver in the middle of a file\<close>

definition rz_ready :: "'b zm_scheme \<Rightarrow> 'a lrz_scheme \<Rightarrow> stream \<Rightarrow> fs_file \<Rightarrow> bool" where
  "rz_ready t s f x \<longleftrightarrow> escapes_for t s \<and> 0 < readline_readnum s \<and> length (Rxhdr s) = 4
     \<and> writing s f x \<and> Thisbinary s \<and> write_ok s \<and> close_ok s \<and> anker s = []
     \<and> bytes_received (zi s) = word_of_nat (length (content x))
     \<and> Suc (Znulls t) < unat (Zrwindow s + Baudrate s)"

lemma rskip_lrz_fields: "\<exists>lb li. rskip n s = s\<lparr>readline_buf := lb, line_in := li\<rparr>"
  by (rule rskip_fields)

lemma zshhdr_fields:
  "zshhdr t h s = s\<lparr>Crc32t := False, obuf := [], wire := wire (zshhdr t h s)\<rparr>"
  by (simp add: zshhdr_def write1_def flushmo_def Let_def split: prod.split)

lemma rz_data_block:
  assumes "escapes_for t s" "0 < readline_readnum s" "subpacket_end fe" "length d \<le> MAX_BLOCK"
    and "fcs32 \<or> d \<noteq> []" "Rxframeind s = ZBIN32 \<longleftrightarrow> fcs32"
    and "zs_data fcs32 d (word_of_nat (length d)) fe t = Some t1" "sent t @ pending s = sent t1 @ rest"
  shows "\<exists>n. rz_data s = (uint fe + 256, length d, (rskip n s)\<lparr>secbuf := overwrite d (secbuf s)\<rparr>)
    \<and> pending (rskip n s) = (if fe = ZCRCW then [XON] else []) @ rest"
proof -
  have len: "unat (word_of_nat (length d) :: u64) = length d"
    using assms(4) by (simp add: unat_of_nat)
  have nz: "fcs32 \<or> 0 < (word_of_nat (length d) :: u64)"
    using assms(4,5) len by (auto simp: word_greater_zero_iff unat_eq_0 [symmetric])
  obtain t' where t': "zs_data fcs32 d (word_of_nat (length d)) fe t = Some t'"
    "\<forall>rest. sent t @ pending s = sent t' @ rest \<longrightarrow>
        (\<exists>n. zrdata MAX_BLOCK s = (uint fe + GOTOR, length d, d, rskip n s)
           \<and> pending (rskip n s) = (if fe = ZCRCW then [XON] else []) @ rest)"
    using zs_data_received [OF assms(1-3), of "word_of_nat (length d)" d MAX_BLOCK fcs32] len nz assms(4,6)
    by auto
  with assms(7,8) obtain n where "zrdata MAX_BLOCK s = (uint fe + GOTOR, length d, d, rskip n s)"
    "pending (rskip n s) = (if fe = ZCRCW then [XON] else []) @ rest" by auto
  then show ?thesis by (auto simp: rz_data_def frame_simps)
qed

text \<open>A state that differs in the output, the counters and the buffers only.\<close>

lemma rz_ready_input:
  assumes "rz_ready t s f x" "s' = s\<lparr>readline_buf := lb, line_in := li\<rparr>"
  shows "rz_ready t s' f x"
  using assms by (simp add: rz_ready_def escapes_for_def writing_def)

lemma rz_put_block:
  assumes "rz_ready t s f x" "secbuf s = overwrite d sb" "length d \<le> length sb \<or> d = []"
  defines "x' \<equiv> x\<lparr>content := content x @ d\<rparr>"
  shows "rz_ready t (rz_put (secbuf s) (length d) s) (stored_at d f x) x'"
    and "rz_put (secbuf s) (length d) s = rz_received (length d) (stored d f x s)"
proof -
  have put: "snd (putsec (secbuf s) (length d) s) = stored d f x s"
  proof (cases "d = []")
    case True
    then show ?thesis by (simp add: putsec_def stored_def)
  next
    case False
    then show ?thesis
      using putsec_binary [of s f x "secbuf s" "length d"] assms by (simp add: rz_ready_def overwrite_def)
  qed
  then show eq: "rz_put (secbuf s) (length d) s = rz_received (length d) (stored d f x s)"
    by (simp add: rz_put_def)
  have "writing (stored d f x s) (stored_at d f x) x'"
    unfolding x'_def using assms(1) by (intro writing_stored) (simp add: rz_ready_def)
  then show "rz_ready t (rz_put (secbuf s) (length d) s) (stored_at d f x) x'"
    unfolding eq using assms(1)
    by (simp add: rz_ready_def rz_received_def stored_def writing_def x'_def escapes_for_def)
qed

lemma ack_frame:
  fixes s :: "'a lrz_scheme" and ty :: int and h :: "byte list" and p :: nat
  defines "s' \<equiv> zshhdr ty h (stohdr p s)"
  shows "rz_ready t s' f x \<longleftrightarrow> rz_ready t s f x" "pending s' = pending s" "Rxframeind s' = Rxframeind s"
    "secbuf s' = secbuf s" "files s' = files s" "zi s' = zi s" "anker s' = anker s" "readline_readnum s' = readline_readnum s"
  unfolding s'_def
  by (subst zshhdr_fields; simp add: rz_ready_def escapes_for_def writing_def stohdr_def pending_def)+

lemma rz_more_block:
  assumes rdy: "rz_ready t s f x" and blk: "subpacket_end fe" "length d \<le> MAX_BLOCK" "Txfcs32 t \<or> d \<noteq> []"
    and fr: "Rxframeind s = ZBIN32 \<longleftrightarrow> Txfcs32 t"
    and snd: "zs_data (Txfcs32 t) d (word_of_nat (length d)) fe t = Some t1" "sent t @ pending s = sent t1 @ rest"
    and sb: "length (secbuf s) = Suc MAX_BLOCK"
  obtains s1 f1 where "rz_moredata n s = Some (Inr (if fe \<in> {ZCRCG, ZCRCQ} then RzMore else RzNxthdr, 20), s1)"
    "rz_ready t s1 f1 (x\<lparr>content := content x @ d\<rparr>)" "path f1 = path f" "Rxframeind s1 = Rxframeind s"
    "pending s1 = (if fe = ZCRCW then [XON] else []) @ rest" "length (secbuf s1) = Suc MAX_BLOCK"
    "files s1 = (files s)(path f \<mapsto> x\<lparr>content := content x @ d\<rparr>)"
proof -
  have "escapes_for t s" "0 < readline_readnum s" using rdy by (simp_all add: rz_ready_def)
  from rz_data_block [OF this blk fr snd] obtain k where
    rd: "rz_data s = (uint fe + 256, length d, (rskip k s)\<lparr>secbuf := overwrite d (secbuf s)\<rparr>)"
    and pend: "pending (rskip k s) = (if fe = ZCRCW then [XON] else []) @ rest" by blast
  define s0 where "s0 = (rskip k s)\<lparr>secbuf := overwrite d (secbuf s)\<rparr>"
  have s0: "rz_ready t s0 f x" "secbuf s0 = overwrite d (secbuf s)"
    using rskip_fields [of k s] rdy by (auto simp: s0_def rz_ready_def escapes_for_def writing_def)
  define s1 where "s1 = rz_received (length d) (stored d f x s0)"
  have put: "rz_put (secbuf s0) (length d) s0 = s1" "rz_ready t s1 (stored_at d f x) (x\<lparr>content := content x @ d\<rparr>)"
    using rz_put_block [OF s0] blk(2) sb unfolding s1_def by simp_all
  have s1: "pending s1 = (if fe = ZCRCW then [XON] else []) @ rest" "Rxframeind s1 = Rxframeind s"
    "length (secbuf s1) = Suc MAX_BLOCK" "files s1 = (files s)(path f \<mapsto> x\<lparr>content := content x @ d\<rparr>)"
  proof -
    have "pending s1 = pending s0" by (simp add: s1_def rz_received_def stored_def pending_def)
    then show "pending s1 = (if fe = ZCRCW then [XON] else []) @ rest"
      using pend by (simp add: s0_def frame_simps)
    show "Rxframeind s1 = Rxframeind s" "length (secbuf s1) = Suc MAX_BLOCK"
      using sb blk(2) by (simp_all add: s1_def s0_def rz_received_def stored_def frame_simps overwrite_def)
    have "files s0 = files s" using rskip_fields [of k s] by (auto simp: s0_def)
    moreover have "files s (path f) = Some x" using rdy by (simp add: rz_ready_def writing_def)
    ultimately show "files s1 = (files s)(path f \<mapsto> x\<lparr>content := content x @ d\<rparr>)"
      by (auto simp: s1_def rz_received_def stored_def)
  qed
  note end_val = subpacket_end_value [OF blk(1)]
  define s2 where "s2 = (if fe = ZCRCW then zshhdr (ZACK OR 128) (Txhdr (stohdr (unat (bytes_received (zi s1))) s1))
      (stohdr (unat (bytes_received (zi s1))) s1)
    else if fe = ZCRCQ then zshhdr ZACK (Txhdr (stohdr (unat (bytes_received (zi s1))) s1))
      (stohdr (unat (bytes_received (zi s1))) s1) else s1)"
  have "rz_moredata n s = Some (Inr (if fe \<in> {ZCRCG, ZCRCQ} then RzMore else RzNxthdr, 20), s2)"
    using blk(1) unfolding rz_moredata_def rd s0_def [symmetric] prod.case
    by (auto simp: subpacket_end_def got_end_def put(1) s2_def Let_def)
  then show thesis
    using put(2) s1 by (intro that [of s2 "stored_at d f x"]) (simp_all add: s2_def ack_frame)
qed

lemma rz_ready_cfg: "sender_cfg t' = sender_cfg t \<Longrightarrow> rz_ready t' s f x = rz_ready t s f x"
  using escapes_for_cfg [of t' t s] by (simp add: rz_ready_def) (simp add: sender_cfg_def)

lemma rz_run_step: "rz_step pc n s = Some (Inr (pc', n'), s') \<Longrightarrow> rz_run pc n s = rz_run pc' n' s'"
  by (subst rz_run.simps) simp

lemma zs_blocks_extends:
  assumes "zs_blocks bs t = Some t'" "frame_ok (Txfcs32 t) bs" "escapes_for t r"
  shows "\<exists>e. sent t' = sent t @ e" "sender_cfg t' = sender_cfg t"
proof -
  have "(\<exists>e. sent t' = sent t @ e) \<and> sender_cfg t' = sender_cfg t"
    using assms
  proof (induction bs arbitrary: t)
    case (Cons b bs)
    obtain d fe where b: "b = (d, fe)" by fastforce
    obtain t1 where t1: "zs_data (Txfcs32 t) d (word_of_nat (length d)) fe t = Some t1" "zs_blocks bs t1 = Some t'"
      using Cons.prems(1) b by (auto simp: bind_eq_Some_conv)
    have cfg: "sender_cfg t1 = sender_cfg t" using sender_cfg_zs_data [OF t1(1)] .
    then have fcs: "Txfcs32 t1 = Txfcs32 t" by (simp add: sender_cfg_def)
    obtain e where e: "sent t1 = sent t @ e"
      using zs_data_extends [OF Cons.prems(3) t1(1)] Cons.prems(2) b by auto
    show ?case
    proof (cases "bs = []")
      case True
      with t1(2) e cfg show ?thesis by simp
    next
      case False
      with Cons.IH [OF t1(2)] Cons.prems(2,3) b fcs e escapes_for_cfg [OF cfg, of r] cfg
      show ?thesis by auto
    qed
  qed simp
  then show "\<exists>e. sent t' = sent t @ e" "sender_cfg t' = sender_cfg t" by simp_all
qed

text \<open>The subpackets of a frame: the receiver ends up at the label \<open>nxthdr\<close>.\<close>

lemma rz_run_blocks:
  assumes "rz_ready t s f x" "frame_ok (Txfcs32 t) bs" "Rxframeind s = ZBIN32 \<longleftrightarrow> Txfcs32 t"
    and "zs_blocks bs t = Some t'" "sent t @ pending s = sent t' @ rest" "length (secbuf s) = Suc MAX_BLOCK"
  shows "\<exists>s1 f1. rz_run RzMore n s = rz_run RzNxthdr 20 s1
    \<and> rz_ready t s1 f1 (x\<lparr>content := content x @ concat (map fst bs)\<rparr>) \<and> path f1 = path f
    \<and> pending s1 = frame_xon bs @ rest \<and> length (secbuf s1) = Suc MAX_BLOCK"
  using assms
proof (induction bs arbitrary: t s f x n)
  case (Cons b bs)
  obtain d fe where b: "b = (d, fe)" by fastforce
  obtain t1 where t1: "zs_data (Txfcs32 t) d (word_of_nat (length d)) fe t = Some t1" "zs_blocks bs t1 = Some t'"
    using Cons.prems(4) b by (auto simp: bind_eq_Some_conv)
  have cfg: "sender_cfg t1 = sender_cfg t" using sender_cfg_zs_data [OF t1(1)] .
  then have fcs: "Txfcs32 t1 = Txfcs32 t" by (simp add: sender_cfg_def)
  have esc: "escapes_for t1 s" using Cons.prems(1) escapes_for_cfg [OF cfg, of s] by (simp add: rz_ready_def)
  have blk: "subpacket_end fe" "length d \<le> MAX_BLOCK" "Txfcs32 t \<or> d \<noteq> []"
    using Cons.prems(2) b by (auto simp: subpacket_end_def split: if_splits)
  obtain e where e: "sent t' = sent t1 @ e"
    using zs_blocks_extends(1) [OF t1(2) _ esc] t1(2) Cons.prems(2) b fcs by (cases "bs = []") auto
  then have snd: "sent t @ pending s = sent t1 @ e @ rest" using Cons.prems(5) by simp
  obtain s1 f1 where s1: "rz_moredata n s = Some (Inr (if fe \<in> {ZCRCG, ZCRCQ} then RzMore else RzNxthdr, 20), s1)"
    "rz_ready t s1 f1 (x\<lparr>content := content x @ d\<rparr>)" "path f1 = path f" "Rxframeind s1 = Rxframeind s"
    "pending s1 = (if fe = ZCRCW then [XON] else []) @ e @ rest" "length (secbuf s1) = Suc MAX_BLOCK"
    using rz_more_block [OF Cons.prems(1) blk Cons.prems(3) t1(1) snd Cons.prems(6)] by metis
  have run: "rz_run RzMore n s = rz_run (if fe \<in> {ZCRCG, ZCRCQ} then RzMore else RzNxthdr) 20 s1"
    using s1(1) by (intro rz_run_step) (simp add: rz_step_def)
  show ?case
  proof (cases "bs = []")
    case True
    then have "fe \<in> {ZCRCE, ZCRCW}" "t' = t1" using Cons.prems(2) b t1(2) by auto
    with True s1 run e b show ?thesis
      by (intro exI [of _ s1] exI [of _ f1]) (auto simp: frame_xon_def)
  next
    case False
    then have fe: "fe \<in> {ZCRCG, ZCRCQ}" "frame_ok (Txfcs32 t1) bs" using Cons.prems(2) b fcs by auto
    have "\<exists>s2 f2. rz_run RzMore 20 s1 = rz_run RzNxthdr 20 s2
      \<and> rz_ready t1 s2 f2 (x\<lparr>content := content x @ d\<rparr>
            \<lparr>content := content (x\<lparr>content := content x @ d\<rparr>) @ concat (map fst bs)\<rparr>) \<and> path f2 = path f1
      \<and> pending s2 = frame_xon bs @ rest \<and> length (secbuf s2) = Suc MAX_BLOCK"
    proof (rule Cons.IH [OF _ fe(2) _ t1(2) _ s1(6)])
      show "rz_ready t1 s1 f1 (x\<lparr>content := content x @ d\<rparr>)" using s1(2) by (simp add: rz_ready_cfg [OF cfg])
      show "(Rxframeind s1 = ZBIN32) = Txfcs32 t1" using s1(4) Cons.prems(3) fcs by simp
      show "sent t1 @ pending s1 = sent t' @ rest" using s1(5) fe(1) e by auto
    qed
    then show ?thesis
      using run fe(1) s1(3) b False by (auto simp: rz_ready_cfg [OF cfg] frame_xon_def)
  qed
qed simp

text \<open>A header for this receiver, after at most one XON.\<close>

lemma rz_get_header:
  assumes "rz_ready t s f x" "0 \<le> type" "type < 256" "gs \<in> {[], [XON]}" "length hdr = 4"
    and "sent t @ pending s = sent t @ gs @ drop (length (sent t)) (sent (zsbhdr type hdr t)) @ rest"
  shows "\<exists>s1. zgethdr s = (type, Some (rx_position hdr), s1) \<and> rz_ready t s1 f x \<and> pending s1 = rest
    \<and> Rxhdr s1 = hdr \<and> Rxframeind s1 = (if Txfcs32 t then ZBIN32 else ZBIN)
    \<and> secbuf s1 = secbuf s \<and> files s1 = files s \<and> zi s1 = zi s"
proof -
  note r = assms(1) [unfolded rz_ready_def]
  have "\<exists>n. zgethdr s = (type, Some (rx_position hdr),
      got_header (if Txfcs32 t then ZBIN32 else ZBIN) type hdr (rskip n s)) \<and> pending (rskip n s) = rest"
    using r assms by (intro zsbhdr_received) (auto simp: garbage_def)
  then obtain n where n: "zgethdr s = (type, Some (rx_position hdr),
      got_header (if Txfcs32 t then ZBIN32 else ZBIN) type hdr (rskip n s))" "pending (rskip n s) = rest" by blast
  obtain lb li where sk: "rskip n s = s\<lparr>readline_buf := lb, line_in := li\<rparr>" using rskip_fields by blast
  show ?thesis
    using n r assms(5)
    by (simp add: sk got_header_def rz_ready_def escapes_for_def writing_def pending_def)
qed

text \<open>One frame: a header with the position, then subpackets.\<close>

definition zs_frame :: "nat \<Rightarrow> (byte list \<times> byte) list \<Rightarrow> 'a zm_scheme \<Rightarrow> 'a zm_scheme option" where
  "zs_frame p bs t = zs_blocks bs (zsbhdr ZDATA (hdr_of (word_of_nat p)) t)"

text \<open>All frames of a file and the ZEOF header.\<close>

fun zs_file :: "nat \<Rightarrow> (byte list \<times> byte) list list \<Rightarrow> 'a zm_scheme \<Rightarrow> 'a zm_scheme option" where
  "zs_file p [] t = Some (zsbhdr ZEOF (hdr_of (word_of_nat p)) t)"
| "zs_file p (bs # fs) t =
     Option.bind (zs_frame p bs t) (zs_file (p + length (concat (map fst bs))) fs)"

lemma zsbhdr_extends: "escapes_for t r \<Longrightarrow> 0 \<le> type \<Longrightarrow> type < 256 \<Longrightarrow> \<exists>e. sent (zsbhdr type hdr t) = sent t @ e"
  using zsbhdr_sent [of type t hdr] escapes_for_tab_ok by auto

lemma zs_frame_extends:
  assumes "zs_frame p bs t = Some t'" "frame_ok (Txfcs32 t) bs" "escapes_for t r"
  shows "\<exists>e. sent t' = sent (zsbhdr ZDATA (hdr_of (word_of_nat p)) t) @ e" "sender_cfg t' = sender_cfg t"
    "\<exists>e. sent t' = sent t @ e"
proof -
  define t1 where "t1 = zsbhdr ZDATA (hdr_of (word_of_nat p)) t"
  have cfg: "sender_cfg t1 = sender_cfg t" by (simp add: t1_def sender_cfg_zsbhdr)
  then have "Txfcs32 t1 = Txfcs32 t" by (simp add: sender_cfg_def)
  moreover obtain e0 where "sent t1 = sent t @ e0"
    using zsbhdr_extends [OF assms(3), of ZDATA "hdr_of (word_of_nat p)"] by (auto simp: t1_def)
  ultimately show "\<exists>e. sent t' = sent (zsbhdr ZDATA (hdr_of (word_of_nat p)) t) @ e" "sender_cfg t' = sender_cfg t"
    "\<exists>e. sent t' = sent t @ e"
    using zs_blocks_extends [of bs t1 t' r] assms escapes_for_cfg [OF cfg, of r] cfg
    by (auto simp: zs_frame_def t1_def [symmetric])
qed

lemma zs_file_extends:
  assumes "zs_file p fs t = Some t'" "\<forall>bs \<in> set fs. frame_ok (Txfcs32 t) bs" "escapes_for t r"
  shows "\<exists>e. sent t' = sent t @ e"
  using assms
proof (induction fs arbitrary: p t)
  case Nil
  then show ?case using zsbhdr_extends [of t r ZEOF "hdr_of (word_of_nat p)"] by auto
next
  case (Cons bs fs)
  then obtain t1 where t1: "zs_frame p bs t = Some t1" "zs_file (p + length (concat (map fst bs))) fs t1 = Some t'"
    by (auto simp: bind_eq_Some_conv)
  have f: "sender_cfg t1 = sender_cfg t" "\<exists>e. sent t1 = sent t @ e"
    using zs_frame_extends [OF t1(1)] Cons.prems(2,3) by auto
  then have "Txfcs32 t1 = Txfcs32 t" by (simp add: sender_cfg_def)
  with Cons.IH [OF t1(2)] Cons.prems f escapes_for_cfg [OF f(1), of r] show ?case by auto
qed

lemma ucast_received: "(ucast (word_of_nat n :: u64) :: u32) = word_of_nat n"
  by transfer (simp add: take_bit_of_nat)

lemma rz_nxthdr_empty: "anker s = [] \<Longrightarrow> rz_run RzNxthdr n s = rz_run RzHdr n s"
  by (rule rz_run_step) (simp add: rz_step_def rz_nxthdr_def)

lemma rz_run_frame:
  assumes rdy: "rz_ready t s f x" and fr: "frame_ok (Txfcs32 t) bs" and gs: "gs \<in> {[], [XON]}"
    and z: "zs_frame (length (content x)) bs t = Some t'" "sent t @ pending s = sent t @ gs @ drop (length (sent t)) (sent t') @ rest"
    and sb: "length (secbuf s) = Suc MAX_BLOCK"
  shows "\<exists>s1 f1. rz_run RzHdr n s = rz_run RzHdr 20 s1
    \<and> rz_ready t s1 f1 (x\<lparr>content := content x @ concat (map fst bs)\<rparr>) \<and> path f1 = path f
    \<and> pending s1 = frame_xon bs @ rest \<and> length (secbuf s1) = Suc MAX_BLOCK"
proof -
  define h where "h = hdr_of (word_of_nat (length (content x)))"
  define t1 where "t1 = zsbhdr ZDATA h t"
  have cfg: "sender_cfg t1 = sender_cfg t" by (simp add: t1_def sender_cfg_zsbhdr)
  then have fcs: "Txfcs32 t1 = Txfcs32 t" by (simp add: sender_cfg_def)
  have esc: "escapes_for t s" using rdy by (simp add: rz_ready_def)
  obtain e0 where e0: "sent t1 = sent t @ e0"
    using zsbhdr_extends [OF esc, of ZDATA h] by (auto simp: t1_def)
  obtain e where e: "sent t' = sent t1 @ e"
    using zs_frame_extends(1) [OF z(1) fr esc] by (auto simp: t1_def h_def)
  have pend: "sent t @ pending s = sent t @ gs @ drop (length (sent t)) (sent (zsbhdr ZDATA h t)) @ e @ rest"
    using z(2) e e0 by (simp add: t1_def)
  have "length h = 4" by (simp add: h_def hdr_of_def)
  from rz_get_header [OF rdy _ _ gs this pend] obtain s1 where
    s1: "zgethdr s = (ZDATA, Some (rx_position h), s1)" "rz_ready t s1 f x" "pending s1 = e @ rest" "Rxhdr s1 = h"
    "Rxframeind s1 = (if Txfcs32 t then ZBIN32 else ZBIN)" "secbuf s1 = secbuf s" by auto
  have "bytes_received (zi s1) = word_of_nat (length (content x))" using s1(2) by (simp add: rz_ready_def)
  then have "rz_run RzHdr n s = rz_run RzMore n s1"
    using s1(1,4) by (intro rz_run_step) (simp add: rz_step_def rz_header_def h_def ucast_received)
  moreover have "\<exists>s2 f1. rz_run RzMore n s1 = rz_run RzNxthdr 20 s2
    \<and> rz_ready t1 s2 f1 (x\<lparr>content := content x @ concat (map fst bs)\<rparr>) \<and> path f1 = path f
    \<and> pending s2 = frame_xon bs @ rest \<and> length (secbuf s2) = Suc MAX_BLOCK"
  proof (rule rz_run_blocks)
    show "zs_blocks bs t1 = Some t'" using z(1) by (simp add: zs_frame_def t1_def h_def)
  qed (use s1 fr sb e cfg fcs in \<open>simp_all add: rz_ready_cfg [OF cfg]\<close>)
  then obtain s2 f1 where s2: "rz_run RzMore n s1 = rz_run RzNxthdr 20 s2"
    "rz_ready t s2 f1 (x\<lparr>content := content x @ concat (map fst bs)\<rparr>)" "path f1 = path f"
    "pending s2 = frame_xon bs @ rest" "length (secbuf s2) = Suc MAX_BLOCK"
    by (auto simp: rz_ready_cfg [OF cfg])
  moreover have "anker s2 = []" using s2(2) by (simp add: rz_ready_def)
  ultimately show ?thesis by (intro exI [of _ s2] exI [of _ f1]) (simp add: rz_nxthdr_empty)
qed

lemma closeit_pending: "closeit s = Some (r, s') \<Longrightarrow> pending s' = pending s"
  by (auto simp: closeit_def fclose_def Let_def set_attrs_def unlink_def pending_def split: option.splits if_splits)

lemma rz_run_eof:
  assumes "rz_ready t s f x" "gs \<in> {[], [XON]}"
    and "sent t @ pending s = sent t @ gs
      @ drop (length (sent t)) (sent (zsbhdr ZEOF (hdr_of (word_of_nat (length (content x)))) t)) @ rest"
  shows "\<exists>s'. rz_run RzHdr n s = Some (ZEOF, s')
    \<and> map_option content (files s' (path f)) = Some (content x) \<and> pending s' = rest"
proof -
  define h where "h = hdr_of (word_of_nat (length (content x)))"
  have "length h = 4" by (simp add: h_def hdr_of_def)
  from rz_get_header [OF assms(1) _ _ assms(2) this, of ZEOF rest] assms(3) obtain s1 where
    s1: "zgethdr s = (ZEOF, Some (rx_position h), s1)" "rz_ready t s1 f x" "pending s1 = rest" "Rxhdr s1 = h"
    by (auto simp: h_def)
  then have r: "bytes_received (zi s1) = word_of_nat (length (content x))" "fout s1 = Some f" "is_open f"
    "close_ok s1" "files s1 (path f) = Some x"
    by (simp_all add: rz_ready_def writing_def)
  obtain s2 where s2: "closeit s1 = Some (OK, s2)" "\<forall>p. map_option content (files s2 p) = map_option content (files s1 p)"
    using closeit_content [OF r(2-4)] by blast
  have "rz_step RzHdr n s = Some (Inl ZEOF, s2)"
    using s1(1,4) r(1) s2(1) by (simp add: rz_step_def rz_header_def h_def ucast_received)
  then have "rz_run RzHdr n s = Some (ZEOF, s2)" by (subst rz_run.simps) simp
  with s2(2) [rule_format, of "path f"] r(5) closeit_pending [OF s2(1)] s1(3)
  show ?thesis by (intro exI [of _ s2]) simp
qed

lemma rz_run_file:
  assumes "rz_ready t s f x" "\<forall>bs \<in> set fs. frame_ok (Txfcs32 t) bs" "gs \<in> {[], [XON]}"
    and "zs_file (length (content x)) fs t = Some t'"
    and "sent t @ pending s = sent t @ gs @ drop (length (sent t)) (sent t') @ rest"
    and "length (secbuf s) = Suc MAX_BLOCK"
  shows "\<exists>s'. rz_run RzHdr n s = Some (ZEOF, s')
    \<and> map_option content (files s' (path f)) = Some (content x @ concat (map fst (concat fs)))
    \<and> pending s' = rest"
  using assms
proof (induction fs arbitrary: t s f x gs n)
  case Nil
  then show ?case using rz_run_eof [of t s f x gs rest n] by auto
next
  case (Cons bs fs)
  have esc: "escapes_for t s" using Cons.prems(1) by (simp add: rz_ready_def)
  obtain t1 where t1: "zs_frame (length (content x)) bs t = Some t1"
    "zs_file (length (content x) + length (concat (map fst bs))) fs t1 = Some t'"
    using Cons.prems(4) by (auto simp: bind_eq_Some_conv)
  have cfg: "sender_cfg t1 = sender_cfg t" and ext: "\<exists>e. sent t1 = sent t @ e"
    using zs_frame_extends [OF t1(1) _ esc] Cons.prems(2) by auto
  then obtain e1 where e1: "sent t1 = sent t @ e1" by blast
  have fcs: "Txfcs32 t1 = Txfcs32 t" using cfg by (simp add: sender_cfg_def)
  obtain e2 where e2: "sent t' = sent t1 @ e2"
    using zs_file_extends [OF t1(2)] Cons.prems(2) fcs esc escapes_for_cfg [OF cfg, of s] by auto
  have "sent t @ pending s = sent t @ gs @ drop (length (sent t)) (sent t1) @ e2 @ rest"
    using Cons.prems(5) e1 e2 by simp
  with rz_run_frame [OF Cons.prems(1) _ Cons.prems(3) t1(1) _ Cons.prems(6), of "e2 @ rest" n] Cons.prems(2)
  obtain s1 f1 where s1: "rz_run RzHdr n s = rz_run RzHdr 20 s1"
    "rz_ready t s1 f1 (x\<lparr>content := content x @ concat (map fst bs)\<rparr>)" "path f1 = path f"
    "pending s1 = frame_xon bs @ e2 @ rest" "length (secbuf s1) = Suc MAX_BLOCK" by auto
  define x1 where "x1 = x\<lparr>content := content x @ concat (map fst bs)\<rparr>"
  have "\<exists>s'. rz_run RzHdr 20 s1 = Some (ZEOF, s')
    \<and> map_option content (files s' (path f1)) = Some (content x1 @ concat (map fst (concat fs)))
    \<and> pending s' = rest"
  proof (rule Cons.IH [where t = t1 and gs = "frame_xon bs", OF _ _ _ _ _ s1(5)])
    show "rz_ready t1 s1 f1 x1" using s1(2) by (simp add: x1_def rz_ready_cfg [OF cfg])
    show "zs_file (length (content x1)) fs t1 = Some t'" using t1(2) by (simp add: x1_def)
  qed (use Cons.prems(2) fcs s1(4) e2 in \<open>auto simp: frame_xon_def\<close>)
  then show ?case using s1(1,3) by (simp add: x1_def)
qed

lemma zs_data_some:
  assumes "escapes_for t r" "length d \<le> MAX_BLOCK" "fcs32 \<or> d \<noteq> []"
  shows "\<exists>t'. zs_data fcs32 d (word_of_nat (length d)) fe t = Some t'"
proof -
  have len: "unat (word_of_nat (length d) :: u64) = length d" using assms(2) by (simp add: unat_of_nat)
  have nz: "fcs32 \<or> 0 < (word_of_nat (length d) :: u64)"
    using assms(3) len by (auto simp: word_greater_zero_iff unat_eq_0 [symmetric])
  from zs_data_sent [OF assms(1) _ nz, of d fe] len show ?thesis by auto
qed

lemma zs_blocks_some: "escapes_for t r \<Longrightarrow> frame_ok (Txfcs32 t) bs \<Longrightarrow> \<exists>t'. zs_blocks bs t = Some t'"
proof (induction bs arbitrary: t)
  case (Cons b bs)
  obtain d fe where b: "b = (d, fe)" by fastforce
  obtain t1 where t1: "zs_data (Txfcs32 t) d (word_of_nat (length d)) fe t = Some t1"
    using zs_data_some [OF Cons.prems(1), of d "Txfcs32 t" fe] Cons.prems(2) b by auto
  note cfg = sender_cfg_zs_data [OF t1]
  then have "Txfcs32 t1 = Txfcs32 t" by (simp add: sender_cfg_def)
  with Cons.IH [of t1] Cons.prems b t1 escapes_for_cfg [OF cfg, of r] show ?case
    by (cases "bs = []") auto
qed simp

lemma zs_file_some:
  assumes "escapes_for t r" "\<forall>bs \<in> set fs. frame_ok (Txfcs32 t) bs"
  shows "\<exists>t'. zs_file p fs t = Some t'"
  using assms
proof (induction fs arbitrary: p t)
  case (Cons bs fs)
  define t0 where "t0 = zsbhdr ZDATA (hdr_of (word_of_nat p)) t"
  have cfg0: "sender_cfg t0 = sender_cfg t" by (simp add: t0_def sender_cfg_zsbhdr)
  then have "Txfcs32 t0 = Txfcs32 t" by (simp add: sender_cfg_def)
  then obtain t1 where t1: "zs_frame p bs t = Some t1"
    using zs_blocks_some [of t0 r bs] Cons.prems escapes_for_cfg [OF cfg0, of r]
    by (auto simp: zs_frame_def t0_def [symmetric])
  have cfg: "sender_cfg t1 = sender_cfg t" using zs_frame_extends(2) [OF t1 _ Cons.prems(1)] Cons.prems(2) by simp
  then have "Txfcs32 t1 = Txfcs32 t" by (simp add: sender_cfg_def)
  with Cons.IH [of t1] Cons.prems t1 escapes_for_cfg [OF cfg, of r] show ?case by simp
qed simp

subsection \<open>A whole file\<close>

text \<open>
  A ZFILE frame for a new file is in \<^verbatim>\<open>secbuf\<close>: the name, the file information, and what a
  header leaves in the flags when the sender asks for a binary transfer only.
\<close>

definition offered :: "cstring \<Rightarrow> cstring \<Rightarrow> 'a lrz_scheme \<Rightarrow> bool" where
  "offered name info s \<longleftrightarrow>
     (\<exists>pad. secbuf s = name @ 0 # info @ 0 # pad) \<and> length (secbuf s) = Suc MAX_BLOCK
     \<and> 0 \<notin> set name \<and> 0 \<notin> set info \<and> name \<noteq> [] \<and> info \<noteq> [] \<and> length name < 2 * PATH_MAX
     \<and> hd name \<noteq> dot \<and> \<not> strstr name [dot, dot, slash] \<and> Restricted s = 1
     \<and> \<not> junk_path s \<and> Lzmanag s = 0 \<and> zconv s = ZCBIN \<and> zmanag s = 0 \<and> \<not> try_resume s
     \<and> \<not> skip_if_not_found s \<and> \<not> Nflag s \<and> protocol s = ZM_ZMODEM \<and> zmodem_requested s
     \<and> files s name = None \<and> may_create s name \<and> parent_ok s name
     \<and> bytes_skipped (zi s) = 0 \<and> anker s = [] \<and> write_ok s \<and> close_ok s"

lemma parent_ok_fields [simp]:
  "parent_ok (s\<lparr>zi := z\<rparr>) p = parent_ok s p" "parent_ok (s\<lparr>fout := fo\<rparr>) p = parent_ok s p"
  "parent_ok (s\<lparr>Pathname := n\<rparr>) p = parent_ok s p" "parent_ok (s\<lparr>Thisbinary := b\<rparr>) p = parent_ok s p"
  by (simp_all add: parent_ok_def split: option.split)

lemma ph_info_new:
  "c_str e \<noteq> [] \<Longrightarrow> Thisbinary s \<Longrightarrow> \<exists>z. ph_info e s = s\<lparr>zi := z, Thisbinary := True\<rparr> \<and> bytes_skipped z = bytes_skipped (zi s)"
  by (auto simp: ph_info_def Let_def split: prod.split)

lemma procheader_new:
  assumes "offered name info s"
  shows "\<exists>z. procheader (secbuf s) s = Some (OK, s\<lparr>Thisbinary := True, zi := z, Pathname := Some name,
      fout := Some \<lparr>path = name, pos = 0, at_end = False, is_open = True\<rparr>,
      files := (files s)(name \<mapsto> empty_file)\<rparr>) \<and> bytes_received z = 0"
proof -
  note o = assms [unfolded offered_def]
  obtain pad where pad: "secbuf s = name @ 0 # info @ 0 # pad" using o by blast
  have flags: "ph_flags (s\<lparr>zi := z\<rparr>) = (WB, s\<lparr>zi := z, Thisbinary := True\<rparr>)" for z
    using o by (simp add: ph_flags_def Let_def)
  obtain z where z: "ph_info (info @ 0 # pad) (s\<lparr>zi := (zi s)\<lparr>fname := name\<rparr>, Thisbinary := True\<rparr>)
      = s\<lparr>zi := z, Thisbinary := True\<rparr>" "bytes_skipped z = 0"
    using ph_info_new [of "info @ 0 # pad" "s\<lparr>zi := (zi s)\<lparr>fname := name\<rparr>, Thisbinary := True\<rparr>"] o
    by (auto simp: c_str_append)
  obtain fo where exists: "ph_exists name (s\<lparr>zi := z, Thisbinary := True\<rparr>)
      = Some (Inr name, s\<lparr>zi := z, Thisbinary := True, fout := fo\<rparr>)"
  proof (cases "Rxclob s")
    case True
    then show thesis using that [of "fout s"] by (simp add: ph_exists_def)
  next
    case False
    then show thesis using that [of None] o by (simp add: ph_exists_def fopen_def)
  qed
  have check: "checkpath name t = t" if "Restricted t = 1" for t :: "'a lrz_scheme"
    using o that by (simp add: checkpath_def)
  show ?thesis
    using o z(2) unfolding procheader_def pad
    by (intro exI [of _ "z\<lparr>fname := name, bytes_received := 0\<rparr>"])
      (simp add: c_str_append after_nul_append flags z(1) exists Let_def ph_name_def check ph_open_def fopen_def)
qed

text \<open>
  Claim C1: a ZMODEM transfer. A ZFILE frame offers a new file under a name that stays in
  the current directory tree, and then the line delivers what a sender sends for a file:
  any number of ZDATA frames, each a header with the position and subpackets of up to 8192
  bytes with 16 or 32 bit checks, and the ZEOF header. Then \<^verbatim>\<open>rzfile\<close> returns ZEOF, the file
  holds exactly the data of the subpackets, and what follows on the line is still there.
\<close>

theorem rzfile_receives:
  assumes "offered name info s" "escapes_for t s" "0 < readline_readnum s" "length (Rxhdr s) = 4"
    and "Suc (Znulls t) < unat (Zrwindow s + Baudrate s)"
    and "\<forall>bs \<in> set fs. frame_ok (Txfcs32 t) bs" "zs_file 0 fs t = Some t'"
    and "pending s = drop (length (sent t)) (sent t') @ rest"
  shows "\<exists>s'. rzfile s = Some (ZEOF, s')
    \<and> map_option content (files s' name) = Some (concat (map fst (concat fs))) \<and> pending s' = rest"
proof -
  define f where "f = \<lparr>path = name, pos = 0, at_end = False, is_open = True\<rparr>"
  define s0 where "s0 = s\<lparr>zi := (zi s)\<lparr>eof_seen := False\<rparr>\<rparr>"
  have "offered name info s0" using assms(1) by (simp add: s0_def offered_def)
  from procheader_new [OF this] obtain z where
    ph: "procheader (secbuf s) s0 = Some (OK, s0\<lparr>Thisbinary := True, zi := z, Pathname := Some name,
      fout := Some f, files := (files s0)(name \<mapsto> empty_file)\<rparr>)" "bytes_received z = 0"
    by (auto simp: f_def s0_def)
  define s1 where "s1 = s0\<lparr>Thisbinary := True, zi := z, Pathname := Some name,
      fout := Some f, files := (files s0)(name \<mapsto> empty_file)\<rparr>"
  define s2 where "s2 = zshhdr ZRPOS (Txhdr (stohdr 0 s1)) (stohdr 0 s1)"
  have s1: "rz_ready t s1 f empty_file" "pending s1 = pending s" "secbuf s1 = secbuf s"
    using assms ph(2)
    by (simp_all add: s1_def s0_def f_def rz_ready_def offered_def writing_def empty_file_def escapes_for_def pending_def)
  have "rzfile s = rz_run RzTop 20 s1" using ph(1) by (simp add: rzfile_def s0_def [symmetric] s1_def)
  also have "\<dots> = rz_run RzHdr 20 s2"
    using ph(2) by (intro rz_run_step) (simp add: rz_step_def s2_def s1_def Let_def)
  finally have run: "rzfile s = rz_run RzHdr 20 s2" .
  have s2: "rz_ready t s2 f empty_file" "pending s2 = pending s" "secbuf s2 = secbuf s"
    using s1 by (simp_all add: s2_def ack_frame)
  have "\<exists>s'. rz_run RzHdr 20 s2 = Some (ZEOF, s')
    \<and> map_option content (files s' (path f)) = Some (content empty_file @ concat (map fst (concat fs)))
    \<and> pending s' = rest"
    using assms s2 by (intro rz_run_file [where gs = "[]"]) (simp_all add: empty_file_def offered_def)
  then show ?thesis using run by (simp add: f_def empty_file_def)
qed

definition rx_offer_example :: "byte list \<Rightarrow> lrz" where
  "rx_offer_example bs = lrz_init\<lparr>line_in := [bs], Zctlesc := 1, secbuf := [97, 0, 51, 0] @ replicate 8189 0,
     zconv := ZCBIN, protocol := ZM_ZMODEM, zmodem_requested := True\<rparr>"

lemma rx_offer_simps [simp]:
  "offered [97] [51] (rx_offer_example bs)" "escapes_for (tx_example b) (rx_offer_example bs)"
  "0 < readline_readnum (rx_offer_example bs)" "length (Rxhdr (rx_offer_example bs)) = 4"
  "Zrwindow (rx_offer_example bs) = 1400" "Baudrate (rx_offer_example bs) = 2400"
  "pending (rx_offer_example bs) = bs"
  by (simp_all add: rx_offer_example_def lrz_init_def zi_init_def offered_def strstr_def parent_ok_def dir_of_def
      escapes_for_def tx_example_def zsendline_init_def zm_init_def pending_def)

theorem rzfile_receives_witness:
  "\<exists>t' s'. zs_file 0 [[([72, 105], ZCRCG), ([33], ZCRCE)]] (tx_example True) = Some t'
     \<and> rzfile (rx_offer_example (sent t')) = Some (ZEOF, s')
     \<and> map_option content (files s' [97]) = Some [72, 105, 33]"
proof -
  let ?fs = "[[([72, 105 :: byte], ZCRCG :: byte), ([33], ZCRCE)]]"
  have ok: "\<forall>bs \<in> set ?fs. frame_ok (Txfcs32 (tx_example True)) bs" by simp
  obtain t' where t': "zs_file 0 ?fs (tx_example True) = Some t'"
    using zs_file_some [OF _ ok, of "rx_offer_example []" 0] by auto
  have "\<exists>s'. rzfile (rx_offer_example (sent t')) = Some (ZEOF, s')
    \<and> map_option content (files s' [97]) = Some (concat (map fst (concat ?fs))) \<and> pending s' = []"
    using t' ok by (intro rzfile_receives [where t = "tx_example True" and t' = t' and info = "[51]"]) simp_all
  with t' show ?thesis by auto
qed

end
