(* ===== verification/Sshbuf.thy ===== *)
theory Sshbuf
  imports Prelude "HOL-Library.Monad_Syntax"
begin

text \<open>
  The packet buffers of \<^verbatim>\<open>openssh/openssh/sshbuf.c\<close> over an explicit store: memory
  blocks, buffer structures, and pointers between them, so that child buffers alias the
  memory of their parent. A result \<open>None\<close> is the end of the program by SIGSEGV, raised by
  \<^verbatim>\<open>sshbuf_check_sanity\<close> or caused by an access outside of a live block. The invariant of
  the store, what the operations do with the contents of a buffer, and what they leave
  alone in all others.
\<close>

subsection \<open>The store\<close>

text \<open>A pointer is a block and an offset, or NULL.\<close>

type_synonym ptr = "(nat \<times> nat) option"

text \<open>\<^verbatim>\<open>struct sshbuf\<close>; \<^verbatim>\<open>dont_free\<close> is not used by any function.\<close>

record sshbuf =
  b_d :: ptr
  b_cd :: ptr
  b_off :: u64
  b_size :: u64
  b_max_size :: u64
  b_alloc :: u64
  b_readonly :: bool
  b_refcount :: u32
  b_parent :: "nat option"

text \<open>The outcome of each allocation is given by \<open>malloc_ok\<close>; addresses are not reused.\<close>

record heap =
  mem :: "nat \<Rightarrow> byte list option"
  bufs :: "nat \<Rightarrow> sshbuf option"
  fresh :: nat
  malloc_ok :: "nat \<Rightarrow> bool"

abbreviation (input) SSHBUF_SIZE_MAX :: u64 where "SSHBUF_SIZE_MAX \<equiv> 0x8000000"
abbreviation (input) SSHBUF_REFS_MAX :: u32 where "SSHBUF_REFS_MAX \<equiv> 0x100000"
abbreviation (input) SSHBUF_SIZE_INIT :: u64 where "SSHBUF_SIZE_INIT \<equiv> 256"
abbreviation (input) SSHBUF_SIZE_INC :: u64 where "SSHBUF_SIZE_INC \<equiv> 256"
abbreviation (input) SSHBUF_PACK_MIN :: u64 where "SSHBUF_PACK_MIN \<equiv> 8192"
abbreviation (input) SSH_ERR_INTERNAL_ERROR :: int where "SSH_ERR_INTERNAL_ERROR \<equiv> - 1"
abbreviation (input) SSH_ERR_ALLOC_FAIL :: int where "SSH_ERR_ALLOC_FAIL \<equiv> - 2"
abbreviation (input) SSH_ERR_MESSAGE_INCOMPLETE :: int where "SSH_ERR_MESSAGE_INCOMPLETE \<equiv> - 3"
abbreviation (input) SSH_ERR_INVALID_FORMAT :: int where "SSH_ERR_INVALID_FORMAT \<equiv> - 4"
abbreviation (input) SSH_ERR_BIGNUM_IS_NEGATIVE :: int where "SSH_ERR_BIGNUM_IS_NEGATIVE \<equiv> - 5"
abbreviation (input) SSH_ERR_STRING_TOO_LARGE :: int where "SSH_ERR_STRING_TOO_LARGE \<equiv> - 6"
abbreviation (input) SSH_ERR_BIGNUM_TOO_LARGE :: int where "SSH_ERR_BIGNUM_TOO_LARGE \<equiv> - 7"
abbreviation (input) SSH_ERR_NO_BUFFER_SPACE :: int where "SSH_ERR_NO_BUFFER_SPACE \<equiv> - 9"
abbreviation (input) SSH_ERR_INVALID_ARGUMENT :: int where "SSH_ERR_INVALID_ARGUMENT \<equiv> - 10"
abbreviation (input) SSH_ERR_BUFFER_READ_ONLY :: int where "SSH_ERR_BUFFER_READ_ONLY \<equiv> - 49"

definition ptr_add :: "ptr \<Rightarrow> nat \<Rightarrow> ptr" where
  "ptr_add p n = map_option (\<lambda>(a, i). (a, i + n)) p"

definition rd_mem :: "ptr \<Rightarrow> nat \<Rightarrow> heap \<Rightarrow> byte list option" where
  "rd_mem p n h =
     do {(a, i) \<leftarrow> p; blk \<leftarrow> mem h a;
         if i + n \<le> length blk then Some (take n (drop i blk)) else None}"

definition splice :: "nat \<Rightarrow> 'a list \<Rightarrow> 'a list \<Rightarrow> 'a list" where
  "splice i bs blk = take i blk @ bs @ drop (i + length bs) blk"

definition wr_mem :: "ptr \<Rightarrow> byte list \<Rightarrow> heap \<Rightarrow> heap option" where
  "wr_mem p bs h =
     do {(a, i) \<leftarrow> p; blk \<leftarrow> mem h a;
         if i + length bs \<le> length blk then Some (h\<lparr>mem := (mem h)(a \<mapsto> splice i bs blk)\<rparr>) else None}"

text \<open>\<^verbatim>\<open>calloc\<close> and \<^verbatim>\<open>malloc\<close>; the callers overwrite what \<^verbatim>\<open>malloc\<close> leaves in a block.\<close>

definition malloc :: "nat \<Rightarrow> heap \<Rightarrow> ptr \<times> heap" where
  "malloc n h =
     (if malloc_ok h (fresh h)
      then (Some (fresh h, 0), h\<lparr>mem := (mem h)(fresh h \<mapsto> replicate n 0), fresh := Suc (fresh h)\<rparr>)
      else (None, h\<lparr>fresh := Suc (fresh h)\<rparr>))"

definition free_mem :: "ptr \<Rightarrow> heap \<Rightarrow> heap option" where
  "free_mem p h =
     do {(a, i) \<leftarrow> p; blk \<leftarrow> mem h a; if i = 0 then Some (h\<lparr>mem := (mem h)(a := None)\<rparr>) else None}"

definition getpagesize :: nat where
  "getpagesize = 4096"

text \<open>\<^verbatim>\<open>recallocarray\<close> with elements of size 1, which cannot overflow.\<close>

definition recallocarray :: "ptr \<Rightarrow> nat \<Rightarrow> nat \<Rightarrow> heap \<Rightarrow> (ptr \<times> heap) option" where
  "recallocarray p oldsize newsize h =
     (if p = None then Some (malloc newsize h)
      else if newsize \<le> oldsize \<and> oldsize - newsize < oldsize div 2 \<and> oldsize - newsize < getpagesize then
        do {h \<leftarrow> wr_mem (ptr_add p newsize) (replicate (oldsize - newsize) 0) h; Some (p, h)}
      else
        (case malloc newsize h of
           (None, h) \<Rightarrow> Some (None, h)
         | (Some q, h) \<Rightarrow>
             do {bs \<leftarrow> rd_mem p (min oldsize newsize) h;
                 h \<leftarrow> wr_mem (Some q) (bs @ replicate (newsize - oldsize) 0) h;
                 h \<leftarrow> wr_mem p (replicate oldsize 0) h;
                 h \<leftarrow> free_mem p h;
                 Some (Some q, h)}))"

subsection \<open>Operations of sshbuf.c\<close>

definition sane :: "sshbuf \<Rightarrow> bool" where
  "sane B \<longleftrightarrow> \<not> (\<not> b_readonly B \<and> b_d B \<noteq> b_cd B \<or> b_refcount B < 1 \<or> b_refcount B > SSHBUF_REFS_MAX
     \<or> b_cd B = None \<or> b_max_size B > SSHBUF_SIZE_MAX \<or> b_alloc B > b_max_size B
     \<or> b_size B > b_alloc B \<or> b_off B > b_size B)"

text \<open>\<^verbatim>\<open>sshbuf_check_sanity\<close> on a pointer that is not NULL.\<close>

definition sshbuf_check_sanity :: "nat \<Rightarrow> heap \<Rightarrow> sshbuf option" where
  "sshbuf_check_sanity b h = do {B \<leftarrow> bufs h b; if sane B then Some B else None}"

definition set_buf :: "nat \<Rightarrow> sshbuf \<Rightarrow> heap \<Rightarrow> heap" where
  "set_buf b B h = h\<lparr>bufs := (bufs h)(b \<mapsto> B)\<rparr>"

definition locked :: "sshbuf \<Rightarrow> bool" where
  "locked B \<longleftrightarrow> b_readonly B \<or> b_refcount B > 1"

definition sshbuf_maybe_pack :: "nat \<Rightarrow> bool \<Rightarrow> heap \<Rightarrow> heap option" where
  "sshbuf_maybe_pack b force h =
     do {B \<leftarrow> bufs h b;
         if b_off B = 0 \<or> locked B then Some h
         else if force \<or> b_off B \<ge> SSHBUF_PACK_MIN \<and> b_off B \<ge> b_size B div 2 then
           do {bs \<leftarrow> rd_mem (ptr_add (b_d B) (unat (b_off B))) (unat (b_size B - b_off B)) h;
               h \<leftarrow> wr_mem (b_d B) bs h;
               Some (set_buf b (B\<lparr>b_size := b_size B - b_off B, b_off := 0\<rparr>) h)}
         else Some h}"

definition new_struct :: "sshbuf \<Rightarrow> heap \<Rightarrow> nat option \<times> heap" where
  "new_struct B h =
     (if malloc_ok h (fresh h)
      then (Some (fresh h), h\<lparr>bufs := (bufs h)(fresh h \<mapsto> B), fresh := Suc (fresh h)\<rparr>)
      else (None, h\<lparr>fresh := Suc (fresh h)\<rparr>))"

definition free_struct :: "nat \<Rightarrow> heap \<Rightarrow> heap" where
  "free_struct b h = h\<lparr>bufs := (bufs h)(b := None)\<rparr>"

definition sshbuf_new :: "heap \<Rightarrow> nat option \<times> heap" where
  "sshbuf_new h =
     (case new_struct \<lparr>b_d = None, b_cd = None, b_off = 0, b_size = 0, b_max_size = SSHBUF_SIZE_MAX,
          b_alloc = SSHBUF_SIZE_INIT, b_readonly = False, b_refcount = 1, b_parent = None\<rparr> h of
        (None, h) \<Rightarrow> (None, h)
      | (Some b, h) \<Rightarrow>
          (case malloc (unat SSHBUF_SIZE_INIT) h of
             (None, h) \<Rightarrow> (None, free_struct b h)
           | (Some q, h) \<Rightarrow>
               (Some b, h\<lparr>bufs := (bufs h)(b := map_option (\<lambda>B. B\<lparr>b_d := Some q, b_cd := Some q\<rparr>) (bufs h b))\<rparr>)))"

definition sshbuf_from :: "ptr \<Rightarrow> u64 \<Rightarrow> heap \<Rightarrow> nat option \<times> heap" where
  "sshbuf_from blob len h =
     (if blob = None \<or> len > SSHBUF_SIZE_MAX then (None, h)
      else new_struct \<lparr>b_d = None, b_cd = blob, b_off = 0, b_size = len, b_max_size = len, b_alloc = len,
        b_readonly = True, b_refcount = 1, b_parent = None\<rparr> h)"

definition sshbuf_set_parent :: "nat \<Rightarrow> nat \<Rightarrow> heap \<Rightarrow> (int \<times> heap) option" where
  "sshbuf_set_parent child parent h =
     do {C \<leftarrow> sshbuf_check_sanity child h; P \<leftarrow> sshbuf_check_sanity parent h;
         let h = set_buf child (C\<lparr>b_parent := Some parent\<rparr>) h;
         P \<leftarrow> bufs h parent;
         Some (0, set_buf parent (P\<lparr>b_refcount := b_refcount P + 1\<rparr>) h)}"

definition sshbuf_len :: "nat \<Rightarrow> heap \<Rightarrow> u64 option" where
  "sshbuf_len b h = do {B \<leftarrow> sshbuf_check_sanity b h; Some (b_size B - b_off B)}"

definition sshbuf_ptr :: "nat \<Rightarrow> heap \<Rightarrow> ptr option" where
  "sshbuf_ptr b h = do {B \<leftarrow> sshbuf_check_sanity b h; Some (ptr_add (b_cd B) (unat (b_off B)))}"

text \<open>\<^verbatim>\<open>sshbuf_free\<close> follows the parents first; \<open>n\<close> bounds the length of that chain.\<close>

fun sshbuf_free :: "nat \<Rightarrow> nat option \<Rightarrow> heap \<Rightarrow> heap option" where
  "sshbuf_free n None h = Some h"
| "sshbuf_free 0 (Some b) h = None"
| "sshbuf_free (Suc n) (Some b) h =
     do {B \<leftarrow> sshbuf_check_sanity b h;
         h \<leftarrow> sshbuf_free n (b_parent B) h;
         B \<leftarrow> bufs h b;
         let B = B\<lparr>b_parent := None, b_refcount := b_refcount B - 1\<rparr>;
         if b_refcount B > 0 then Some (set_buf b B h)
         else if b_readonly B then Some (free_struct b h)
         else do {h \<leftarrow> wr_mem (b_d B) (replicate (unat (b_alloc B)) 0) h;
                  h \<leftarrow> free_mem (b_d B) h;
                  Some (free_struct b h)}}"

definition sshbuf_fromb :: "nat \<Rightarrow> heap \<Rightarrow> (nat option \<times> heap) option" where
  "sshbuf_fromb b h =
     do {B \<leftarrow> sshbuf_check_sanity b h;
         p \<leftarrow> sshbuf_ptr b h; len \<leftarrow> sshbuf_len b h;
         case sshbuf_from p len h of
           (None, h) \<Rightarrow> Some (None, h)
         | (Some c, h) \<Rightarrow> do {(r, h) \<leftarrow> sshbuf_set_parent c b h; Some (Some c, h)}}"

text \<open>Moving the data to a block of the size \<open>rlen\<close>, as several operations do.\<close>

definition grow :: "nat \<Rightarrow> u64 \<Rightarrow> heap \<Rightarrow> (int \<times> heap) option" where
  "grow b rlen h =
     do {B \<leftarrow> bufs h b;
         (p, h) \<leftarrow> recallocarray (b_d B) (unat (b_alloc B)) (unat rlen) h;
         if p = None then Some (SSH_ERR_ALLOC_FAIL, h)
         else Some (0, set_buf b (B\<lparr>b_cd := p, b_d := p, b_alloc := rlen\<rparr>) h)}"

definition sshbuf_reset :: "nat \<Rightarrow> heap \<Rightarrow> heap option" where
  "sshbuf_reset b h =
     do {B \<leftarrow> bufs h b;
         if locked B then Some (set_buf b (B\<lparr>b_off := b_size B\<rparr>) h)
         else do {
           B \<leftarrow> sshbuf_check_sanity b h;
           let h = set_buf b (B\<lparr>b_off := 0, b_size := 0\<rparr>) h;
           h \<leftarrow> (if b_alloc B \<noteq> SSHBUF_SIZE_INIT then map_option snd (grow b SSHBUF_SIZE_INIT h) else Some h);
           B \<leftarrow> bufs h b;
           wr_mem (b_d B) (replicate (unat SSHBUF_SIZE_INIT) 0) h}}"

definition sshbuf_max_size :: "nat \<Rightarrow> heap \<Rightarrow> u64 option" where
  "sshbuf_max_size b h = map_option b_max_size (bufs h b)"

definition sshbuf_alloc :: "nat \<Rightarrow> heap \<Rightarrow> u64 option" where
  "sshbuf_alloc b h = map_option b_alloc (bufs h b)"

definition sshbuf_parent :: "nat \<Rightarrow> heap \<Rightarrow> nat option option" where
  "sshbuf_parent b h = map_option b_parent (bufs h b)"

definition sshbuf_refcount :: "nat \<Rightarrow> heap \<Rightarrow> u32 option" where
  "sshbuf_refcount b h = map_option b_refcount (bufs h b)"

definition ROUNDUP :: "u64 \<Rightarrow> u64 \<Rightarrow> u64" where
  "ROUNDUP x y = ((x + (y - 1)) div y) * y"

definition sshbuf_set_max_size :: "nat \<Rightarrow> u64 \<Rightarrow> heap \<Rightarrow> (int \<times> heap) option" where
  "sshbuf_set_max_size b max_size h =
     do {B \<leftarrow> sshbuf_check_sanity b h;
         if max_size = b_max_size B then Some (0, h)
         else if locked B then Some (SSH_ERR_BUFFER_READ_ONLY, h)
         else if max_size > SSHBUF_SIZE_MAX then Some (SSH_ERR_NO_BUFFER_SPACE, h)
         else do {
           h \<leftarrow> sshbuf_maybe_pack b (max_size < b_size B) h;
           B \<leftarrow> bufs h b;
           (r, h) \<leftarrow>
             (if max_size < b_alloc B \<and> max_size > b_size B then
                let rlen = (if b_size B < SSHBUF_SIZE_INIT then SSHBUF_SIZE_INIT else ROUNDUP (b_size B) SSHBUF_SIZE_INC);
                    rlen = (if rlen > max_size then max_size else rlen)
                in grow b rlen h
              else Some (0, h));
           if r \<noteq> 0 then Some (r, h)
           else do {
             B \<leftarrow> bufs h b;
             if max_size < b_alloc B then Some (SSH_ERR_NO_BUFFER_SPACE, h)
             else Some (0, set_buf b (B\<lparr>b_max_size := max_size\<rparr>) h)}}}"

definition sshbuf_avail :: "nat \<Rightarrow> heap \<Rightarrow> u64 option" where
  "sshbuf_avail b h =
     do {B \<leftarrow> sshbuf_check_sanity b h;
         if locked B then Some 0 else Some (b_max_size B - (b_size B - b_off B))}"

definition sshbuf_mutable_ptr :: "nat \<Rightarrow> heap \<Rightarrow> ptr option" where
  "sshbuf_mutable_ptr b h =
     do {B \<leftarrow> sshbuf_check_sanity b h;
         if locked B then Some None else Some (ptr_add (b_d B) (unat (b_off B)))}"

definition sshbuf_check_reserve :: "nat \<Rightarrow> u64 \<Rightarrow> heap \<Rightarrow> int option" where
  "sshbuf_check_reserve b len h =
     do {B \<leftarrow> sshbuf_check_sanity b h;
         if locked B then Some SSH_ERR_BUFFER_READ_ONLY
         else if len > b_max_size B \<or> b_max_size B - len < b_size B - b_off B then Some SSH_ERR_NO_BUFFER_SPACE
         else Some 0}"

definition sshbuf_allocate :: "nat \<Rightarrow> u64 \<Rightarrow> heap \<Rightarrow> (int \<times> heap) option" where
  "sshbuf_allocate b len h =
     do {r \<leftarrow> sshbuf_check_reserve b len h;
         if r \<noteq> 0 then Some (r, h)
         else do {
           B \<leftarrow> bufs h b;
           h \<leftarrow> sshbuf_maybe_pack b (b_size B + len > b_max_size B) h;
           B \<leftarrow> bufs h b;
           if len + b_size B \<le> b_alloc B then Some (0, h)
           else do {
             let need = len + b_size B - b_alloc B;
             let rlen = ROUNDUP (b_alloc B + need) SSHBUF_SIZE_INC;
             let rlen = (if rlen > b_max_size B then b_alloc B + need else rlen);
             (r, h) \<leftarrow> grow b rlen h;
             if r \<noteq> 0 then Some (r, h)
             else do {
               r \<leftarrow> sshbuf_check_reserve b len h;
               if r < 0 then Some (r, h) else Some (0, h)}}}}"

definition sshbuf_reserve :: "nat \<Rightarrow> u64 \<Rightarrow> heap \<Rightarrow> (int \<times> ptr \<times> heap) option" where
  "sshbuf_reserve b len h =
     do {(r, h) \<leftarrow> sshbuf_allocate b len h;
         if r \<noteq> 0 then Some (r, None, h)
         else do {
           B \<leftarrow> bufs h b;
           Some (0, ptr_add (b_d B) (unat (b_size B)), set_buf b (B\<lparr>b_size := b_size B + len\<rparr>) h)}}"

definition sshbuf_consume :: "nat \<Rightarrow> u64 \<Rightarrow> heap \<Rightarrow> (int \<times> heap) option" where
  "sshbuf_consume b len h =
     do {B \<leftarrow> sshbuf_check_sanity b h;
         if len = 0 then Some (0, h)
         else do {
           n \<leftarrow> sshbuf_len b h;
           if len > n then Some (SSH_ERR_MESSAGE_INCOMPLETE, h)
           else
             let B = B\<lparr>b_off := b_off B + len\<rparr>;
                 B = (if b_off B = b_size B then B\<lparr>b_off := 0, b_size := 0\<rparr> else B)
             in Some (0, set_buf b B h)}}"

definition sshbuf_consume_end :: "nat \<Rightarrow> u64 \<Rightarrow> heap \<Rightarrow> (int \<times> heap) option" where
  "sshbuf_consume_end b len h =
     do {B \<leftarrow> sshbuf_check_sanity b h;
         if len = 0 then Some (0, h)
         else do {
           n \<leftarrow> sshbuf_len b h;
           if len > n then Some (SSH_ERR_MESSAGE_INCOMPLETE, h)
           else Some (0, set_buf b (B\<lparr>b_size := b_size B - len\<rparr>) h)}}"

subsection \<open>The invariant of the store\<close>

definition kids :: "heap \<Rightarrow> nat \<Rightarrow> nat set" where
  "kids h b = {c. \<exists>C. bufs h c = Some C \<and> b_parent C = Some b}"

definition blk_of :: "sshbuf \<Rightarrow> nat" where
  "blk_of B = fst (the (b_cd B))"

text \<open>The memory a buffer points to is live and large enough.\<close>

definition buf_ok :: "heap \<Rightarrow> sshbuf \<Rightarrow> bool" where
  "buf_ok h B \<longleftrightarrow> sane B \<and> (\<exists>a i blk. b_cd B = Some (a, i) \<and> mem h a = Some blk
     \<and> i + unat (b_alloc B) \<le> length blk \<and> (\<not> b_readonly B \<longrightarrow> i = 0))"

text \<open>
  \<open>hs\<close> are the buffers the callers still hold. The reference count is one for the holder
  and one for each child; a child is a read-only window into the block of a buffer that is
  no child itself; no other buffer uses the block of a writable buffer.
\<close>

definition heap_ok :: "nat set \<Rightarrow> heap \<Rightarrow> bool" where
  "heap_ok hs h \<longleftrightarrow>
     (\<forall>b B. bufs h b = Some B \<longrightarrow> buf_ok h B)
     \<and> (\<forall>b B. bufs h b = Some B \<longrightarrow> finite (kids h b)
          \<and> unat (b_refcount B) = (if b \<in> hs then 1 else 0) + card (kids h b))
     \<and> (\<forall>b \<in> hs. bufs h b \<noteq> None)
     \<and> (\<forall>c C p. bufs h c = Some C \<longrightarrow> b_parent C = Some p \<longrightarrow> b_readonly C \<and>
          (\<exists>P. bufs h p = Some P \<and> b_parent P = None \<and> blk_of P = blk_of C))
     \<and> (\<forall>b B c C. bufs h b = Some B \<longrightarrow> \<not> b_readonly B \<longrightarrow> bufs h c = Some C \<longrightarrow> c \<noteq> b
          \<longrightarrow> blk_of C = blk_of B \<longrightarrow> b_parent C = Some b)
     \<and> (\<forall>a \<ge> fresh h. mem h a = None \<and> bufs h a = None)"

text \<open>The bytes in a buffer.\<close>

definition sshbuf_data :: "nat \<Rightarrow> heap \<Rightarrow> byte list option" where
  "sshbuf_data b h =
     do {B \<leftarrow> bufs h b; rd_mem (ptr_add (b_cd B) (unat (b_off B))) (unat (b_size B - b_off B)) h}"

text \<open>
  An operation on \<open>b\<close> keeps the invariant, the other buffers and all memory but the block of
  \<open>b\<close>; even that one when \<open>b\<close> is read-only or has children.
\<close>

definition keeps :: "nat set \<Rightarrow> nat \<Rightarrow> heap \<Rightarrow> heap \<Rightarrow> bool" where
  "keeps hs b h h' \<longleftrightarrow> heap_ok hs h' \<and> (\<forall>c. c \<noteq> b \<longrightarrow> bufs h' c = bufs h c)
     \<and> (\<exists>B B'. bufs h b = Some B \<and> bufs h' b = Some B' \<and> b_readonly B' = b_readonly B
          \<and> b_parent B' = b_parent B \<and> b_refcount B' = b_refcount B
          \<and> (blk_of B' = blk_of B \<or> mem h (blk_of B') = None)
          \<and> (\<forall>a. mem h a \<noteq> None \<longrightarrow> blk_of B \<noteq> a \<or> locked B \<longrightarrow> mem h' a = mem h a))"

lemma sane_bounds:
  assumes "sane B"
  shows "unat (b_off B) \<le> unat (b_size B)" "unat (b_size B) \<le> unat (b_alloc B)"
    "unat (b_alloc B) \<le> unat (b_max_size B)" "unat (b_max_size B) \<le> 134217728"
    "unat (b_size B - b_off B) = unat (b_size B) - unat (b_off B)"
    "1 \<le> unat (b_refcount B)" "unat (b_refcount B) \<le> 1048576" "\<not> b_readonly B \<Longrightarrow> b_d B = b_cd B" "b_cd B \<noteq> None"
proof -
  have w: "b_off B \<le> b_size B" "b_size B \<le> b_alloc B" "b_alloc B \<le> b_max_size B" "b_max_size B \<le> 134217728"
    "b_refcount B \<noteq> 0" "b_refcount B \<le> 1048576"
    using assms by (auto simp: sane_def not_less)
  then show "unat (b_off B) \<le> unat (b_size B)" "unat (b_size B) \<le> unat (b_alloc B)"
    "unat (b_alloc B) \<le> unat (b_max_size B)" "unat (b_max_size B) \<le> 134217728"
    "1 \<le> unat (b_refcount B)" "unat (b_refcount B) \<le> 1048576"
    by (simp_all add: word_le_nat_alt Suc_le_eq unat_gt_0)
  show "unat (b_size B - b_off B) = unat (b_size B) - unat (b_off B)"
    using w(1) by (rule unat_sub)
  show "\<not> b_readonly B \<Longrightarrow> b_d B = b_cd B" "b_cd B \<noteq> None" using assms by (auto simp: sane_def)
qed

lemma heap_okD:
  assumes "heap_ok hs h"
  shows "\<And>b B. bufs h b = Some B \<Longrightarrow> buf_ok h B"
    "\<And>b B. bufs h b = Some B \<Longrightarrow> finite (kids h b)"
    "\<And>b B. bufs h b = Some B \<Longrightarrow> unat (b_refcount B) = (if b \<in> hs then 1 else 0) + card (kids h b)"
    "\<And>b. b \<in> hs \<Longrightarrow> \<exists>B. bufs h b = Some B"
    "\<And>c C p. bufs h c = Some C \<Longrightarrow> b_parent C = Some p \<Longrightarrow> b_readonly C"
    "\<And>c C p. bufs h c = Some C \<Longrightarrow> b_parent C = Some p \<Longrightarrow>
       \<exists>P. bufs h p = Some P \<and> b_parent P = None \<and> blk_of P = blk_of C"
    "\<And>b B c C. bufs h b = Some B \<Longrightarrow> \<not> b_readonly B \<Longrightarrow> bufs h c = Some C \<Longrightarrow> c \<noteq> b \<Longrightarrow> blk_of C = blk_of B
       \<Longrightarrow> b_parent C = Some b"
    "\<And>a. fresh h \<le> a \<Longrightarrow> mem h a = None" "\<And>a. fresh h \<le> a \<Longrightarrow> bufs h a = None"
  using assms unfolding heap_ok_def by blast+

lemma heap_ok_sanity:
  assumes "heap_ok hs h" "b \<in> hs"
  obtains B where "bufs h b = Some B" "sane B" "sshbuf_check_sanity b h = Some B" "buf_ok h B"
  using heap_okD(1,4) [OF assms(1)] assms(2) by (fastforce simp: sshbuf_check_sanity_def buf_ok_def)

text \<open>A writable buffer that its holder may change has its block for itself.\<close>

lemma unlocked:
  assumes "heap_ok hs h" "b \<in> hs" "bufs h b = Some B" "\<not> locked B"
  shows "kids h b = {}" "\<not> b_readonly B" "b_parent B = None" "b_refcount B = 1"
    "\<And>c C. bufs h c = Some C \<Longrightarrow> c \<noteq> b \<Longrightarrow> blk_of C \<noteq> blk_of B"
proof -
  show ro: "\<not> b_readonly B" using assms(4) by (simp add: locked_def)
  have "\<not> 1 < b_refcount B" "1 \<le> unat (b_refcount B)"
    using assms(4) sane_bounds(6) heap_okD(1) [OF assms(1,3)] by (auto simp: locked_def buf_ok_def)
  then have one: "unat (b_refcount B) = 1" by (simp add: word_less_nat_alt)
  then show "b_refcount B = 1" by (simp add: word_unat_eq_iff)
  have "card (kids h b) = 0" using heap_okD(3) [OF assms(1,3)] one assms(2) by simp
  with heap_okD(2) [OF assms(1,3)] show none: "kids h b = {}" by simp
  show "b_parent B = None" using heap_okD(5) [OF assms(1,3)] ro by (cases "b_parent B") auto
  show "blk_of C \<noteq> blk_of B" if "bufs h c = Some C" "c \<noteq> b" for c C
    using heap_okD(7) [OF assms(1,3) ro that] none that(1) by (auto simp: kids_def)
qed

lemma sshbuf_data_some:
  assumes "heap_ok hs h" "bufs h b = Some B"
  obtains a i blk where "b_cd B = Some (a, i)" "mem h a = Some blk" "i + unat (b_alloc B) \<le> length blk"
    "\<not> b_readonly B \<Longrightarrow> i = 0" "blk_of B = a"
    "sshbuf_data b h = Some (take (unat (b_size B) - unat (b_off B)) (drop (i + unat (b_off B)) blk))"
proof -
  have ok: "buf_ok h B" using heap_okD(1) [OF assms] .
  then obtain a i blk where a: "b_cd B = Some (a, i)" "mem h a = Some blk" "i + unat (b_alloc B) \<le> length blk"
    "\<not> b_readonly B \<longrightarrow> i = 0" by (auto simp: buf_ok_def)
  note bd = sane_bounds [of B]
  have s: "sane B" using ok by (simp add: buf_ok_def)
  show thesis
    by (rule that [OF a(1-3)])
      (use a bd [OF s] assms(2) in \<open>auto simp: blk_of_def sshbuf_data_def ptr_add_def rd_mem_def\<close>)
qed

subsection \<open>Changing one buffer\<close>

lemma splice_length [simp]: "i + length bs \<le> length blk \<Longrightarrow> length (splice i bs blk) = length blk"
  by (simp add: splice_def)

lemma wr_mem_eq:
  "mem h a = Some blk \<Longrightarrow> i + length bs \<le> length blk \<Longrightarrow>
   wr_mem (Some (a, i)) bs h = Some (h\<lparr>mem := (mem h)(a \<mapsto> splice i bs blk)\<rparr>)"
  by (simp add: wr_mem_def)

lemma rd_mem_eq:
  "mem h a = Some blk \<Longrightarrow> i + n \<le> length blk \<Longrightarrow> rd_mem (Some (a, i)) n h = Some (take n (drop i blk))"
  by (simp add: rd_mem_def)

lemma buf_ok_mem:
  assumes "buf_ok h C" "\<And>blk. mem h (blk_of C) = Some blk \<Longrightarrow> \<exists>blk'. mem h' (blk_of C) = Some blk' \<and> length blk \<le> length blk'"
  shows "buf_ok h' C"
  using assms by (fastforce simp: buf_ok_def blk_of_def)

lemma heap_ok_change:
  assumes ok: "heap_ok hs h" and b: "bufs h b = Some B" "bufs h' = (bufs h)(b \<mapsto> B')"
    and same: "b_readonly B' = b_readonly B" "b_parent B' = b_parent B" "b_refcount B' = b_refcount B"
    and mem: "\<And>c C. bufs h' c = Some C \<Longrightarrow> buf_ok h' C"
    and blk: "blk_of B' = blk_of B \<or> \<not> locked B \<and> b \<in> hs \<and> (\<forall>c C. bufs h c = Some C \<longrightarrow> blk_of C \<noteq> blk_of B')"
    and fresh: "\<And>a. fresh h' \<le> a \<Longrightarrow> mem h' a = None" "fresh h \<le> fresh h'"
  shows "heap_ok hs h'"
proof -
  have kids: "kids h' c = kids h c" for c using b same(2) by (auto simp: kids_def)
  note old = heap_okD [OF ok]
  have blks: "blk_of B' = blk_of B \<or> (\<forall>c C. bufs h c = Some C \<longrightarrow> blk_of C \<noteq> blk_of B' \<and> b_parent C \<noteq> Some b) \<and> b_parent B = None"
    using blk unlocked [OF ok _ b(1)] by (auto simp: kids_def)
  have parents: "b_readonly C \<and> (\<exists>P. bufs h' p = Some P \<and> b_parent P = None \<and> blk_of P = blk_of C)"
    if C: "bufs h' c = Some C" and p: "b_parent C = Some p" for c C p
  proof (cases "c = b")
    case True
    with C p b same have B: "C = B'" "b_parent B = Some p" by auto
    obtain P where P: "bufs h p = Some P" "b_parent P = None" "blk_of P = blk_of B"
      using old(6) [OF b(1) B(2)] by blast
    then have "p \<noteq> b" using B(2) b(1) by auto
    with P B b old(5) [OF b(1) B(2)] blks same show ?thesis by auto
  next
    case False
    with C b have c: "bufs h c = Some C" by simp
    obtain P where P: "bufs h p = Some P" "b_parent P = None" "blk_of P = blk_of C"
      using old(6) [OF c p] by blast
    with old(5) [OF c p] c p blks b same show ?thesis by (cases "p = b") auto
  qed
  have shared: "b_parent C = Some d"
    if D: "bufs h' d = Some D" "\<not> b_readonly D" and C: "bufs h' c = Some C" "c \<noteq> d" and eq: "blk_of C = blk_of D"
    for d D c C
  proof (cases "c = b")
    case True
    with C D b have D': "bufs h d = Some D" "C = B'" by auto
    with blks eq have "blk_of B' = blk_of B" by metis
    with old(7) [OF D'(1) D(2) b(1)] True C(2) D'(2) eq same(2) show ?thesis by simp
  next
    case False
    with C b have c: "bufs h c = Some C" by simp
    show ?thesis
    proof (cases "d = b")
      case True
      with D b same have D': "D = B'" "\<not> b_readonly B" by auto
      with blks eq c have "blk_of B' = blk_of B" by metis
      with old(7) [OF b(1) D'(2) c] True C(2) D'(1) eq show ?thesis by simp
    next
      case False
      with D b have "bufs h d = Some D" by simp
      from old(7) [OF this D(2) c C(2) eq] show ?thesis .
    qed
  qed
  show ?thesis
    unfolding heap_ok_def
  proof (intro conjI allI ballI impI)
    fix d D
    assume "bufs h' d = Some D"
    then show "finite (kids h' d)" "unat (b_refcount D) = (if d \<in> hs then 1 else 0) + card (kids h' d)"
      using old(2,3) b same kids by (auto split: if_splits)
  next
    fix d
    assume "d \<in> hs"
    then show "bufs h' d \<noteq> None" using old(4) [of d] b by auto
  next
    fix a
    assume "fresh h' \<le> a"
    then have a: "fresh h \<le> a" using fresh(2) by simp
    show "mem h' a = None" using \<open>fresh h' \<le> a\<close> fresh(1) by simp
    show "bufs h' a = None" using old(9) [OF a] b by auto
  next
    fix c C p
    assume c: "bufs h' c = Some C" "b_parent C = Some p"
    from parents [OF this] show "b_readonly C"
      "\<exists>P. bufs h' p = Some P \<and> b_parent P = None \<and> blk_of P = blk_of C" by simp_all
  qed (rule mem shared; assumption)+
qed

lemma keepsI:
  assumes ok: "heap_ok hs h" and b: "b \<in> hs" "bufs h b = Some B" "bufs h' = (bufs h)(b \<mapsto> B')"
    and same: "b_readonly B' = b_readonly B" "b_parent B' = b_parent B" "b_refcount B' = b_refcount B"
    and new: "buf_ok h' B'"
    and mem: "\<And>a. mem h a \<noteq> None \<Longrightarrow> blk_of B \<noteq> a \<or> locked B \<Longrightarrow> mem h' a = mem h a"
    and blk: "blk_of B' = blk_of B \<or> \<not> locked B \<and> mem h (blk_of B') = None"
    and fresh: "\<And>a. fresh h' \<le> a \<Longrightarrow> mem h' a = None" "fresh h \<le> fresh h'"
  shows "keeps hs b h h'"
proof -
  have live: "mem h (blk_of C) \<noteq> None" if "bufs h c = Some C" for c C
    using heap_okD(1) [OF ok that] by (auto simp: buf_ok_def blk_of_def)
  have "heap_ok hs h'"
  proof (rule heap_ok_change [OF ok b(2,3) same _ _ fresh])
    fix c C
    assume c: "bufs h' c = Some C"
    show "buf_ok h' C"
    proof (cases "c = b")
      case False
      with c b have old: "bufs h c = Some C" by simp
      have "blk_of B \<noteq> blk_of C \<or> locked B" using unlocked(5) [OF ok b(1,2) _ old False] by metis
      then have "mem h' (blk_of C) = mem h (blk_of C)" using mem live [OF old] by blast
      with buf_ok_mem [OF heap_okD(1) [OF ok old], of h'] show ?thesis by simp
    qed (use c b new in simp)
  next
    show "blk_of B' = blk_of B \<or> \<not> locked B \<and> b \<in> hs \<and> (\<forall>c C. bufs h c = Some C \<longrightarrow> blk_of C \<noteq> blk_of B')"
      using blk live b(1) by metis
  qed
  with b same mem blk show ?thesis unfolding keeps_def by auto
qed

lemma keeps_heap_ok: "keeps hs b h h' \<Longrightarrow> heap_ok hs h'"
  by (simp add: keeps_def)

lemma keeps_blocks:
  assumes "keeps hs b h h'" "bufs h b = Some B" "bufs h' b = Some B'"
  shows "blk_of B' = blk_of B \<or> mem h (blk_of B') = None"
    "\<And>a. mem h a \<noteq> None \<Longrightarrow> blk_of B \<noteq> a \<or> locked B \<Longrightarrow> mem h' a = mem h a"
    "b_readonly B' = b_readonly B" "b_parent B' = b_parent B" "b_refcount B' = b_refcount B"
  using assms unfolding keeps_def by simp_all

lemma keeps_refl: "heap_ok hs h \<Longrightarrow> b \<in> hs \<Longrightarrow> keeps hs b h h"
  using heap_okD(4) [of hs h b] by (auto simp: keeps_def)

lemma keeps_trans:
  assumes "keeps hs b h h1" "keeps hs b h1 h2"
  shows "keeps hs b h h2"
proof -
  obtain B B1 where B: "bufs h b = Some B" "bufs h1 b = Some B1" "b_readonly B1 = b_readonly B"
    "b_parent B1 = b_parent B" "b_refcount B1 = b_refcount B" "blk_of B1 = blk_of B \<or> mem h (blk_of B1) = None"
    "\<forall>a. mem h a \<noteq> None \<longrightarrow> blk_of B \<noteq> a \<or> locked B \<longrightarrow> mem h1 a = mem h a"
    using assms(1) unfolding keeps_def by blast
  obtain B2 where B2: "bufs h2 b = Some B2" "b_readonly B2 = b_readonly B1"
    "b_parent B2 = b_parent B1" "b_refcount B2 = b_refcount B1" "blk_of B2 = blk_of B1 \<or> mem h1 (blk_of B2) = None"
    "\<forall>a. mem h1 a \<noteq> None \<longrightarrow> blk_of B1 \<noteq> a \<or> locked B1 \<longrightarrow> mem h2 a = mem h1 a"
    using assms(2) B(2) unfolding keeps_def by (metis option.inject)
  have lock: "locked B1 = locked B" using B by (simp add: locked_def)
  have blk: "blk_of B2 = blk_of B \<or> mem h (blk_of B2) = None" using B(6,7) B2(5) by metis
  have mem: "\<forall>a. mem h a \<noteq> None \<longrightarrow> blk_of B \<noteq> a \<or> locked B \<longrightarrow> mem h2 a = mem h a"
    using B(6,7) B2(6) lock by metis
  have others: "heap_ok hs h2 \<and> (\<forall>c. c \<noteq> b \<longrightarrow> bufs h2 c = bufs h c)"
    using assms by (simp add: keeps_def)
  show ?thesis
    unfolding keeps_def using others B B2 blk mem by simp
qed

text \<open>What the other buffers hold is not touched.\<close>

lemma keeps_data:
  assumes "keeps hs b h h'" "heap_ok hs h" "b \<in> hs" "c \<noteq> b"
  shows "sshbuf_data c h' = sshbuf_data c h"
proof (cases "bufs h c")
  case None
  with assms show ?thesis by (simp add: keeps_def sshbuf_data_def)
next
  case (Some C)
  obtain B where B: "bufs h b = Some B" "\<And>a. mem h a \<noteq> None \<Longrightarrow> blk_of B \<noteq> a \<or> locked B \<Longrightarrow> mem h' a = mem h a"
    using assms(1) by (auto simp: keeps_def)
  obtain a i blk where C: "b_cd C = Some (a, i)" "mem h a = Some blk" "blk_of C = a"
    using sshbuf_data_some [OF assms(2) Some] by metis
  have "blk_of B \<noteq> a \<or> locked B" using unlocked(5) [OF assms(2,3) B(1) _ Some assms(4)] C(3) by metis
  then have "mem h' a = mem h a" using B(2) C(2) by simp
  moreover have "bufs h' c = Some C" using assms(1,4) Some by (simp add: keeps_def)
  ultimately show ?thesis using Some C by (simp add: sshbuf_data_def rd_mem_def ptr_add_def)
qed

subsection \<open>What each operation does\<close>

lemma recallocarray_ok:
  assumes "mem h a = Some blk" "old \<le> length blk" "\<And>x. fresh h \<le> x \<Longrightarrow> mem h x = None"
  obtains q h' where "recallocarray (Some (a, 0)) old new h = Some (q, h')" "bufs h' = bufs h"
    "fresh h \<le> fresh h'" "malloc_ok h' = malloc_ok h" "\<And>x. fresh h' \<le> x \<Longrightarrow> mem h' x = None"
    "q = None \<and> mem h' = mem h \<and> \<not> malloc_ok h (fresh h) \<or> (\<exists>a' blk'. q = Some (a', 0) \<and> mem h' a' = Some blk' \<and> new \<le> length blk'
       \<and> take (min old new) blk' = take (min old new) blk
       \<and> (\<forall>x. x \<noteq> a \<longrightarrow> mem h x \<noteq> None \<longrightarrow> mem h' x = mem h x) \<and> (a' = a \<or> mem h a' = None))"
proof -
  have a: "a < fresh h" using assms(1,3) by (metis leI option.distinct(1))
  consider (small) "new \<le> old \<and> old - new < old div 2 \<and> old - new < getpagesize"
    | (fail) "\<not> (new \<le> old \<and> old - new < old div 2 \<and> old - new < getpagesize)" "\<not> malloc_ok h (fresh h)"
    | (move) "\<not> (new \<le> old \<and> old - new < old div 2 \<and> old - new < getpagesize)" "malloc_ok h (fresh h)"
    by blast
  then show thesis
  proof cases
    case small
    have "wr_mem (ptr_add (Some (a, 0)) new) (replicate (old - new) 0) h
        = Some (h\<lparr>mem := (mem h)(a \<mapsto> splice new (replicate (old - new) 0) blk)\<rparr>)"
      using assms(1,2) small by (simp add: ptr_add_def wr_mem_eq)
    with small show thesis
      using assms a
      by (intro that [of "Some (a, 0)" "h\<lparr>mem := (mem h)(a \<mapsto> splice new (replicate (old - new) 0) blk)\<rparr>"])
        (auto simp: recallocarray_def splice_def)
  next
    case fail
    then show thesis using assms by (intro that [of None "h\<lparr>fresh := Suc (fresh h)\<rparr>"]) (auto simp: recallocarray_def malloc_def)
  next
    case move
    define bs where "bs = take (min old new) blk @ replicate (new - old) 0"
    have len: "length bs = new" using assms(2) by (simp add: bs_def)
    define h' where "h' = h\<lparr>mem := (mem h)(fresh h \<mapsto> bs, a := None), fresh := Suc (fresh h)\<rparr>"
    have sp: "splice 0 bs (replicate new 0) = bs" using len by (simp add: splice_def)
    have "min old new \<le> length blk" using assms(2) by simp
    then have "recallocarray (Some (a, 0)) old new h = Some (Some (fresh h, 0), h')"
      using move(2) assms(1,2) a len unfolding recallocarray_def if_not_P [OF move(1)]
      by (simp add: malloc_def rd_mem_def bs_def [symmetric])
        (simp add: wr_mem_def free_mem_def h'_def sp fun_upd_twist)
    then show thesis
      using assms a len by (intro that [of "Some (fresh h, 0)" h']) (auto simp: h'_def bs_def)
  qed
qed

text \<open>The data depends on the first \<^verbatim>\<open>size\<close> bytes of the block only.\<close>

lemma data_prefix:
  assumes "take n blk' = take n blk" "s \<le> (n :: nat)"
  shows "take (s - k) (drop k blk') = take (s - k) (drop k blk)"
proof -
  have "take s blk' = take s blk" using assms by (metis min.absorb1 take_take)
  then show ?thesis by (metis take_drop drop_take)
qed

lemma grow_ok:
  assumes ok: "heap_ok hs h" and b: "b \<in> hs" "bufs h b = Some B" and un: "\<not> locked B"
    and rlen: "b_size B \<le> rlen" "rlen \<le> b_max_size B"
  obtains r h' where "grow b rlen h = Some (r, h')" "keeps hs b h h'" "sshbuf_data b h' = sshbuf_data b h"
    "r = 0 \<and> (\<exists>p. bufs h' b = Some (B\<lparr>b_cd := p, b_d := p, b_alloc := rlen\<rparr>)) \<or> r = SSH_ERR_ALLOC_FAIL \<and> bufs h' b = Some B"
    "malloc_ok h' = malloc_ok h" "r = 0 \<or> \<not> malloc_ok h (fresh h)"
proof -
  note u = unlocked [OF ok b un]
  have bok: "buf_ok h B" "sane B" using heap_okD(1) [OF ok b(2)] by (simp_all add: buf_ok_def)
  obtain a blk where a: "b_cd B = Some (a, 0)" "mem h a = Some blk" "unat (b_alloc B) \<le> length blk" "blk_of B = a"
    "sshbuf_data b h = Some (take (unat (b_size B) - unat (b_off B)) (drop (unat (b_off B)) blk))"
    using sshbuf_data_some [OF ok b(2)] u(2) by (metis add_0)
  have d: "b_d B = Some (a, 0)" using sane_bounds(8) [OF bok(2) u(2)] a(1) by simp
  obtain q h' where re: "recallocarray (Some (a, 0)) (unat (b_alloc B)) (unat rlen) h = Some (q, h')" "bufs h' = bufs h"
    "fresh h \<le> fresh h'" "malloc_ok h' = malloc_ok h" "\<And>x. fresh h' \<le> x \<Longrightarrow> mem h' x = None"
    "q = None \<and> mem h' = mem h \<and> \<not> malloc_ok h (fresh h) \<or> (\<exists>a' blk'. q = Some (a', 0) \<and> mem h' a' = Some blk' \<and> unat rlen \<le> length blk'
       \<and> take (min (unat (b_alloc B)) (unat rlen)) blk' = take (min (unat (b_alloc B)) (unat rlen)) blk
       \<and> (\<forall>x. x \<noteq> a \<longrightarrow> mem h x \<noteq> None \<longrightarrow> mem h' x = mem h x) \<and> (a' = a \<or> mem h a' = None))"
    by (rule recallocarray_ok [OF a(2,3) heap_okD(8) [OF ok], where new = "unat rlen"]) (assumption | rule that)+
  show thesis
  proof (cases q)
    case None
    with re(6) have "mem h' = mem h" "\<not> malloc_ok h (fresh h)" by auto
    moreover have "keeps hs b h h'"
      by (rule keepsI [OF ok b, where B' = B]) (use re calculation bok b in \<open>auto simp: buf_ok_def\<close>)
    moreover have "grow b rlen h = Some (SSH_ERR_ALLOC_FAIL, h')"
      using b re(1) d None by (simp add: grow_def)
    ultimately show thesis
      using that [of SSH_ERR_ALLOC_FAIL h'] re(2,4) b(2) by (simp add: sshbuf_data_def rd_mem_def)
  next
    case (Some q')
    with re(6) obtain a' blk' where n: "q = Some (a', 0)" "mem h' a' = Some blk'" "unat rlen \<le> length blk'"
      "take (min (unat (b_alloc B)) (unat rlen)) blk' = take (min (unat (b_alloc B)) (unat rlen)) blk"
      "\<forall>x. x \<noteq> a \<longrightarrow> mem h x \<noteq> None \<longrightarrow> mem h' x = mem h x" "a' = a \<or> mem h a' = None" by auto
    define B' where "B' = B\<lparr>b_cd := q, b_d := q, b_alloc := rlen\<rparr>"
    define h2 where "h2 = set_buf b B' h'"
    have sane: "sane B'" using bok(2) rlen n(1) u(2) by (auto simp: sane_def B'_def)
    have g: "grow b rlen h = Some (0, h2)" using b re(1) d n(1) by (simp add: grow_def h2_def B'_def)
    have k: "keeps hs b h h2"
    proof (rule keepsI [OF ok b, where B' = B'])
      show "buf_ok h2 B'" using sane n by (simp add: buf_ok_def B'_def h2_def set_buf_def)
      show "blk_of B' = blk_of B \<or> \<not> locked B \<and> mem h (blk_of B') = None"
        using n(1,6) un a(4) by (auto simp: B'_def blk_of_def)
    qed (use re n un a(4) in \<open>auto simp: h2_def B'_def set_buf_def\<close>)
    have s: "unat (b_size B) \<le> min (unat (b_alloc B)) (unat rlen)"
      using sane_bounds(2) [OF bok(2)] rlen(1) by (simp add: word_le_nat_alt)
    have "sshbuf_data b h2 = Some (take (unat (b_size B) - unat (b_off B)) (drop (unat (b_off B)) blk'))"
      using sane_bounds [OF bok(2)] s n(1-3)
      by (simp add: h2_def B'_def sshbuf_data_def set_buf_def ptr_add_def rd_mem_def)
    then have "sshbuf_data b h2 = sshbuf_data b h" by (simp only: a(5) data_prefix [OF n(4) s])
    with g k re(4) show thesis
      using that [of 0 h2] by (simp add: h2_def B'_def set_buf_def) blast
  qed
qed

lemma pack_ok:
  assumes ok: "heap_ok hs h" and b: "b \<in> hs" "bufs h b = Some B"
  obtains h' B' where "sshbuf_maybe_pack b force h = Some h'" "keeps hs b h h'" "bufs h' b = Some B'"
    "sshbuf_data b h' = sshbuf_data b h" "B' = B \<or> B' = B\<lparr>b_size := b_size B - b_off B, b_off := 0\<rparr>"
    "\<not> locked B \<Longrightarrow> force \<Longrightarrow> b_size B' = b_size B - b_off B" "malloc_ok h' = malloc_ok h"
proof (cases "b_off B = 0 \<or> locked B \<or> \<not> (force \<or> b_off B \<ge> SSHBUF_PACK_MIN \<and> b_off B \<ge> b_size B div 2)")
  case True
  then show thesis
    using b keeps_refl [OF ok b(1)] by (intro that [of h B]) (auto simp: sshbuf_maybe_pack_def)
next
  case False
  then have un: "\<not> locked B" by simp
  note u = unlocked [OF ok b un]
  have bok: "buf_ok h B" "sane B" using heap_okD(1) [OF ok b(2)] by (simp_all add: buf_ok_def)
  note bd = sane_bounds [OF bok(2)]
  obtain a blk where a: "b_cd B = Some (a, 0)" "mem h a = Some blk" "unat (b_alloc B) \<le> length blk" "blk_of B = a"
    "sshbuf_data b h = Some (take (unat (b_size B) - unat (b_off B)) (drop (unat (b_off B)) blk))"
    using sshbuf_data_some [OF ok b(2)] u(2) by (metis add_0)
  define bs where "bs = take (unat (b_size B) - unat (b_off B)) (drop (unat (b_off B)) blk)"
  have len: "length bs = unat (b_size B) - unat (b_off B)" using bd a(3) by (simp add: bs_def)
  define B' where "B' = B\<lparr>b_size := b_size B - b_off B, b_off := 0\<rparr>"
  define h' where "h' = set_buf b B' (h\<lparr>mem := (mem h)(a \<mapsto> splice 0 bs blk)\<rparr>)"
  have d: "b_d B = Some (a, 0)" using bd(8) u(2) a(1) by simp
  have rd: "rd_mem (Some (a, unat (b_off B))) (unat (b_size B - b_off B)) h = Some bs"
    using a(2,3) bd by (simp add: rd_mem_def bs_def)
  have wr: "wr_mem (Some (a, 0)) bs h = Some (h\<lparr>mem := (mem h)(a \<mapsto> splice 0 bs blk)\<rparr>)"
    using a(2,3) bd len by (intro wr_mem_eq) simp_all
  have pack: "sshbuf_maybe_pack b force h = Some h'"
    using False b d rd wr by (auto simp: sshbuf_maybe_pack_def ptr_add_def B'_def h'_def)
  have "b_size B - b_off B \<le> b_alloc B" using bd by (simp add: word_le_nat_alt)
  then have sane: "sane B'" using bok(2) by (auto simp: sane_def B'_def)
  have k: "keeps hs b h h'"
  proof (rule keepsI [OF ok b, where B' = B'])
    show "buf_ok h' B'" using sane a(1-3) len bd by (auto simp: buf_ok_def B'_def h'_def set_buf_def splice_def)
  qed (use a un heap_okD(8) [OF ok] in \<open>auto simp: h'_def B'_def set_buf_def blk_of_def\<close>)
  have "sshbuf_data b h' = Some bs"
    using a(1-3) len bd by (simp add: h'_def B'_def sshbuf_data_def set_buf_def ptr_add_def rd_mem_def splice_def)
  then have "sshbuf_data b h' = sshbuf_data b h" using a(5) by (simp add: bs_def)
  with pack k show thesis
    by (intro that [of h' B']) (simp_all add: h'_def set_buf_def B'_def)
qed

lemma check_reserve_eq:
  assumes "heap_ok hs h" "bufs h b = Some B"
  shows "sshbuf_check_reserve b len h = Some (if locked B then SSH_ERR_BUFFER_READ_ONLY
    else if unat (b_max_size B) < unat (b_size B) - unat (b_off B) + unat len then SSH_ERR_NO_BUFFER_SPACE else 0)"
proof -
  have s: "sane B" using heap_okD(1) [OF assms] by (simp add: buf_ok_def)
  note bd = sane_bounds [OF s]
  have "len > b_max_size B \<or> b_max_size B - len < b_size B - b_off B
      \<longleftrightarrow> unat (b_max_size B) < unat (b_size B) - unat (b_off B) + unat len"
  proof (cases "len > b_max_size B")
    case True
    then show ?thesis by (simp add: word_less_nat_alt)
  next
    case False
    then have le: "len \<le> b_max_size B" by simp
    have "unat (b_max_size B - len) = unat (b_max_size B) - unat len" using le by (rule unat_sub)
    then show ?thesis using False le bd(5) by (simp add: word_less_nat_alt word_le_nat_alt) linarith
  qed
  then show ?thesis using assms(2) s by (simp add: sshbuf_check_reserve_def sshbuf_check_sanity_def)
qed

lemma unat_add_small: "unat a + unat b < 2 ^ 64 \<Longrightarrow> unat (a + b :: u64) = unat a + unat b"
  by (simp add: unat_word_ariths)

lemma ROUNDUP_small:
  assumes "unat x \<le> 268435456"
  shows "unat (ROUNDUP x 256) = (unat x + 255) div 256 * 256"
proof -
  have e: "unat (x + 255) = unat x + 255" using assms by (intro unat_add_small [of x 255, simplified]) simp
  have "(unat x + 255) div 256 * 256 \<le> unat x + 255" by simp
  then have "(unat x + 255) div 256 * 256 < 2 ^ 64" using assms by simp
  then show ?thesis
    unfolding ROUNDUP_def by (simp add: unat_word_ariths(2) e unat_div)
qed

lemma data_length:
  assumes "heap_ok hs h" "bufs h b = Some B"
  shows "\<exists>d. sshbuf_data b h = Some d \<and> length d = unat (b_size B) - unat (b_off B)"
proof -
  have "sane B" using heap_okD(1) [OF assms] by (simp add: buf_ok_def)
  note bd = sane_bounds [OF this]
  show ?thesis by (rule sshbuf_data_some [OF assms]) (use bd in auto)
qed

text \<open>\<^verbatim>\<open>sshbuf_allocate\<close> on a buffer with room: there is space behind the data, or no memory.\<close>

lemma allocate_ok:
  assumes ok: "heap_ok hs h" and b: "b \<in> hs" "bufs h b = Some B" and un: "\<not> locked B"
    and room: "unat (b_size B) - unat (b_off B) + unat len \<le> unat (b_max_size B)"
  obtains r h' B' where "sshbuf_allocate b len h = Some (r, h')" "keeps hs b h h'" "bufs h' b = Some B'"
    "sshbuf_data b h' = sshbuf_data b h" "r = 0 \<and> unat (b_size B') + unat len \<le> unat (b_alloc B') \<or> r = SSH_ERR_ALLOC_FAIL"
    "b_max_size B' = b_max_size B" "b_alloc B \<le> b_alloc B'" "r = 0 \<or> (\<exists>n. \<not> malloc_ok h n)"
proof -
  have s: "sane B" using heap_okD(1) [OF ok b(2)] by (simp add: buf_ok_def)
  note bd = sane_bounds [OF s]
  have chk: "sshbuf_check_reserve b len h = Some 0"
    using check_reserve_eq [OF ok b(2)] un room by simp
  define force where "force \<longleftrightarrow> b_size B + len > b_max_size B"
  obtain h1 B1 where p: "sshbuf_maybe_pack b force h = Some h1" "keeps hs b h h1" "bufs h1 b = Some B1"
    "sshbuf_data b h1 = sshbuf_data b h" "B1 = B \<or> B1 = B\<lparr>b_size := b_size B - b_off B, b_off := 0\<rparr>"
    "force \<Longrightarrow> b_size B1 = b_size B - b_off B" "malloc_ok h1 = malloc_ok h"
    using pack_ok [OF ok b, of force] un by metis
  have ok1: "heap_ok hs h1" using p(2) by (rule keeps_heap_ok)
  have s1: "sane B1" using heap_okD(1) [OF ok1 p(3)] by (simp add: buf_ok_def)
  note bd1 = sane_bounds [OF s1]
  have same: "b_max_size B1 = b_max_size B" "b_alloc B1 = b_alloc B" "locked B1 = locked B"
    using p(5) by (auto simp: locked_def)
  have "unat (b_size B + len) = unat (b_size B) + unat len" using bd room by (intro unat_add_small) simp
  then have fits: "unat (b_size B1) + unat len \<le> unat (b_max_size B)"
    using p(5,6) bd room by (cases force) (auto simp: force_def word_less_nat_alt)
  have sum: "unat (len + b_size B1) = unat (b_size B1) + unat len"
    using fits bd by (subst unat_add_small) simp_all
  define x where "x = len + b_size B1"
  show thesis
  proof (cases "x \<le> b_alloc B1")
    case True
    then have "sshbuf_allocate b len h = Some (0, h1)"
      using chk b p(1,3) by (simp add: sshbuf_allocate_def force_def [symmetric] x_def)
    with p True same sum show thesis by (intro that [of 0 h1 B1]) (simp_all add: x_def word_le_nat_alt)
  next
    case False
    define rlen where "rlen = (if ROUNDUP x 256 > b_max_size B1 then x else ROUNDUP x 256)"
    have r: "unat (ROUNDUP x 256) = (unat x + 255) div 256 * 256"
      using fits bd sum by (intro ROUNDUP_small) (simp add: x_def)
    have "unat x \<le> unat rlen" "unat rlen \<le> unat (b_max_size B)"
      using r fits sum same(1) by (auto simp: rlen_def x_def word_less_nat_alt)
    then have rlen: "b_size B1 \<le> rlen" "rlen \<le> b_max_size B1" "unat x \<le> unat rlen"
      using sum same(1) by (simp_all add: x_def word_le_nat_alt)
    obtain r h2 where g: "grow b rlen h1 = Some (r, h2)" "keeps hs b h1 h2" "sshbuf_data b h2 = sshbuf_data b h1"
      "r = 0 \<and> (\<exists>p. bufs h2 b = Some (B1\<lparr>b_cd := p, b_d := p, b_alloc := rlen\<rparr>)) \<or> r = SSH_ERR_ALLOC_FAIL \<and> bufs h2 b = Some B1" "r = 0 \<or> (\<exists>n. \<not> malloc_ok h n)"
      using grow_ok [OF ok1 b(1) p(3) _ rlen(1,2)] un same(3) p(7) by metis
    have k: "keeps hs b h h2" using keeps_trans [OF p(2) g(2)] .
    obtain B2 where B2: "bufs h2 b = Some B2" "locked B2 = locked B" "b_max_size B2 = b_max_size B"
      "b_size B2 = b_size B1" "b_off B2 = b_off B1" "r = 0 \<Longrightarrow> b_alloc B2 = rlen" "b_alloc B \<le> b_alloc B2"
    proof (cases "r = 0")
      case True
      with g(4) obtain q where "bufs h2 b = Some (B1\<lparr>b_cd := q, b_d := q, b_alloc := rlen\<rparr>)" by auto
      moreover have "b_alloc B \<le> rlen" using False same(2) rlen(3) by (simp add: word_le_nat_alt)
      ultimately show thesis using same
        by (intro that [of "B1\<lparr>b_cd := q, b_d := q, b_alloc := rlen\<rparr>"]) (simp_all add: locked_def)
    qed (use g(4) same that in auto)
    have "sshbuf_check_reserve b len h2 = Some 0"
      using check_reserve_eq [OF keeps_heap_ok [OF k] B2(1), of len] B2 un fits by simp
    then have "sshbuf_allocate b len h = Some (r, h2)"
      using chk b p(1,3) g(1,4) False
      by (auto simp: sshbuf_allocate_def force_def [symmetric] x_def rlen_def Let_def)
    then show thesis
      using k B2 g p(4) rlen(3) sum by (intro that [of r h2 B2]) (auto simp: x_def)
  qed
qed

lemma allocate_fails:
  assumes "heap_ok hs h" "bufs h b = Some B"
  shows "locked B \<Longrightarrow> sshbuf_allocate b len h = Some (SSH_ERR_BUFFER_READ_ONLY, h)"
    "\<not> locked B \<Longrightarrow> unat (b_max_size B) < unat (b_size B) - unat (b_off B) + unat len \<Longrightarrow>
     sshbuf_allocate b len h = Some (SSH_ERR_NO_BUFFER_SPACE, h)"
  using check_reserve_eq [OF assms, of len] by (simp_all add: sshbuf_allocate_def)

text \<open>Writing \<open>bs\<close> into the space that \<^verbatim>\<open>sshbuf_reserve\<close> hands out appends it to the data.\<close>

lemma reserve_write:
  assumes ok: "heap_ok hs h" and b: "b \<in> hs" "bufs h b = Some B" and un: "\<not> locked B"
    and d: "sshbuf_data b h = Some d" and room: "length d + unat len \<le> unat (b_max_size B)" and bs: "length bs = unat len"
  obtains (good) p h1 h' where "sshbuf_reserve b len h = Some (0, p, h1)" "wr_mem p bs h1 = Some h'"
      "keeps hs b h h'" "sshbuf_data b h' = Some (d @ bs)" "p \<noteq> None"
      "\<And>a. mem h a \<noteq> None \<Longrightarrow> blk_of B \<noteq> a \<Longrightarrow> mem h1 a = mem h a \<and> fst (the p) \<noteq> a"
  | (nomem) h' where "sshbuf_reserve b len h = Some (SSH_ERR_ALLOC_FAIL, None, h')" "keeps hs b h h'"
      "sshbuf_data b h' = Some d" "\<exists>n. \<not> malloc_ok h n"
proof -
  have dl: "length d = unat (b_size B) - unat (b_off B)" using data_length [OF ok b(2)] d by auto
  obtain r h1 B1 where al: "sshbuf_allocate b len h = Some (r, h1)" "keeps hs b h h1" "bufs h1 b = Some B1"
    "sshbuf_data b h1 = sshbuf_data b h" "r = 0 \<and> unat (b_size B1) + unat len \<le> unat (b_alloc B1) \<or> r = SSH_ERR_ALLOC_FAIL"
    "r = 0 \<or> (\<exists>n. \<not> malloc_ok h n)"
    using allocate_ok [OF ok b un] room dl by metis
  show thesis
  proof (cases "r = 0")
    case False
    then have "sshbuf_reserve b len h = Some (SSH_ERR_ALLOC_FAIL, None, h1)" using al by (auto simp: sshbuf_reserve_def)
    with al d False show thesis by (intro nomem [of h1]) simp_all
  next
    case True
    have ok1: "heap_ok hs h1" using al(2) by (rule keeps_heap_ok)
    have bok: "buf_ok h1 B1" "sane B1" using heap_okD(1) [OF ok1 al(3)] by (simp_all add: buf_ok_def)
    note bd = sane_bounds [OF bok(2)]
    have same: "b_readonly B1 = b_readonly B" "b_refcount B1 = b_refcount B"
      using al(2,3) b(2) by (auto simp: keeps_def)
    then have un1: "\<not> locked B1" using un by (simp add: locked_def)
    note u = unlocked [OF ok1 b(1) al(3) un1]
    obtain a blk where a: "b_cd B1 = Some (a, 0)" "mem h1 a = Some blk" "unat (b_alloc B1) \<le> length blk" "blk_of B1 = a"
      "sshbuf_data b h1 = Some (take (unat (b_size B1) - unat (b_off B1)) (drop (unat (b_off B1)) blk))"
      using sshbuf_data_some [OF ok1 al(3)] u(2) by (metis add_0)
    have dp: "b_d B1 = Some (a, 0)" using bd(8) u(2) a(1) by simp
    have fit: "unat (b_size B1) + unat len \<le> unat (b_alloc B1)" using al(5) True by auto
    then have sz: "unat (b_size B1 + len) = unat (b_size B1) + unat len" using bd by (intro unat_add_small) simp
    define B2 where "B2 = B1\<lparr>b_size := b_size B1 + len\<rparr>"
    define h2 where "h2 = set_buf b B2 h1"
    define h3 where "h3 = h2\<lparr>mem := (mem h2)(a \<mapsto> splice (unat (b_size B1)) bs blk)\<rparr>"
    have res: "sshbuf_reserve b len h = Some (0, Some (a, unat (b_size B1)), h2)"
      using al(1,3) True dp by (simp add: sshbuf_reserve_def ptr_add_def h2_def B2_def)
    have wr: "wr_mem (Some (a, unat (b_size B1))) bs h2 = Some h3"
      unfolding h3_def using a(2,3) fit bs by (intro wr_mem_eq) (simp_all add: h2_def set_buf_def)
    have "sane B2" using bok(2) fit sz bd by (auto simp: sane_def B2_def word_less_nat_alt)
    then have k3: "keeps hs b h1 h3"
      using a un1 bs fit heap_okD(8) [OF ok1]
      by (intro keepsI [OF ok1 b(1) al(3), where B' = B2])
        (auto simp: h3_def h2_def set_buf_def B2_def blk_of_def buf_ok_def)
    have "sshbuf_data b h3 = Some (take (unat (b_size B1) - unat (b_off B1) + length bs)
        (drop (unat (b_off B1)) (splice (unat (b_size B1)) bs blk)))"
      using a(1-3) bd sz fit bs
      by (simp add: h3_def h2_def B2_def sshbuf_data_def set_buf_def ptr_add_def rd_mem_def unat_sub word_le_nat_alt splice_def
          trans_le_add1)
    also have "take (unat (b_size B1) - unat (b_off B1) + length bs) (drop (unat (b_off B1)) (splice (unat (b_size B1)) bs blk))
        = take (unat (b_size B1) - unat (b_off B1)) (drop (unat (b_off B1)) blk) @ bs"
      using bd a(3) by (simp add: splice_def take_drop [symmetric] drop_take)
    finally have "sshbuf_data b h3 = Some (d @ bs)" using al(4) a(5) d by simp
    moreover have "mem h2 x = mem h x \<and> a \<noteq> x" if "mem h x \<noteq> None" "blk_of B \<noteq> x" for x
      using keeps_blocks [OF al(2) b(2) al(3)] that a(4) by (auto simp: h2_def set_buf_def)
    ultimately show thesis
      using res wr keeps_trans [OF al(2) k3] by (intro good [of "Some (a, unat (b_size B1))" h2 h3]) auto
  qed
qed

lemma unat_le_data:
  assumes "heap_ok hs h" "bufs h b = Some B" "sshbuf_data b h = Some d"
  shows "len > b_size B - b_off B \<longleftrightarrow> unat len > length d"
proof -
  have s: "sane B" using heap_okD(1) [OF assms(1,2)] by (simp add: buf_ok_def)
  have "length d = unat (b_size B - b_off B)"
    using data_length [OF assms(1,2)] assms(3) sane_bounds(5) [OF s] by auto
  then show ?thesis by (simp add: word_less_nat_alt)
qed

lemma consume_ok:
  assumes ok: "heap_ok hs h" and b: "b \<in> hs" and d: "sshbuf_data b h = Some d" and le: "unat len \<le> length d"
  obtains h' where "sshbuf_consume b len h = Some (0, h')" "keeps hs b h h'" "sshbuf_data b h' = Some (drop (unat len) d)"
    "mem h' = mem h"
proof -
  obtain B where B: "bufs h b = Some B" "sane B" "sshbuf_check_sanity b h = Some B" "buf_ok h B"
    by (rule heap_ok_sanity [OF ok b])
  note bd = sane_bounds [OF B(2)]
  obtain a i blk where a: "b_cd B = Some (a, i)" "mem h a = Some blk" "i + unat (b_alloc B) \<le> length blk"
    "sshbuf_data b h = Some (take (unat (b_size B) - unat (b_off B)) (drop (i + unat (b_off B)) blk))"
    by (rule sshbuf_data_some [OF ok B(1)])
  have dl: "length d = unat (b_size B) - unat (b_off B)" using data_length [OF ok B(1)] d by auto
  show thesis
  proof (cases "len = 0")
    case True
    then show thesis
      using that [of h] B d keeps_refl [OF ok b] by (simp add: sshbuf_consume_def)
  next
    case False
    have sum: "unat (b_off B + len) = unat (b_off B) + unat len" using le dl bd by (intro unat_add_small) simp
    define B1 where "B1 = B\<lparr>b_off := b_off B + len\<rparr>"
    define B2 where "B2 = (if b_off B1 = b_size B1 then B1\<lparr>b_off := 0, b_size := 0\<rparr> else B1)"
    define h' where "h' = set_buf b B2 h"
    have run: "sshbuf_consume b len h = Some (0, h')"
      using False B unat_le_data [OF ok B(1) d, of len] le
      by (simp add: sshbuf_consume_def sshbuf_len_def B1_def B2_def h'_def Let_def)
    have "b_off B + len \<le> b_size B" using sum le dl bd by (simp add: word_le_nat_alt)
    then have sane: "sane B2" using B(2) by (auto simp: sane_def B1_def B2_def)
    have k: "keeps hs b h h'"
      using sane a(1-3) B(1,4) heap_okD(8) [OF ok]
      by (intro keepsI [OF ok b B(1), where B' = B2])
        (auto simp: h'_def set_buf_def B2_def B1_def blk_of_def buf_ok_def)
    have "sshbuf_data b h' = Some (drop (unat len) d)"
    proof (cases "b_off B + len = b_size B")
      case True
      then have "unat (b_size B) = unat (b_off B) + unat len" using sum by metis
      then have "drop (unat len) d = []" using dl by simp
      moreover have "i \<le> length blk" using a(3) by simp
      ultimately show ?thesis
        using True a(1,2) by (simp add: h'_def B2_def B1_def sshbuf_data_def set_buf_def ptr_add_def rd_mem_def)
    next
      case False
      have "unat (b_size B - (b_off B + len)) = unat (b_size B) - (unat (b_off B) + unat len)"
        using sum le dl bd by (subst unat_sub) (simp_all add: word_le_nat_alt)
      moreover have "i + (unat (b_off B) + unat len) + (unat (b_size B) - (unat (b_off B) + unat len)) \<le> length blk"
        using a(3) bd le dl by simp
      ultimately have "sshbuf_data b h' = Some (take (unat (b_size B) - (unat (b_off B) + unat len))
          (drop (i + (unat (b_off B) + unat len)) blk))"
        using False a(1,2) sum
        by (simp add: h'_def B2_def B1_def sshbuf_data_def set_buf_def ptr_add_def rd_mem_def)
      also have "\<dots> = Some (drop (unat len) d)"
        using a(4) d by (simp add: drop_take add.commute add.left_commute)
      finally show ?thesis .
    qed
    with run k show thesis using that [of h'] by (simp add: h'_def set_buf_def)
  qed
qed

lemma consume_short:
  assumes "heap_ok hs h" "b \<in> hs" "sshbuf_data b h = Some d" "length d < unat len"
  shows "sshbuf_consume b len h = Some (SSH_ERR_MESSAGE_INCOMPLETE, h)"
    "sshbuf_consume_end b len h = Some (SSH_ERR_MESSAGE_INCOMPLETE, h)"
proof -
  obtain B where B: "bufs h b = Some B" "sane B" "sshbuf_check_sanity b h = Some B" "buf_ok h B"
    by (rule heap_ok_sanity [OF assms(1,2)])
  have "len \<noteq> 0" using assms(4) by auto
  with B unat_le_data [OF assms(1) B(1) assms(3), of len] assms(4)
  show "sshbuf_consume b len h = Some (SSH_ERR_MESSAGE_INCOMPLETE, h)"
    "sshbuf_consume_end b len h = Some (SSH_ERR_MESSAGE_INCOMPLETE, h)"
    by (simp_all add: sshbuf_consume_def sshbuf_consume_end_def sshbuf_len_def)
qed

lemma consume_end_ok:
  assumes ok: "heap_ok hs h" and b: "b \<in> hs" and d: "sshbuf_data b h = Some d" and le: "unat len \<le> length d"
  obtains h' where "sshbuf_consume_end b len h = Some (0, h')" "keeps hs b h h'"
    "sshbuf_data b h' = Some (take (length d - unat len) d)" "mem h' = mem h"
proof -
  obtain B where B: "bufs h b = Some B" "sane B" "sshbuf_check_sanity b h = Some B" "buf_ok h B"
    by (rule heap_ok_sanity [OF ok b])
  note bd = sane_bounds [OF B(2)]
  obtain a i blk where a: "b_cd B = Some (a, i)" "mem h a = Some blk" "i + unat (b_alloc B) \<le> length blk"
    "sshbuf_data b h = Some (take (unat (b_size B) - unat (b_off B)) (drop (i + unat (b_off B)) blk))"
    by (rule sshbuf_data_some [OF ok B(1)])
  have dl: "length d = unat (b_size B) - unat (b_off B)" using data_length [OF ok B(1)] d by auto
  have sub: "unat (b_size B - len) = unat (b_size B) - unat len" using le dl bd by (intro unat_sub) (simp add: word_le_nat_alt)
  define B1 where "B1 = (if len = 0 then B else B\<lparr>b_size := b_size B - len\<rparr>)"
  define h' where "h' = (if len = 0 then h else set_buf b B1 h)"
  have B1: "b_size B1 = b_size B - len" "b_off B1 = b_off B" "b_cd B1 = b_cd B" by (simp_all add: B1_def)
  have run: "sshbuf_consume_end b len h = Some (0, h')"
    using B unat_le_data [OF ok B(1) d, of len] le
    by (auto simp: sshbuf_consume_end_def sshbuf_len_def B1_def h'_def)
  have "b_size B - len \<le> b_alloc B" "b_off B \<le> b_size B - len" using sub le dl bd by (simp_all add: word_le_nat_alt)
  then have sane: "sane B1" using B(2) by (auto simp: sane_def B1_def)
  have k: "keeps hs b h h'"
  proof (cases "len = 0")
    case True
    then show ?thesis using keeps_refl [OF ok b] by (simp add: h'_def)
  next
    case False
    then show ?thesis
      using sane a(1-3) B(1,4) heap_okD(8) [OF ok]
      by (intro keepsI [OF ok b B(1), where B' = B1]) (auto simp: h'_def set_buf_def B1_def blk_of_def buf_ok_def)
  qed
  have "unat (b_size B - len - b_off B) = unat (b_size B) - unat len - unat (b_off B)"
    using sub le dl bd by (subst unat_sub) (simp_all add: word_le_nat_alt)
  moreover have "i + unat (b_off B) + (unat (b_size B) - unat len - unat (b_off B)) \<le> length blk" using a(3) bd by simp
  moreover have "bufs h' b = Some B1" "mem h' = mem h" using B(1) by (simp_all add: h'_def B1_def set_buf_def)
  ultimately have "sshbuf_data b h' = Some (take (unat (b_size B) - unat len - unat (b_off B)) (drop (i + unat (b_off B)) blk))"
    using a(1,2) by (simp add: sshbuf_data_def B1 ptr_add_def rd_mem_def)
  also have "unat (b_size B) - unat len - unat (b_off B) = length d - unat len" using dl by simp
  also have "take (length d - unat len) (drop (i + unat (b_off B)) blk)
      = take (length d - unat len) (take (length d) (drop (i + unat (b_off B)) blk))" by simp
  also have "take (length d) (drop (i + unat (b_off B)) blk) = d" using a(4) d dl by simp
  finally show thesis using run k that [of h'] by (simp add: h'_def set_buf_def)
qed

end
