(* ===== verification/Sshbuf_Getput.thy ===== *)
theory Sshbuf_Getput
  imports Sshbuf
begin

text \<open>
  Reading and writing values in packet buffers, \<^verbatim>\<open>openssh/openssh/sshbuf-getput-basic.c\<close>:
  integers in network byte order, strings with a length, multiple precision integers.
  Arguments that the code passes by address are pointers into the store; a result that a
  function leaves in \<^verbatim>\<open>*valp\<close> is returned, with \<open>None\<close> when it is not written.
\<close>

subsection \<open>Integers in network byte order (sshbuf.h)\<close>

definition PEEK_U64 :: "byte list \<Rightarrow> u64" where
  "PEEK_U64 p = push_bit 56 (ucast (p ! 0)) OR push_bit 48 (ucast (p ! 1)) OR push_bit 40 (ucast (p ! 2))
     OR push_bit 32 (ucast (p ! 3)) OR push_bit 24 (ucast (p ! 4)) OR push_bit 16 (ucast (p ! 5))
     OR push_bit 8 (ucast (p ! 6)) OR ucast (p ! 7)"

definition PEEK_U32 :: "byte list \<Rightarrow> u32" where
  "PEEK_U32 p = push_bit 24 (ucast (p ! 0)) OR push_bit 16 (ucast (p ! 1)) OR push_bit 8 (ucast (p ! 2)) OR ucast (p ! 3)"

definition PEEK_U16 :: "byte list \<Rightarrow> u16" where
  "PEEK_U16 p = push_bit 8 (ucast (p ! 0)) OR ucast (p ! 1)"

definition POKE_U64 :: "u64 \<Rightarrow> byte list" where
  "POKE_U64 v = map (\<lambda>n. ucast (drop_bit n v AND 0xff)) [56, 48, 40, 32, 24, 16, 8, 0]"

definition POKE_U32 :: "u32 \<Rightarrow> byte list" where
  "POKE_U32 v = map (\<lambda>n. ucast (drop_bit n v AND 0xff)) [24, 16, 8, 0]"

definition POKE_U16 :: "u16 \<Rightarrow> byte list" where
  "POKE_U16 v = map (\<lambda>n. ucast (drop_bit n v AND 0xff)) [8, 0]"

text \<open>\<^verbatim>\<open>memcpy\<close> is guarded by a test for length 0.\<close>

definition rd_len :: "ptr \<Rightarrow> nat \<Rightarrow> heap \<Rightarrow> byte list option" where
  "rd_len p n h = (if n = 0 then Some [] else rd_mem p n h)"

definition wr_len :: "ptr \<Rightarrow> byte list \<Rightarrow> heap \<Rightarrow> heap option" where
  "wr_len p bs h = (if bs = [] then Some h else wr_mem p bs h)"

subsection \<open>Getting values\<close>

definition sshbuf_get :: "nat \<Rightarrow> ptr \<Rightarrow> u64 \<Rightarrow> heap \<Rightarrow> (int \<times> heap) option" where
  "sshbuf_get b v len h =
     do {p \<leftarrow> sshbuf_ptr b h;
         (r, h) \<leftarrow> sshbuf_consume b len h;
         if r < 0 then Some (r, h)
         else if v \<noteq> None then do {bs \<leftarrow> rd_len p (unat len) h; h \<leftarrow> wr_len v bs h; Some (0, h)}
         else Some (0, h)}"

text \<open>The functions for integers have the same shape: look, consume, decode.\<close>

definition get_fixed :: "nat \<Rightarrow> (byte list \<Rightarrow> 'v) \<Rightarrow> nat \<Rightarrow> heap \<Rightarrow> (int \<times> 'v option \<times> heap) option" where
  "get_fixed n dec b h =
     do {p \<leftarrow> sshbuf_ptr b h;
         (r, h) \<leftarrow> sshbuf_consume b (word_of_nat n) h;
         if r < 0 then Some (r, None, h)
         else do {bs \<leftarrow> rd_mem p n h; Some (0, Some (dec bs), h)}}"

definition sshbuf_get_u64 :: "nat \<Rightarrow> heap \<Rightarrow> (int \<times> u64 option \<times> heap) option" where
  "sshbuf_get_u64 = get_fixed 8 PEEK_U64"

definition sshbuf_get_u32 :: "nat \<Rightarrow> heap \<Rightarrow> (int \<times> u32 option \<times> heap) option" where
  "sshbuf_get_u32 = get_fixed 4 PEEK_U32"

definition sshbuf_get_u16 :: "nat \<Rightarrow> heap \<Rightarrow> (int \<times> u16 option \<times> heap) option" where
  "sshbuf_get_u16 = get_fixed 2 PEEK_U16"

definition sshbuf_get_u8 :: "nat \<Rightarrow> heap \<Rightarrow> (int \<times> byte option \<times> heap) option" where
  "sshbuf_get_u8 = get_fixed 1 hd"

definition sshbuf_peek_string_direct :: "nat \<Rightarrow> heap \<Rightarrow> (int \<times> ptr \<times> u64) option" where
  "sshbuf_peek_string_direct b h =
     do {p \<leftarrow> sshbuf_ptr b h; n \<leftarrow> sshbuf_len b h;
         if n < 4 then Some (SSH_ERR_MESSAGE_INCOMPLETE, None, 0)
         else do {
           bs \<leftarrow> rd_mem p 4 h;
           let len = ucast (PEEK_U32 bs);
           if len > SSHBUF_SIZE_MAX - 4 then Some (SSH_ERR_STRING_TOO_LARGE, None, 0)
           else if n - 4 < len then Some (SSH_ERR_MESSAGE_INCOMPLETE, None, 0)
           else Some (0, ptr_add p 4, len)}}"

text \<open>\<^verbatim>\<open>SSHBUF_ABORT\<close> is empty in this configuration.\<close>

definition sshbuf_get_string_direct :: "nat \<Rightarrow> heap \<Rightarrow> (int \<times> ptr \<times> u64 \<times> heap) option" where
  "sshbuf_get_string_direct b h =
     do {(r, p, len) \<leftarrow> sshbuf_peek_string_direct b h;
         if r < 0 then Some (r, None, 0, h)
         else do {
           (r, h) \<leftarrow> sshbuf_consume b (len + 4) h;
           if r \<noteq> 0 then Some (SSH_ERR_INTERNAL_ERROR, p, len, h) else Some (0, p, len, h)}}"

text \<open>A copy of \<open>len\<close> bytes with a terminator in a new block.\<close>

definition copy_string :: "ptr \<Rightarrow> u64 \<Rightarrow> heap \<Rightarrow> (int \<times> ptr \<times> u64 \<times> heap) option" where
  "copy_string p len h =
     (case malloc (unat len + 1) h of
        (None, h) \<Rightarrow> Some (SSH_ERR_ALLOC_FAIL, None, 0, h)
      | (Some q, h) \<Rightarrow>
          do {bs \<leftarrow> rd_len p (unat len) h; h \<leftarrow> wr_mem (Some q) (bs @ [0]) h; Some (0, Some q, len, h)})"

definition sshbuf_get_string :: "nat \<Rightarrow> heap \<Rightarrow> (int \<times> ptr \<times> u64 \<times> heap) option" where
  "sshbuf_get_string b h =
     do {(r, p, len, h) \<leftarrow> sshbuf_get_string_direct b h;
         if r < 0 then Some (r, None, 0, h) else copy_string p len h}"

text \<open>\<^verbatim>\<open>sshbuf_skip_string\<close> is \<^verbatim>\<open>sshbuf_get_string_direct\<close> without results.\<close>

definition sshbuf_get_cstring :: "nat \<Rightarrow> heap \<Rightarrow> (int \<times> ptr \<times> u64 \<times> heap) option" where
  "sshbuf_get_cstring b h =
     do {(r, p, len) \<leftarrow> sshbuf_peek_string_direct b h;
         if r \<noteq> 0 then Some (r, None, 0, h)
         else do {
           bs \<leftarrow> rd_len p (unat len) h;
           if 0 \<in> set (butlast bs) then Some (SSH_ERR_INVALID_FORMAT, None, 0, h)
           else do {
             (r, _, _, h) \<leftarrow> sshbuf_get_string_direct b h;
             if r \<noteq> 0 then Some (- 1, None, 0, h) else copy_string p len h}}}"

definition sshbuf_get_stringb :: "nat \<Rightarrow> nat \<Rightarrow> heap \<Rightarrow> (int \<times> heap) option" where
  "sshbuf_get_stringb b v h =
     do {(r, _, _) \<leftarrow> sshbuf_peek_string_direct b h;
         if r \<noteq> 0 then Some (r, h)
         else do {
           (r, len, h) \<leftarrow> sshbuf_get_u32 b h;
           if r \<noteq> 0 then Some (r, h)
           else do {
             len \<leftarrow> len;
             (r, p, h) \<leftarrow> sshbuf_reserve v (ucast len) h;
             if r \<noteq> 0 then Some (r, h) else sshbuf_get b p (ucast len) h}}}"

subsection \<open>Putting values\<close>

definition sshbuf_put :: "nat \<Rightarrow> ptr \<Rightarrow> u64 \<Rightarrow> heap \<Rightarrow> (int \<times> heap) option" where
  "sshbuf_put b v len h =
     do {(r, p, h) \<leftarrow> sshbuf_reserve b len h;
         if r < 0 then Some (r, h)
         else do {bs \<leftarrow> rd_len v (unat len) h; h \<leftarrow> wr_len p bs h; Some (0, h)}}"

definition sshbuf_putb :: "nat \<Rightarrow> nat \<Rightarrow> heap \<Rightarrow> (int \<times> heap) option" where
  "sshbuf_putb b v h = do {p \<leftarrow> sshbuf_ptr v h; n \<leftarrow> sshbuf_len v h; sshbuf_put b p n h}"

text \<open>\<^verbatim>\<open>sshbuf_putfv\<close> with what \<^verbatim>\<open>vsnprintf\<close> makes of the format, \<open>None\<close> for a negative result.\<close>

definition sshbuf_putfv :: "nat \<Rightarrow> byte list option \<Rightarrow> heap \<Rightarrow> (int \<times> heap) option" where
  "sshbuf_putfv b out h =
     (case out of
        None \<Rightarrow> Some (SSH_ERR_INVALID_ARGUMENT, h)
      | Some s \<Rightarrow>
          if s = [] then Some (0, h)
          else do {
            (r, p, h) \<leftarrow> sshbuf_reserve b (word_of_nat (length s) + 1) h;
            if r < 0 then Some (r, h)
            else do {h \<leftarrow> wr_mem p (s @ [0]) h; sshbuf_consume_end b 1 h}})"

text \<open>The functions for integers: reserve, encode.\<close>

definition put_fixed :: "byte list \<Rightarrow> nat \<Rightarrow> heap \<Rightarrow> (int \<times> heap) option" where
  "put_fixed bs b h =
     do {(r, p, h) \<leftarrow> sshbuf_reserve b (word_of_nat (length bs)) h;
         if r < 0 then Some (r, h) else do {h \<leftarrow> wr_mem p bs h; Some (0, h)}}"

definition sshbuf_put_u64 :: "nat \<Rightarrow> u64 \<Rightarrow> heap \<Rightarrow> (int \<times> heap) option" where
  "sshbuf_put_u64 b v = put_fixed (POKE_U64 v) b"

definition sshbuf_put_u32 :: "nat \<Rightarrow> u32 \<Rightarrow> heap \<Rightarrow> (int \<times> heap) option" where
  "sshbuf_put_u32 b v = put_fixed (POKE_U32 v) b"

definition sshbuf_put_u16 :: "nat \<Rightarrow> u16 \<Rightarrow> heap \<Rightarrow> (int \<times> heap) option" where
  "sshbuf_put_u16 b v = put_fixed (POKE_U16 v) b"

definition sshbuf_put_u8 :: "nat \<Rightarrow> byte \<Rightarrow> heap \<Rightarrow> (int \<times> heap) option" where
  "sshbuf_put_u8 b v = put_fixed [v] b"

definition sshbuf_put_string :: "nat \<Rightarrow> ptr \<Rightarrow> u64 \<Rightarrow> heap \<Rightarrow> (int \<times> heap) option" where
  "sshbuf_put_string b v len h =
     (if len > SSHBUF_SIZE_MAX - 4 then Some (SSH_ERR_NO_BUFFER_SPACE, h)
      else do {
        (r, d, h) \<leftarrow> sshbuf_reserve b (len + 4) h;
        if r < 0 then Some (r, h)
        else do {
          h \<leftarrow> wr_mem d (POKE_U32 (ucast len)) h;
          bs \<leftarrow> rd_len v (unat len) h;
          h \<leftarrow> wr_len (ptr_add d 4) bs h;
          Some (0, h)}})"

definition strlen :: "ptr \<Rightarrow> heap \<Rightarrow> u64 option" where
  "strlen p h =
     do {(a, i) \<leftarrow> p; blk \<leftarrow> mem h a;
         if 0 \<in> set (drop i blk) then Some (word_of_nat (length (takeWhile (\<lambda>c. c \<noteq> 0) (drop i blk)))) else None}"

definition sshbuf_put_cstring :: "nat \<Rightarrow> ptr \<Rightarrow> heap \<Rightarrow> (int \<times> heap) option" where
  "sshbuf_put_cstring b v h =
     do {n \<leftarrow> (if v = None then Some 0 else strlen v h); sshbuf_put_string b v n h}"

definition sshbuf_put_stringb :: "nat \<Rightarrow> nat \<Rightarrow> heap \<Rightarrow> (int \<times> heap) option" where
  "sshbuf_put_stringb b v h = do {p \<leftarrow> sshbuf_ptr v h; n \<leftarrow> sshbuf_len v h; sshbuf_put_string b p n h}"

text \<open>\<^verbatim>\<open>sshbuf_froms\<close>; neither pointer argument is NULL.\<close>

definition sshbuf_froms :: "nat \<Rightarrow> heap \<Rightarrow> (int \<times> nat option \<times> heap) option" where
  "sshbuf_froms b h =
     do {(r, p, len) \<leftarrow> sshbuf_peek_string_direct b h;
         if r \<noteq> 0 then Some (r, None, h)
         else (case sshbuf_from p len h of
             (None, h) \<Rightarrow> Some (SSH_ERR_ALLOC_FAIL, None, h)
           | (Some c, h) \<Rightarrow>
               do {(r, h) \<leftarrow> sshbuf_consume b (len + 4) h;
                   if r \<noteq> 0 then do {h \<leftarrow> sshbuf_free 1 (Some c) h; Some (r, None, h)}
                   else do {(r, h) \<leftarrow> sshbuf_set_parent c b h; Some (0, Some c, h)}})}"

subsection \<open>Multiple precision integers\<close>

definition leading0 :: "byte list \<Rightarrow> nat" where
  "leading0 bs = length (takeWhile (\<lambda>c. c = 0) bs)"

definition sshbuf_put_bignum2_bytes :: "nat \<Rightarrow> ptr \<Rightarrow> u64 \<Rightarrow> heap \<Rightarrow> (int \<times> heap) option" where
  "sshbuf_put_bignum2_bytes b v len h =
     (if len > SSHBUF_SIZE_MAX - 5 then Some (SSH_ERR_NO_BUFFER_SPACE, h)
      else do {
        bs \<leftarrow> rd_len v (unat len) h;
        let s = ptr_add v (leading0 bs);
        let len = len - word_of_nat (leading0 bs);
        let bs = drop (leading0 bs) bs;
        let pre = (if bs \<noteq> [] \<and> hd bs AND 0x80 \<noteq> 0 then [0] else []);
        (r, d, h) \<leftarrow> sshbuf_reserve b (len + 4 + word_of_nat (length pre)) h;
        if r < 0 then Some (r, h)
        else do {
          h \<leftarrow> wr_mem d (POKE_U32 (ucast (len + word_of_nat (length pre)))) h;
          h \<leftarrow> wr_len (ptr_add d 4) pre h;
          bs \<leftarrow> rd_len s (unat len) h;
          h \<leftarrow> wr_len (ptr_add d (4 + length pre)) bs h;
          Some (0, h)}})"

abbreviation (input) SSHBUF_MAX_BIGNUM :: u64 where "SSHBUF_MAX_BIGNUM \<equiv> 2048"

definition sshbuf_get_bignum2_bytes_direct :: "nat \<Rightarrow> heap \<Rightarrow> (int \<times> ptr \<times> u64 \<times> heap) option" where
  "sshbuf_get_bignum2_bytes_direct b h =
     do {(r, d, olen) \<leftarrow> sshbuf_peek_string_direct b h;
         if r < 0 then Some (r, None, 0, h)
         else do {
           bs \<leftarrow> rd_len d (unat olen) h;
           if olen \<noteq> 0 \<and> hd bs AND 0x80 \<noteq> 0 then Some (SSH_ERR_BIGNUM_IS_NEGATIVE, None, 0, h)
           else if olen > SSHBUF_MAX_BIGNUM + 1 \<or> olen = SSHBUF_MAX_BIGNUM + 1 \<and> hd bs \<noteq> 0
           then Some (SSH_ERR_BIGNUM_TOO_LARGE, None, 0, h)
           else do {
             (r, h) \<leftarrow> sshbuf_consume b (olen + 4) h;
             if r \<noteq> 0 then Some (SSH_ERR_INTERNAL_ERROR, ptr_add d (leading0 bs), olen - word_of_nat (leading0 bs), h)
             else Some (0, ptr_add d (leading0 bs), olen - word_of_nat (leading0 bs), h)}}}"

subsection \<open>Encoding and decoding\<close>

lemma ucast_mask_byte [simp]: "(ucast (v AND 255) :: byte) = ucast (v :: 'a::len word)"
proof -
  have "v AND 255 = take_bit 8 v" by (simp add: take_bit_eq_mask mask_eq_exp_minus_1)
  moreover have "(ucast (take_bit 8 v) :: byte) = ucast v"
    by (rule bit_word_eqI) (auto simp: bit_simps dest: bit_imp_le_length)
  ultimately show ?thesis by simp
qed

lemma PEEK_POKE_U16 [simp]: "PEEK_U16 (POKE_U16 v @ xs) = v"
proof (rule bit_word_eqI)
  fix n
  assume "n < LENGTH(16)"
  then consider "n < 8" | "8 \<le> n" "n < 16" by force
  then show "bit (PEEK_U16 (POKE_U16 v @ xs)) n = bit v n"
    by cases (auto simp: PEEK_U16_def POKE_U16_def bit_simps)
qed

lemma PEEK_POKE_U32 [simp]: "PEEK_U32 (POKE_U32 v @ xs) = v"
proof (rule bit_word_eqI)
  fix n
  assume "n < LENGTH(32)"
  then consider "n < 8" | "8 \<le> n" "n < 16" | "16 \<le> n" "n < 24" | "24 \<le> n" "n < 32" by force
  then show "bit (PEEK_U32 (POKE_U32 v @ xs)) n = bit v n"
    by cases (auto simp: PEEK_U32_def POKE_U32_def bit_simps)
qed

lemma PEEK_POKE_U64 [simp]: "PEEK_U64 (POKE_U64 v @ xs) = v"
proof (rule bit_word_eqI)
  fix n
  assume "n < LENGTH(64)"
  then consider "n < 8" | "8 \<le> n" "n < 16" | "16 \<le> n" "n < 24" | "24 \<le> n" "n < 32"
    | "32 \<le> n" "n < 40" | "40 \<le> n" "n < 48" | "48 \<le> n" "n < 56" | "56 \<le> n" "n < 64" by force
  then show "bit (PEEK_U64 (POKE_U64 v @ xs)) n = bit v n"
    by cases (auto simp: PEEK_U64_def POKE_U64_def bit_simps)
qed

lemma POKE_length [simp]: "length (POKE_U64 a) = 8" "length (POKE_U32 b) = 4" "length (POKE_U16 c) = 2"
  by (simp_all add: POKE_U64_def POKE_U32_def POKE_U16_def)

lemma unat_eq_word_of_nat: "unat (x :: u64) = n \<Longrightarrow> x = word_of_nat n"
  by auto

subsection \<open>Pointers into the data\<close>

lemma ptr_data:
  assumes ok: "heap_ok hs h" and b: "b \<in> hs" and d: "sshbuf_data b h = Some d"
  obtains p where "sshbuf_ptr b h = Some p" "sshbuf_len b h = Some (word_of_nat (length d))"
    "length d \<le> 134217728" "\<And>i n. i + n \<le> length d \<Longrightarrow> rd_mem (ptr_add p i) n h = Some (take n (drop i d))"
    "\<exists>a i. p = Some (a, i) \<and> (\<forall>B. bufs h b = Some B \<longrightarrow> blk_of B = a)"
proof -
  obtain B where B: "bufs h b = Some B" "sane B" "sshbuf_check_sanity b h = Some B" "buf_ok h B"
    by (rule heap_ok_sanity [OF ok b])
  note bd = sane_bounds [OF B(2)]
  obtain a i blk where a: "b_cd B = Some (a, i)" "mem h a = Some blk" "i + unat (b_alloc B) \<le> length blk" "blk_of B = a"
    "sshbuf_data b h = Some (take (unat (b_size B) - unat (b_off B)) (drop (i + unat (b_off B)) blk))"
    by (rule sshbuf_data_some [OF ok B(1)])
  have dl: "length d = unat (b_size B) - unat (b_off B)" using data_length [OF ok B(1)] d by auto
  have dd: "d = take (length d) (drop (i + unat (b_off B)) blk)" using a(5) d dl by simp
  show thesis
  proof (rule that [of "Some (a, i + unat (b_off B))"])
    show "sshbuf_ptr b h = Some (Some (a, i + unat (b_off B)))"
      using B a(1) by (simp add: sshbuf_ptr_def ptr_add_def)
    have "b_size B - b_off B = word_of_nat (length d)" using dl bd(5) by (metis unat_eq_word_of_nat)
    then show "sshbuf_len b h = Some (word_of_nat (length d))" using B by (simp add: sshbuf_len_def)
    show "length d \<le> 134217728" using dl bd by simp
    show "\<exists>x y. Some (a, i + unat (b_off B)) = Some (x, y) \<and> (\<forall>B. bufs h b = Some B \<longrightarrow> blk_of B = x)"
      using a(4) B(1) by simp
    fix j n
    assume le: "j + n \<le> length d"
    have "i + unat (b_off B) + j + n \<le> length blk" using le dl a(3) bd by simp
    moreover have "take n (drop j d) = take n (drop (i + unat (b_off B) + j) blk)"
      using le by (subst dd) (simp add: drop_take min_def add.commute)
    ultimately show "rd_mem (ptr_add (Some (a, i + unat (b_off B))) j) n h = Some (take n (drop j d))"
      using a(2) by (simp add: ptr_add_def rd_mem_def add.assoc)
  qed
qed

lemma wr_mem_append:
  "wr_mem p (xs @ ys) h = Option.bind (wr_mem p xs h) (wr_mem (ptr_add p (length xs)) ys)"
proof (cases p)
  case (Some q)
  obtain a i where q: "q = (a, i)" by fastforce
  show ?thesis
    by (cases "mem h a") (auto simp: Some q wr_mem_def ptr_add_def splice_def add.commute add.left_commute)
qed (simp add: wr_mem_def ptr_add_def)

lemma wr_mem_Nil: "wr_mem p [] h = Some h' \<Longrightarrow> h' = h"
  by (cases h) (auto simp: wr_mem_def splice_def bind_eq_Some_conv fun_upd_idem split: if_splits)

lemma wr_mem_bufs: "wr_mem p xs h = Some h' \<Longrightarrow> bufs h' = bufs h"
  by (auto simp: wr_mem_def bind_eq_Some_conv split: if_splits)

subsection \<open>What the functions do with the data\<close>

text \<open>
  The reasons to refuse \<open>n\<close> more bytes: the buffer is read-only or has children, the bytes
  do not fit, or an allocation fails.
\<close>

definition refused :: "nat \<Rightarrow> nat \<Rightarrow> heap \<Rightarrow> bool" where
  "refused b n h \<longleftrightarrow> (\<exists>B. bufs h b = Some B \<and>
     (locked B \<or> unat (b_max_size B) < unat (b_size B) - unat (b_off B) + n \<or> (\<exists>k. \<not> malloc_ok h k)))"

text \<open>
  \<^verbatim>\<open>sshbuf_reserve\<close> either fails with a negative result and changes no data, or hands out
  space at the end of the data that takes any bytes of the right length.
\<close>

lemma reserve_cases:
  assumes ok: "heap_ok hs h" and b: "b \<in> hs" and d: "sshbuf_data b h = Some d"
  obtains (bad) r h' where "sshbuf_reserve b len h = Some (r, None, h')" "r < 0" "keeps hs b h h'"
      "sshbuf_data b h' = Some d" "refused b (unat len) h"
  | (good) p h1 where "sshbuf_reserve b len h = Some (0, p, h1)" "length d + unat len \<le> 134217728"
      "\<And>bs. length bs = unat len \<Longrightarrow> \<exists>h'. wr_mem p bs h1 = Some h' \<and> keeps hs b h h' \<and> sshbuf_data b h' = Some (d @ bs)"
      "\<And>a B. mem h a \<noteq> None \<Longrightarrow> bufs h b = Some B \<Longrightarrow> blk_of B \<noteq> a \<Longrightarrow> mem h1 a = mem h a"
      "\<And>a B. mem h a \<noteq> None \<Longrightarrow> bufs h b = Some B \<Longrightarrow> blk_of B \<noteq> a \<Longrightarrow> fst (the p) \<noteq> a" "p \<noteq> None"
proof -
  obtain B where B: "bufs h b = Some B" "sane B" using heap_ok_sanity [OF ok b] by metis
  have dl: "length d = unat (b_size B) - unat (b_off B)" using data_length [OF ok B(1)] d by auto
  consider (ro) "locked B" | (full) "\<not> locked B" "unat (b_max_size B) < length d + unat len"
    | (room) "\<not> locked B" "length d + unat len \<le> unat (b_max_size B)" by linarith
  then show thesis
  proof cases
    case ro
    then show thesis
      using allocate_fails(1) [OF ok B(1)] keeps_refl [OF ok b] d
      by (intro bad [of SSH_ERR_BUFFER_READ_ONLY h]) (simp_all add: sshbuf_reserve_def refused_def B(1))
  next
    case full
    then show thesis
      using allocate_fails(2) [OF ok B(1)] keeps_refl [OF ok b] d dl
      by (intro bad [of SSH_ERR_NO_BUFFER_SPACE h]) (simp_all add: sshbuf_reserve_def refused_def B(1))
  next
    case room
    note rw = reserve_write [OF ok b B(1) room(1) d room(2)]
    show thesis
    proof (rule rw [where bs = "replicate (unat len) 0"])
      fix h'
      assume "sshbuf_reserve b len h = Some (SSH_ERR_ALLOC_FAIL, None, h')" "keeps hs b h h'" "sshbuf_data b h' = Some d"
        "\<exists>n. \<not> malloc_ok h n"
      then show thesis by (intro bad [of SSH_ERR_ALLOC_FAIL h']) (simp_all add: refused_def B(1))
    next
      fix p h1 h'
      assume g: "sshbuf_reserve b len h = Some (0, p, h1)" "\<And>a. mem h a \<noteq> None \<Longrightarrow> blk_of B \<noteq> a \<Longrightarrow> mem h1 a = mem h a \<and> fst (the p) \<noteq> a" "p \<noteq> None"
      have "\<exists>h'. wr_mem p bs h1 = Some h' \<and> keeps hs b h h' \<and> sshbuf_data b h' = Some (d @ bs)"
        if "length bs = unat len" for bs
        by (rule rw [OF that]) (use g in auto)
      moreover have "length d + unat len \<le> 134217728" using room(2) sane_bounds(4) [OF B(2)] by simp
      ultimately show thesis using g B(1) by (intro good [of p h1]) auto
    qed simp
  qed
qed

lemma put_fixed_ok:
  assumes ok: "heap_ok hs h" and b: "b \<in> hs" and d: "sshbuf_data b h = Some d" and bs: "length bs < 2 ^ 64"
  obtains r h' where "put_fixed bs b h = Some (r, h')" "keeps hs b h h'"
    "sshbuf_data b h' = Some (if r = 0 then d @ bs else d)" "r \<le> 0" "r = 0 \<or> refused b (length bs) h"
proof -
  have n: "unat (word_of_nat (length bs) :: u64) = length bs" using bs by (simp add: unat_of_nat)
  show thesis
  proof (rule reserve_cases [OF ok b d, of "word_of_nat (length bs)"])
    fix r h'
    assume "sshbuf_reserve b (word_of_nat (length bs)) h = Some (r, None, h')" "r < 0" "keeps hs b h h'" "sshbuf_data b h' = Some d"
      "refused b (unat (word_of_nat (length bs) :: u64)) h"
    then show thesis using n by (intro that [of r h']) (simp_all add: put_fixed_def)
  next
    fix p h1
    assume "sshbuf_reserve b (word_of_nat (length bs)) h = Some (0, p, h1)"
      "\<And>xs. length xs = unat (word_of_nat (length bs) :: u64) \<Longrightarrow>
         \<exists>h'. wr_mem p xs h1 = Some h' \<and> keeps hs b h h' \<and> sshbuf_data b h' = Some (d @ xs)"
    moreover from this(2) [of bs] obtain h' where "wr_mem p bs h1 = Some h'" "keeps hs b h h'" "sshbuf_data b h' = Some (d @ bs)"
      using n by auto
    ultimately show thesis by (intro that [of 0 h']) (simp_all add: put_fixed_def)
  qed
qed

lemma get_fixed_ok:
  assumes ok: "heap_ok hs h" and b: "b \<in> hs" and d: "sshbuf_data b h = Some d" and n: "n < 2 ^ 64"
  shows "n \<le> length d \<Longrightarrow> \<exists>h'. get_fixed n dec b h = Some (0, Some (dec (take n d)), h') \<and> keeps hs b h h'
           \<and> sshbuf_data b h' = Some (drop n d)"
    "length d < n \<Longrightarrow> get_fixed n dec b h = Some (SSH_ERR_MESSAGE_INCOMPLETE, None, h)"
proof -
  obtain p where p: "sshbuf_ptr b h = Some p" "\<And>i n. i + n \<le> length d \<Longrightarrow> rd_mem (ptr_add p i) n h = Some (take n (drop i d))"
    "\<exists>a i. p = Some (a, i)"
    using ptr_data [OF ok b d] by metis
  have p0: "ptr_add p 0 = p" using p(3) by (auto simp: ptr_add_def)
  have n': "unat (word_of_nat n :: u64) = n" using n by (simp add: unat_of_nat)
  show "\<exists>h'. get_fixed n dec b h = Some (0, Some (dec (take n d)), h') \<and> keeps hs b h h'
           \<and> sshbuf_data b h' = Some (drop n d)" if le: "n \<le> length d"
  proof -
    obtain h' where c: "sshbuf_consume b (word_of_nat n) h = Some (0, h')" "keeps hs b h h'"
      "sshbuf_data b h' = Some (drop n d)" "mem h' = mem h"
      using consume_ok [OF ok b d, of "word_of_nat n"] le n' by metis
    have "rd_mem p n h' = Some (take n d)" using p(2) [of 0 n] le c(4) p0 by (simp add: rd_mem_def)
    with c p(1) show ?thesis by (intro exI [of _ h']) (simp add: get_fixed_def)
  qed
  show "get_fixed n dec b h = Some (SSH_ERR_MESSAGE_INCOMPLETE, None, h)" if "length d < n"
    using consume_short(1) [OF ok b d, of "word_of_nat n"] that n' p(1) by (simp add: get_fixed_def)
qed

text \<open>Memory that a caller reads from: it is not the block of the buffer.\<close>

definition foreign :: "nat \<Rightarrow> ptr \<Rightarrow> heap \<Rightarrow> bool" where
  "foreign b p h \<longleftrightarrow> (\<forall>a i B. p = Some (a, i) \<longrightarrow> bufs h b = Some B \<longrightarrow> blk_of B \<noteq> a)"

lemma rd_len_foreign:
  assumes "rd_len v n h = Some bs" "foreign b v h" "bufs h b = Some B"
    and "\<And>a B. mem h a \<noteq> None \<Longrightarrow> bufs h b = Some B \<Longrightarrow> blk_of B \<noteq> a \<Longrightarrow> mem h1 a = mem h a"
  shows "rd_len v n h1 = Some bs"
proof (cases "n = 0")
  case False
  then obtain a i blk where v: "v = Some (a, i)" "mem h a = Some blk"
    using assms(1) by (auto simp: rd_len_def rd_mem_def bind_eq_Some_conv)
  then have "mem h1 a = mem h a" using assms(2-4) by (simp add: foreign_def)
  with assms(1) v False show ?thesis by (simp add: rd_len_def rd_mem_def)
qed (use assms in \<open>simp add: rd_len_def\<close>)

lemma put_ok:
  assumes ok: "heap_ok hs h" and b: "b \<in> hs" and d: "sshbuf_data b h = Some d"
    and v: "rd_len v (unat len) h = Some bs" "foreign b v h"
  obtains r h' where "sshbuf_put b v len h = Some (r, h')" "keeps hs b h h'"
    "sshbuf_data b h' = Some (if r = 0 then d @ bs else d)" "r \<le> 0" "r = 0 \<or> refused b (length bs) h"
proof -
  obtain B where B: "bufs h b = Some B" using heap_okD(4) [OF ok b] by blast
  have len: "length bs = unat len" using v(1) by (auto simp: rd_len_def rd_mem_def bind_eq_Some_conv split: if_splits)
  show thesis
  proof (rule reserve_cases [OF ok b d, of len])
    fix r h'
    assume "sshbuf_reserve b len h = Some (r, None, h')" "r < 0" "keeps hs b h h'" "sshbuf_data b h' = Some d"
      "refused b (unat len) h"
    then show thesis using len by (intro that [of r h']) (simp_all add: sshbuf_put_def)
  next
    fix p h1
    assume g: "sshbuf_reserve b len h = Some (0, p, h1)"
      "\<And>xs. length xs = unat len \<Longrightarrow> \<exists>h'. wr_mem p xs h1 = Some h' \<and> keeps hs b h h' \<and> sshbuf_data b h' = Some (d @ xs)"
      "\<And>a B. mem h a \<noteq> None \<Longrightarrow> bufs h b = Some B \<Longrightarrow> blk_of B \<noteq> a \<Longrightarrow> mem h1 a = mem h a"
    from g(2) [OF len] obtain h' where h': "wr_mem p bs h1 = Some h'" "keeps hs b h h'" "sshbuf_data b h' = Some (d @ bs)" by auto
    have rd: "rd_len v (unat len) h1 = Some bs" using rd_len_foreign [OF v B g(3)] .
    show thesis
    proof (cases "bs = []")
      case True
      then have "h' = h1" using h'(1) wr_mem_Nil by simp
      with True g(1) h' rd show thesis by (intro that [of 0 h']) (simp_all add: sshbuf_put_def wr_len_def)
    next
      case False
      with g(1) h' rd show thesis by (intro that [of 0 h']) (simp_all add: sshbuf_put_def wr_len_def)
    qed
  qed
qed

lemma wr_mem_other:
  assumes "wr_mem p xs h = Some h'" "fst (the p) \<noteq> a"
  shows "mem h' a = mem h a"
  using assms by (auto simp: wr_mem_def bind_eq_Some_conv split: if_splits)

lemma put_string_ok:
  assumes ok: "heap_ok hs h" and b: "b \<in> hs" and d: "sshbuf_data b h = Some d"
    and v: "rd_len v (unat len) h = Some bs" "foreign b v h"
  obtains r h' where "sshbuf_put_string b v len h = Some (r, h')" "keeps hs b h h'"
    "sshbuf_data b h' = Some (if r = 0 then d @ POKE_U32 (ucast len) @ bs else d)" "r \<le> 0"
    "r = 0 \<Longrightarrow> unat len \<le> 134217724"
proof (cases "len > SSHBUF_SIZE_MAX - 4")
  case True
  then show thesis
    using that [of SSH_ERR_NO_BUFFER_SPACE h] keeps_refl [OF ok b] d by (simp add: sshbuf_put_string_def)
next
  case small: False
  then have le: "unat len \<le> 134217724" by (simp add: word_less_nat_alt)
  obtain B where B: "bufs h b = Some B" using heap_okD(4) [OF ok b] by blast
  have len: "length bs = unat len" using v(1) by (auto simp: rd_len_def rd_mem_def bind_eq_Some_conv split: if_splits)
  have len4: "unat (len + 4) = unat len + 4" using le unat_add_small [of len 4] by simp
  show thesis
  proof (rule reserve_cases [OF ok b d, of "len + 4"])
    fix r h'
    assume "sshbuf_reserve b (len + 4) h = Some (r, None, h')" "r < 0" "keeps hs b h h'" "sshbuf_data b h' = Some d"
    then show thesis using small by (intro that [of r h']) (simp_all add: sshbuf_put_string_def)
  next
    fix p h1
    assume g: "sshbuf_reserve b (len + 4) h = Some (0, p, h1)"
      "\<And>xs. length xs = unat (len + 4) \<Longrightarrow> \<exists>h'. wr_mem p xs h1 = Some h' \<and> keeps hs b h h' \<and> sshbuf_data b h' = Some (d @ xs)"
      "\<And>a B. mem h a \<noteq> None \<Longrightarrow> bufs h b = Some B \<Longrightarrow> blk_of B \<noteq> a \<Longrightarrow> mem h1 a = mem h a"
      "\<And>a B. mem h a \<noteq> None \<Longrightarrow> bufs h b = Some B \<Longrightarrow> blk_of B \<noteq> a \<Longrightarrow> fst (the p) \<noteq> a"
    let ?xs = "POKE_U32 (ucast len) @ bs"
    obtain h' where h': "wr_mem p ?xs h1 = Some h'" "keeps hs b h h'" "sshbuf_data b h' = Some (d @ ?xs)"
      using g(2) [of ?xs] len len4 by auto
    then obtain h2 where h2: "wr_mem p (POKE_U32 (ucast len)) h1 = Some h2" "wr_mem (ptr_add p 4) bs h2 = Some h'"
      by (auto simp: wr_mem_append bind_eq_Some_conv)
    have mem2: "mem h2 a = mem h a" if "mem h a \<noteq> None" "bufs h b = Some B" "blk_of B \<noteq> a" for a B
      using wr_mem_other [OF h2(1) g(4) [OF that]] g(3) [OF that] by simp
    have rd: "rd_len v (unat len) h2 = Some bs" using rd_len_foreign [OF v B mem2] .
    have "wr_len (ptr_add p 4) bs h2 = Some h'" using h2(2) wr_mem_Nil by (cases "bs = []") (auto simp: wr_len_def)
    then show thesis
      using small g(1) h2(1) rd h' le by (intro that [of 0 h']) (simp_all add: sshbuf_put_string_def)
  qed
qed

text \<open>A string at the front of the data.\<close>

lemma peek_string_ok:
  assumes ok: "heap_ok hs h" and b: "b \<in> hs"
    and d: "sshbuf_data b h = Some (POKE_U32 (ucast len) @ bs @ rest)" "length bs = unat len" "unat len \<le> 134217724"
  obtains q where "sshbuf_peek_string_direct b h = Some (0, q, len)" "rd_mem q (unat len) h = Some bs"
proof -
  let ?d = "POKE_U32 (ucast len) @ bs @ rest"
  obtain p where p: "sshbuf_ptr b h = Some p" "sshbuf_len b h = Some (word_of_nat (length ?d))" "length ?d \<le> 134217728"
    "\<And>i n. i + n \<le> length ?d \<Longrightarrow> rd_mem (ptr_add p i) n h = Some (take n (drop i ?d))" "\<exists>a i. p = Some (a, i)"
    using ptr_data [OF ok b d(1)] by metis
  have p0: "ptr_add p 0 = p" using p(5) by (auto simp: ptr_add_def)
  define N where "N = length ?d"
  have N: "N = unat len + length rest + 4" using d(2) by (simp add: N_def)
  have n: "unat (word_of_nat N :: u64) = N" using p(3) [folded N_def] by (simp add: unat_of_nat)
  have rd: "rd_mem p 4 h = Some (POKE_U32 (ucast len))" using p(4) [of 0 4] p0 by simp
  have u: "ucast (ucast len :: u32) = len"
    using d(3) by (simp add: word_unat_eq_iff unsigned_ucast_eq unsigned_take_bit_eq take_bit_nat_eq_self)
  have "\<not> word_of_nat N < (4 :: u64)" using n N by (simp add: word_less_nat_alt)
  moreover have "unat (word_of_nat N - (4 :: u64)) = N - 4"
    using n N by (subst unat_sub) (simp_all add: word_le_nat_alt)
  ultimately have "sshbuf_peek_string_direct b h = Some (0, ptr_add p 4, len)"
    using p(1) p(2) [folded N_def] rd d(3) PEEK_POKE_U32 [of "ucast len" "[]"] u N
    by (simp add: sshbuf_peek_string_direct_def word_less_nat_alt)
  with that p(4) [of 4 "unat len"] d(2) show thesis by simp
qed

lemma get_string_direct_ok:
  assumes ok: "heap_ok hs h" and b: "b \<in> hs"
    and d: "sshbuf_data b h = Some (POKE_U32 (ucast len) @ bs @ rest)" "length bs = unat len" "unat len \<le> 134217724"
  obtains q h' where "sshbuf_get_string_direct b h = Some (0, q, len, h')" "rd_mem q (unat len) h' = Some bs"
    "keeps hs b h h'" "sshbuf_data b h' = Some rest"
proof -
  obtain q where q: "sshbuf_peek_string_direct b h = Some (0, q, len)" "rd_mem q (unat len) h = Some bs"
    by (rule peek_string_ok [OF ok b d])
  have len4: "unat (len + 4) = unat len + 4" using d(3) unat_add_small [of len 4] by simp
  obtain h' where c: "sshbuf_consume b (len + 4) h = Some (0, h')" "keeps hs b h h'"
    "sshbuf_data b h' = Some (drop (unat (len + 4)) (POKE_U32 (ucast len) @ bs @ rest))" "mem h' = mem h"
    using consume_ok [OF ok b d(1), of "len + 4"] len4 d(2) by auto
  show thesis
    using that [of q h'] q c len4 d(2) by (simp add: sshbuf_get_string_direct_def rd_mem_def)
qed

end
