(* ===== verification/Sshbuf_Contract.thy ===== *)
theory Sshbuf_Contract
  imports Sshbuf_Getput
begin

text \<open>
  What packet buffers promise: the operations that create, reset and free them keep the
  invariant of the store, so that no sequence of operations raises SIGSEGV or touches the
  data of another buffer, and a buffer is a queue of bytes. Also the two cases in which
  \<^verbatim>\<open>sshbuf.c\<close> breaks these promises.
\<close>

subsection \<open>Resetting and resizing\<close>

lemma set_buf_fields [simp]:
  "mem (set_buf b B h) = mem h" "bufs (set_buf b B h) = (bufs h)(b \<mapsto> B)" "fresh (set_buf b B h) = fresh h"
  "rd_mem p n (set_buf b B h) = rd_mem p n h"
  by (simp_all add: set_buf_def rd_mem_def)

lemma keeps_write:
  assumes ok: "heap_ok hs h" and b: "b \<in> hs" "bufs h b = Some B" and un: "\<not> locked B" and len: "length bs \<le> unat (b_alloc B)"
  obtains h' where "wr_mem (b_d B) bs h = Some h'" "keeps hs b h h'" "bufs h' = bufs h"
proof -
  have bok: "buf_ok h B" "sane B" using heap_okD(1) [OF ok b(2)] by (simp_all add: buf_ok_def)
  note u = unlocked [OF ok b un]
  obtain a blk where a: "b_cd B = Some (a, 0)" "mem h a = Some blk" "unat (b_alloc B) \<le> length blk" "blk_of B = a"
    using sshbuf_data_some [OF ok b(2)] u(2) by (metis add_0)
  have d: "b_d B = Some (a, 0)" using sane_bounds(8) [OF bok(2)] u(2) a(1) by simp
  define h' where "h' = h\<lparr>mem := (mem h)(a \<mapsto> splice 0 bs blk)\<rparr>"
  have "wr_mem (b_d B) bs h = Some h'" unfolding d h'_def using a len by (intro wr_mem_eq) simp_all
  moreover have "keeps hs b h h'"
    using a un b(2) bok len heap_okD(8) [OF ok]
    by (intro keepsI [OF ok b, where B' = B]) (auto simp: h'_def buf_ok_def)
  ultimately show thesis using that by (simp add: h'_def)
qed

lemma keeps_set_buf:
  assumes ok: "heap_ok hs h" and b: "b \<in> hs" "bufs h b = Some B" and s: "sane B'"
    and same: "b_cd B' = b_cd B" "b_readonly B' = b_readonly B" "b_parent B' = b_parent B" "b_refcount B' = b_refcount B"
      "b_alloc B' = b_alloc B"
  shows "keeps hs b h (set_buf b B' h)"
proof -
  have "buf_ok h B" using heap_okD(1) [OF ok b(2)] .
  then show ?thesis
    using s same b heap_okD(8) [OF ok]
    by (intro keepsI [OF ok b, where B' = B']) (auto simp: set_buf_def blk_of_def buf_ok_def)
qed

text \<open>The smallest block of a writable buffer; callers do not set smaller limits.\<close>

definition roomy :: "sshbuf \<Rightarrow> bool" where
  "roomy B \<longleftrightarrow> b_readonly B \<or> SSHBUF_SIZE_INIT \<le> b_alloc B"

lemma reset_ok:
  assumes ok: "heap_ok hs h" and b: "b \<in> hs" "bufs h b = Some B" and big: "roomy B"
  obtains h' B' where "sshbuf_reset b h = Some h'" "keeps hs b h h'" "sshbuf_data b h' = Some []"
    "bufs h' b = Some B'" "roomy B'" "b_max_size B' = b_max_size B"
proof -
  have s: "sane B" "sshbuf_check_sanity b h = Some B"
    using heap_okD(1) [OF ok b(2)] b(2) by (simp_all add: buf_ok_def sshbuf_check_sanity_def)
  show thesis
  proof (cases "locked B")
    case True
    define B' where "B' = B\<lparr>b_off := b_size B\<rparr>"
    have k: "keeps hs b h (set_buf b B' h)"
      using s(1) by (intro keeps_set_buf [OF ok b]) (auto simp: B'_def sane_def)
    have B': "bufs (set_buf b B' h) b = Some B'" by (simp add: set_buf_def)
    have "sshbuf_data b (set_buf b B' h) = Some []"
      using data_length [OF keeps_heap_ok [OF k] B'] by (simp add: B'_def)
    then show thesis
      using k B' True b(2) big by (intro that [of "set_buf b B' h" B']) (simp_all add: sshbuf_reset_def B'_def roomy_def)
  next
    case False
    define B0 where "B0 = B\<lparr>b_off := 0, b_size := 0\<rparr>"
    define h0 where "h0 = set_buf b B0 h"
    have k0: "keeps hs b h h0"
      unfolding h0_def using s(1) by (intro keeps_set_buf [OF ok b]) (auto simp: B0_def sane_def)
    have B0: "bufs h0 b = Some B0" "\<not> locked B0" using False by (simp_all add: h0_def set_buf_def B0_def locked_def)
    have ro: "\<not> b_readonly B" using False by (simp add: locked_def)
    have init: "256 \<le> b_alloc B" "256 \<le> b_max_size B"
      using big ro s(1) by (auto simp: roomy_def sane_def not_less)
    obtain h1 B1 where h1: "(if b_alloc B \<noteq> 256 then map_option snd (grow b 256 h0) else Some h0) = Some h1"
      "keeps hs b h0 h1" "bufs h1 b = Some B1" "256 \<le> b_alloc B1" "b_size B1 = 0" "b_off B1 = 0"
      "b_max_size B1 = b_max_size B" "\<not> locked B1"
    proof (cases "b_alloc B = 256")
      case True
      then show thesis
        using that [of h0 B0] keeps_refl [OF keeps_heap_ok [OF k0] b(1)] B0 by (simp add: B0_def)
    next
      case big: False
      have c: "b_size B0 \<le> 256" "256 \<le> b_max_size B0" using init by (simp_all add: B0_def)
      obtain r h1 where g: "grow b 256 h0 = Some (r, h1)" "keeps hs b h0 h1"
        "r = 0 \<and> (\<exists>p. bufs h1 b = Some (B0\<lparr>b_cd := p, b_d := p, b_alloc := 256\<rparr>)) \<or> r = SSH_ERR_ALLOC_FAIL \<and> bufs h1 b = Some B0"
        by (rule grow_ok [OF keeps_heap_ok [OF k0] b(1) B0 c]) (assumption | rule that)+
      then show thesis
        using big init B0 that [of h1] by (auto simp: B0_def locked_def)
    qed
    have ok1: "heap_ok hs h1" using h1(2) by (rule keeps_heap_ok)
    obtain h2 where w: "wr_mem (b_d B1) (replicate 256 0) h1 = Some h2" "keeps hs b h1 h2" "bufs h2 = bufs h1"
      using keeps_write [OF ok1 b(1) h1(3,8), of "replicate 256 0"] h1(4) by (auto simp: word_le_nat_alt)
    have k: "keeps hs b h h2" using keeps_trans [OF keeps_trans [OF k0 h1(2)] w(2)] .
    have "sshbuf_data b h2 = Some []" using data_length [OF keeps_heap_ok [OF k], of b B1] w(3) h1 by simp
    moreover have "sshbuf_reset b h = Some h2"
      using b(2) False s(2) h1(1,3) w(1) by (simp add: sshbuf_reset_def B0_def [symmetric] h0_def [symmetric])
    ultimately show thesis
      using k w(3) h1 by (intro that [of h2 B1]) (simp_all add: roomy_def)
  qed
qed

lemma ROUNDUP_256_le:
  assumes "unat x \<le> 134217728" "256 \<le> x"
  shows "256 \<le> ROUNDUP x 256"
proof -
  have "256 \<le> unat x" using assms(2) by (simp add: word_le_nat_alt)
  then have "1 \<le> (unat x + 255) div 256" by simp
  then have "256 \<le> (unat x + 255) div 256 * 256" by simp
  then show ?thesis using ROUNDUP_small [of x] assms(1) by (simp add: word_le_nat_alt)
qed

lemma set_max_size_ok:
  assumes ok: "heap_ok hs h" and b: "b \<in> hs" "bufs h b = Some B"
  obtains r h' B' where "sshbuf_set_max_size b n h = Some (r, h')" "keeps hs b h h'" "sshbuf_data b h' = sshbuf_data b h"
    "bufs h' b = Some B'" "r = 0 \<Longrightarrow> b_max_size B' = n" "SSHBUF_SIZE_INIT \<le> n \<Longrightarrow> roomy B \<Longrightarrow> roomy B'"
proof -
  have s: "sane B" "sshbuf_check_sanity b h = Some B"
    using heap_okD(1) [OF ok b(2)] b(2) by (simp_all add: buf_ok_def sshbuf_check_sanity_def)
  note result = that
  have noop: thesis if "sshbuf_set_max_size b n h = Some (r, h)" "r = 0 \<Longrightarrow> b_max_size B = n" for r
    by (rule result [OF that(1) keeps_refl [OF ok b(1)]]) (use that b(2) in auto)
  show thesis
  proof (cases "n = b_max_size B \<or> locked B \<or> n > SSHBUF_SIZE_MAX")
    case True
    then show thesis
      using b(2) s(2)
      by (intro noop [of "if n = b_max_size B then 0 else if locked B then SSH_ERR_BUFFER_READ_ONLY else SSH_ERR_NO_BUFFER_SPACE"])
        (auto simp: sshbuf_set_max_size_def split: if_splits)
  next
    case False
    then have un: "\<not> locked B" "n \<le> 0x8000000" by (auto simp: not_less)
    obtain h1 B1 where p: "sshbuf_maybe_pack b (n < b_size B) h = Some h1" "keeps hs b h h1" "bufs h1 b = Some B1"
      "sshbuf_data b h1 = sshbuf_data b h" "B1 = B \<or> B1 = B\<lparr>b_size := b_size B - b_off B, b_off := 0\<rparr>"
      by (rule pack_ok [OF ok b]) (assumption | rule that)+
    have ok1: "heap_ok hs h1" using p(2) by (rule keeps_heap_ok)
    have s1: "sane B1" using heap_okD(1) [OF ok1 p(3)] by (simp add: buf_ok_def)
    note bd = sane_bounds [OF s1]
    have same: "b_alloc B1 = b_alloc B" "b_readonly B1 = b_readonly B" "\<not> locked B1"
      using p(5) un(1) by (auto simp: locked_def)
    define rlen where "rlen = (let r = (if b_size B1 < 256 then 256 else ROUNDUP (b_size B1) 256) in if r > n then n else r)"
    define shrink where "shrink = (if n < b_alloc B1 \<and> n > b_size B1 then grow b rlen h1 else Some (0, h1))"
    obtain r h2 B2 where g: "shrink = Some (r, h2)" "keeps hs b h1 h2" "sshbuf_data b h2 = sshbuf_data b h1" "bufs h2 b = Some B2"
      "b_readonly B2 = b_readonly B" "b_alloc B2 = b_alloc B \<or> n < b_alloc B \<and> b_alloc B2 = rlen"
    proof (cases "n < b_alloc B1 \<and> n > b_size B1")
      case True
      have "unat (ROUNDUP (b_size B1) 256) \<ge> unat (b_size B1)" using ROUNDUP_small [of "b_size B1"] bd by simp
      then have c: "b_size B1 \<le> rlen" "rlen \<le> b_max_size B1"
        using True bd by (auto simp: rlen_def Let_def word_le_nat_alt word_less_nat_alt)
      obtain r h2 where "grow b rlen h1 = Some (r, h2)" "keeps hs b h1 h2" "sshbuf_data b h2 = sshbuf_data b h1"
        "r = 0 \<and> (\<exists>p. bufs h2 b = Some (B1\<lparr>b_cd := p, b_d := p, b_alloc := rlen\<rparr>)) \<or> r = SSH_ERR_ALLOC_FAIL \<and> bufs h2 b = Some B1"
        by (rule grow_ok [OF ok1 b(1) p(3) same(3) c]) (assumption | rule that)+
      then show thesis using True same that [of r h2] by (auto simp: shrink_def)
    next
      case False
      then have "shrink = Some (0, h1)" unfolding shrink_def by (rule if_not_P)
      then show thesis
        using keeps_refl [OF ok1 b(1)] p(3) same by (intro that [of 0 h1 B1]) simp_all
    qed
    have k: "keeps hs b h h2" using keeps_trans [OF p(2) g(2)] .
    have ok2: "heap_ok hs h2" using k by (rule keeps_heap_ok)
    have "sshbuf_set_max_size b n h = Option.bind shrink (\<lambda>(r, h). if r \<noteq> 0 then Some (r, h) else do {
             B \<leftarrow> bufs h b;
             if n < b_alloc B then Some (SSH_ERR_NO_BUFFER_SPACE, h)
             else Some (0, set_buf b (B\<lparr>b_max_size := n\<rparr>) h)})"
      using False s(2) b(2) p(1,3) unfolding sshbuf_set_max_size_def shrink_def rlen_def Let_def by simp
    then have run: "sshbuf_set_max_size b n h =
        (if r \<noteq> 0 then Some (r, h2) else if n < b_alloc B2 then Some (SSH_ERR_NO_BUFFER_SPACE, h2)
         else Some (0, set_buf b (B2\<lparr>b_max_size := n\<rparr>) h2))"
      using g(1,4) by simp
    have "256 \<le> rlen" if "256 \<le> n"
      using that ROUNDUP_256_le [of "b_size B1"] bd by (auto simp: rlen_def Let_def not_less)
    then have roomy: "roomy B2" if "256 \<le> n" "roomy B"
      using that g(5,6) by (auto simp: roomy_def)
    show thesis
    proof (cases "r = 0 \<and> \<not> n < b_alloc B2")
      case False
      then have "\<exists>r'. r' \<noteq> 0 \<and> sshbuf_set_max_size b n h = Some (r', h2)" using run by auto
      then obtain r' where r': "r' \<noteq> 0" "sshbuf_set_max_size b n h = Some (r', h2)" by blast
      show thesis by (rule that [OF r'(2) k _ g(4)]) (use g(3) p(4) roomy r'(1) in auto)
    next
      case True
      have "sane B2" using heap_okD(1) [OF ok2 g(4)] by (simp add: buf_ok_def)
      then have "sane (B2\<lparr>b_max_size := n\<rparr>)" using True un(2) by (auto simp: sane_def)
      then have k2: "keeps hs b h2 (set_buf b (B2\<lparr>b_max_size := n\<rparr>) h2)"
        by (intro keeps_set_buf [OF ok2 b(1) g(4)]) simp_all
      have "sshbuf_data b (set_buf b (B2\<lparr>b_max_size := n\<rparr>) h2) = sshbuf_data b h2"
        using g(4) by (simp add: sshbuf_data_def)
      then show thesis
        using keeps_trans [OF k k2] run True g(3) p(4) roomy
        by (intro that [of 0 "set_buf b (B2\<lparr>b_max_size := n\<rparr>) h2" "B2\<lparr>b_max_size := n\<rparr>"])
          (auto simp: set_buf_def roomy_def)
    qed
  qed
qed

subsection \<open>Creating and freeing\<close>

text \<open>Adding a buffer that nothing else knows about.\<close>

lemma heap_ok_add:
  assumes ok: "heap_ok hs h" and new: "bufs h b = None" "bufs h' = (bufs h)(b \<mapsto> B)"
    and B: "buf_ok h' B" "b_refcount B = 1" "b_parent B = None"
    and fresh: "\<And>c C. bufs h c = Some C \<Longrightarrow> \<not> b_readonly B \<or> \<not> b_readonly C \<Longrightarrow> blk_of C \<noteq> blk_of B"
    and mem: "\<And>a. mem h a \<noteq> None \<Longrightarrow> mem h' a = mem h a" "\<And>a. fresh h' \<le> a \<Longrightarrow> mem h' a = None"
      "b < fresh h'" "fresh h \<le> fresh h'"
  shows "heap_ok (insert b hs) h'"
proof -
  note old = heap_okD [OF ok]
  have nokid: "b_parent C \<noteq> Some b" if "bufs h c = Some C" for c C
    using old(6) [OF that, of b] new(1) by auto
  have kids: "kids h' c = (if c = b then {} else kids h c)" for c
    using new B(3) nokid by (auto simp: kids_def)
  have live: "buf_ok h' C" if "bufs h c = Some C" for c C
    by (rule buf_ok_mem [OF old(1) [OF that]]) (use mem(1) in auto)
  have b: "b \<notin> hs" using old(4) [of b] new(1) by auto
  show ?thesis
    unfolding heap_ok_def
  proof (intro conjI allI ballI impI)
    fix d D
    assume "bufs h' d = Some D"
    then show "buf_ok h' D" "finite (kids h' d)" "unat (b_refcount D) = (if d \<in> insert b hs then 1 else 0) + card (kids h' d)"
      using live B new kids old(2,3) by (auto split: if_splits)
  next
    fix d
    assume "d \<in> insert b hs"
    then show "bufs h' d \<noteq> None" using old(4) [of d] new by auto
  next
    fix c C p
    assume "bufs h' c = Some C" "b_parent C = Some p"
    then show "b_readonly C" "\<exists>P. bufs h' p = Some P \<and> b_parent P = None \<and> blk_of P = blk_of C"
      using old(5,6) new B nokid by (auto split: if_splits)
  next
    fix d D c C
    assume a: "bufs h' d = Some D" "\<not> b_readonly D" "bufs h' c = Some C" "c \<noteq> d" "blk_of C = blk_of D"
    with fresh [of d D] fresh [of c C] new have "c \<noteq> b" "d \<noteq> b" by (auto split: if_splits)
    with a old(7) [of d D c C] new show "b_parent C = Some d" by simp
  next
    fix a
    assume a: "fresh h' \<le> a"
    then show "mem h' a = None" using mem(2) by simp
    from a have "fresh h \<le> a" "a \<noteq> b" using mem(3,4) by simp_all
    then show "bufs h' a = None" using old(9) new by simp
  qed
qed

lemma heap_ok_fresh:
  assumes "heap_ok hs h"
  shows "heap_ok hs (h\<lparr>fresh := Suc (fresh h)\<rparr>)"
proof -
  define h' where "h' = h\<lparr>fresh := Suc (fresh h)\<rparr>"
  have eq: "kids h' = kids h" "buf_ok h' = buf_ok h" "bufs h' = bufs h" "mem h' = mem h" "fresh h' = Suc (fresh h)"
    by (simp_all add: h'_def fun_eq_iff kids_def buf_ok_def)
  have "\<forall>a \<ge> Suc (fresh h). mem h a = None \<and> bufs h a = None"
    using heap_okD(8,9) [OF assms] by simp
  with assms have "heap_ok hs h'" unfolding heap_ok_def eq by blast
  then show ?thesis by (simp add: h'_def)
qed

lemma sshbuf_data_cong:
  assumes "heap_ok hs h" "bufs h' c = bufs h c" "\<And>a. mem h a \<noteq> None \<Longrightarrow> mem h' a = mem h a" "bufs h c \<noteq> None"
  shows "sshbuf_data c h' = sshbuf_data c h"
proof -
  obtain C where C: "bufs h c = Some C" using assms(4) by blast
  obtain a i blk where "b_cd C = Some (a, i)" "mem h a = Some blk" by (rule sshbuf_data_some [OF assms(1) C])
  with C assms(2,3) show ?thesis by (simp add: sshbuf_data_def rd_mem_def ptr_add_def)
qed

lemma new_ok:
  assumes ok: "heap_ok hs h"
  obtains (none) h' where "sshbuf_new h = (None, h')" "heap_ok hs h'" "\<And>c. c \<in> hs \<Longrightarrow> sshbuf_data c h' = sshbuf_data c h"
      "bufs h' = bufs h"
  | (some) b h' B where "sshbuf_new h = (Some b, h')" "b \<notin> hs" "heap_ok (insert b hs) h'" "sshbuf_data b h' = Some []"
      "\<And>c. c \<in> hs \<Longrightarrow> sshbuf_data c h' = sshbuf_data c h" "bufs h' = (bufs h)(b \<mapsto> B)" "roomy B" "b_parent B = None"
proof -
  define f where "f = fresh h"
  have un: "bufs h x = None" "mem h x = None" if "f \<le> x" for x
    using heap_okD(8,9) [OF ok] that by (simp_all add: f_def)
  have f: "f \<notin> hs" using heap_okD(4) [OF ok, of f] un(1) [of f] by auto
  show thesis
  proof (cases "malloc_ok h f")
    case False
    then have "sshbuf_new h = (None, h\<lparr>fresh := Suc f\<rparr>)" by (simp add: sshbuf_new_def new_struct_def f_def)
    then show thesis
      using heap_ok_fresh [OF ok] by (intro none [of "h\<lparr>fresh := Suc f\<rparr>"]) (simp_all add: f_def sshbuf_data_def rd_mem_def)
  next
    case st: True
    show thesis
    proof (cases "malloc_ok h (Suc f)")
      case False
      define h' where "h' = h\<lparr>bufs := (bufs h)(f := None), fresh := Suc (Suc f)\<rparr>"
      have "sshbuf_new h = (None, h')"
        using st False by (simp add: sshbuf_new_def new_struct_def malloc_def free_struct_def f_def [symmetric] h'_def)
      moreover have h': "h' = h\<lparr>fresh := Suc (Suc f)\<rparr>" using un(1) [of f] by (cases h) (simp add: h'_def fun_upd_idem)
      moreover have "heap_ok hs (h\<lparr>fresh := Suc (Suc f)\<rparr>)"
        using heap_ok_fresh [OF heap_ok_fresh [OF ok]] by (simp add: f_def)
      ultimately show thesis by (intro none [of h']) (simp_all add: sshbuf_data_def rd_mem_def)
    next
      case True
      define B where "B = \<lparr>b_d = Some (Suc f, 0), b_cd = Some (Suc f, 0), b_off = 0, b_size = 0, b_max_size = SSHBUF_SIZE_MAX,
          b_alloc = SSHBUF_SIZE_INIT, b_readonly = False, b_refcount = 1, b_parent = None\<rparr>"
      define h' where "h' = h\<lparr>mem := (mem h)(Suc f \<mapsto> replicate 256 0), bufs := (bufs h)(f \<mapsto> B), fresh := Suc (Suc f)\<rparr>"
      have run: "sshbuf_new h = (Some f, h')"
        using st True
        by (simp add: sshbuf_new_def new_struct_def malloc_def f_def [symmetric] h'_def B_def)
      have blk: "blk_of B = Suc f" by (simp add: B_def blk_of_def)
      have good: "heap_ok (insert f hs) h'"
      proof (rule heap_ok_add [OF ok, where B = B])
        show "buf_ok h' B" by (simp add: buf_ok_def sane_def B_def h'_def)
        show "blk_of C \<noteq> blk_of B" if C: "bufs h c = Some C" for c C
          using sshbuf_data_some [OF ok C] un(2) [of "Suc f"] unfolding blk by (metis le_SucI option.distinct(1) order_refl)
      qed (use un in \<open>auto simp: h'_def B_def f_def\<close>)
      have "bufs h' f = Some B" by (simp add: h'_def)
      from data_length [OF good this] have "sshbuf_data f h' = Some []" by (simp add: B_def)
      moreover have "sshbuf_data c h' = sshbuf_data c h" if "c \<in> hs" for c
        using that f un(2) [of "Suc f"] heap_okD(4) [OF ok that]
        by (intro sshbuf_data_cong [OF ok]) (auto simp: h'_def)
      ultimately show thesis
        using run f good by (intro some [of f h' B]) (simp_all add: h'_def roomy_def B_def)
    qed
  qed
qed

lemma fromb_ok:
  assumes ok: "heap_ok hs h" and b: "b \<in> hs" "bufs h b = Some B" and root: "b_parent B = None"
    and refs: "b_refcount B < SSHBUF_REFS_MAX"
  obtains (none) h' where "sshbuf_fromb b h = Some (None, h')" "heap_ok hs h'" "bufs h' = bufs h" "mem h' = mem h"
  | (some) c h' C where "sshbuf_fromb b h = Some (Some c, h')" "c \<notin> hs" "heap_ok (insert c hs) h'"
      "sshbuf_data c h' = sshbuf_data b h" "mem h' = mem h" "b_readonly C" "b_parent C = Some b"
      "bufs h' = (bufs h)(c \<mapsto> C, b \<mapsto> B\<lparr>b_refcount := b_refcount B + 1\<rparr>)" "bufs h c = None"
proof -
  have bok: "sane B" "sshbuf_check_sanity b h = Some B"
    using heap_okD(1) [OF ok b(2)] b(2) by (simp_all add: buf_ok_def sshbuf_check_sanity_def)
  note bd = sane_bounds [OF bok(1)] note old = heap_okD [OF ok]
  obtain a i blk where a: "b_cd B = Some (a, i)" "mem h a = Some blk" "i + unat (b_alloc B) \<le> length blk" "blk_of B = a"
    "sshbuf_data b h = Some (take (unat (b_size B) - unat (b_off B)) (drop (i + unat (b_off B)) blk))"
    by (rule sshbuf_data_some [OF ok b(2)])
  define f where "f = fresh h"
  have un: "bufs h f = None" "f \<notin> hs" "f \<noteq> b" using old(9) [of f] old(4) [of f] b(2) by (auto simp: f_def)
  define n where "n = b_size B - b_off B"
  have n: "unat n = unat (b_size B) - unat (b_off B)" using bd by (simp add: n_def)
  have nmax: "\<not> n > SSHBUF_SIZE_MAX" using n bd by (simp add: word_less_nat_alt)
  define C where "C = \<lparr>b_d = None, b_cd = Some (a, i + unat (b_off B)), b_off = 0, b_size = n, b_max_size = n, b_alloc = n,
        b_readonly = True, b_refcount = 1, b_parent = Some b\<rparr>"
  define B' where "B' = B\<lparr>b_refcount := b_refcount B + 1\<rparr>"
  define h' where "h' = h\<lparr>bufs := (bufs h)(f \<mapsto> C, b \<mapsto> B'), fresh := Suc f\<rparr>"
  have ref: "unat (b_refcount B + 1) = unat (b_refcount B) + 1"
    using refs by (simp add: unat_word_ariths word_less_nat_alt)
  have sane: "sane C" "sane B'"
    using bok(1) nmax refs ref by (auto simp: sane_def C_def B'_def word_less_nat_alt)
  show thesis
  proof (cases "malloc_ok h f")
    case False
    then show thesis
      using none [of "h\<lparr>fresh := Suc f\<rparr>"] heap_ok_fresh [OF ok] bok(2) a(1) nmax
      by (simp add: sshbuf_fromb_def sshbuf_ptr_def sshbuf_len_def sshbuf_from_def new_struct_def ptr_add_def f_def n_def)
  next
    case True
    define C0 where "C0 = C\<lparr>b_parent := None\<rparr>"
    have C0: "C0\<lparr>b_parent := Some b\<rparr> = C" "sane C0" using sane(1) by (auto simp: C0_def C_def sane_def)
    have "sshbuf_from (Some (a, i + unat (b_off B))) n h = (Some f, h\<lparr>bufs := (bufs h)(f \<mapsto> C0), fresh := Suc f\<rparr>)"
      using True nmax by (simp add: sshbuf_from_def new_struct_def f_def C0_def C_def)
    moreover have "sshbuf_set_parent f b (h\<lparr>bufs := (bufs h)(f \<mapsto> C0), fresh := Suc f\<rparr>) = Some (0, h')"
      using un b(2) bok(1) C0
      by (simp add: sshbuf_set_parent_def sshbuf_check_sanity_def set_buf_def h'_def B'_def fun_upd_twist)
    ultimately have run: "sshbuf_fromb b h = Some (Some f, h')"
      using bok(2) a(1) by (simp add: sshbuf_fromb_def sshbuf_ptr_def sshbuf_len_def ptr_add_def n_def)
    have bufs': "bufs h' x = (if x = b then Some B' else if x = f then Some C else bufs h x)" for x by (simp add: h'_def)
    have mem': "mem h' = mem h" by (simp add: h'_def)
    have nokid: "b_parent D \<noteq> Some f" if "bufs h d = Some D" for d D using old(6) [OF that, of f] un(1) by auto
    have kids: "kids h' x = (if x = b then insert f (kids h b) else if x = f then {} else kids h x)" for x
      using root un nokid b(2) by (auto simp: kids_def bufs' C_def B'_def)
    have fnew: "f \<notin> kids h b" using un(1) by (simp add: kids_def)
    have blk: "blk_of C = a" "blk_of B' = a" using a(4) by (simp_all add: C_def B'_def blk_of_def)
    have "b_cd C = Some (a, i + unat (b_off B))" "b_alloc C = n" "b_readonly C" by (simp_all add: C_def)
    then have okC: "buf_ok h' C" using sane(1) a(2,3) bd n by (simp add: buf_ok_def mem')
    have "b_cd B' = b_cd B" "b_alloc B' = b_alloc B" "b_readonly B' = b_readonly B" by (simp_all add: B'_def)
    then have okB: "buf_ok h' B'" using sane(2) old(1) [OF b(2)] by (simp add: buf_ok_def mem')
    have ok': "heap_ok (insert f hs) h'"
      unfolding heap_ok_def
    proof (intro conjI allI ballI impI)
      fix d D
      assume d: "bufs h' d = Some D"
      consider "d = b" "D = B'" | "d = f" "D = C" | "d \<noteq> b" "d \<noteq> f" "bufs h d = Some D"
        using d by (auto simp: bufs' split: if_splits)
      then show "buf_ok h' D"
        using okB okC old(1) [of d D] by cases (simp_all add: buf_ok_def mem')
      show "finite (kids h' d)" using old(2) [OF b(2)] old(2) [of d D] d by (auto simp: kids bufs' split: if_splits)
      show "unat (b_refcount D) = (if d \<in> insert f hs then 1 else 0) + card (kids h' d)"
        using d old(3) [OF b(2)] old(3) [of d D] old(2) [OF b(2)] ref fnew un b(1)
        by (auto simp: kids bufs' B'_def C_def split: if_splits)
    next
      fix d
      assume "d \<in> insert f hs"
      then show "bufs h' d \<noteq> None" using old(4) [of d] by (auto simp: bufs')
    next
      fix d D p
      assume d: "bufs h' d = Some D" "b_parent D = Some p"
      show "b_readonly D"
        using d old(5) [of d D p] root by (auto simp: bufs' B'_def C_def split: if_splits)
      show "\<exists>P. bufs h' p = Some P \<and> b_parent P = None \<and> blk_of P = blk_of D"
      proof (cases "d = f")
        case True
        with d un show ?thesis using blk root by (auto simp: bufs' B'_def C_def)
      next
        case False
        with d root have "d \<noteq> b" "bufs h d = Some D" by (auto simp: bufs' B'_def split: if_splits)
        with old(6) [of d D p] d(2) un blk(2) b(2) a(4) root show ?thesis by (auto simp: bufs' B'_def)
      qed
    next
      fix d D c E
      assume x: "bufs h' d = Some D" "\<not> b_readonly D" "bufs h' c = Some E" "c \<noteq> d" "blk_of E = blk_of D"
      have "d \<noteq> f" using x(1,2) un by (auto simp: bufs' C_def split: if_splits)
      then obtain D0 where D0: "bufs h d = Some D0" "\<not> b_readonly D0" "blk_of D0 = blk_of D"
        using x(1,2) b(2) blk(2) a(4) by (auto simp: bufs' B'_def split: if_splits)
      show "b_parent E = Some d"
      proof (cases "c = f")
        case True
        then have "E = C" using x(3) un by (simp add: bufs')
        then have "d = b" using old(7) [OF D0(1,2) b(2)] D0(3) x(5) blk(1) a(4) root by auto
        then show ?thesis using \<open>E = C\<close> by (simp add: C_def)
      next
        case False
        then obtain E0 where "bufs h c = Some E0" "blk_of E0 = blk_of E" "b_parent E0 = b_parent E"
          using x(3) b(2) blk(2) a(4) by (auto simp: bufs' B'_def split: if_splits)
        with old(7) [OF D0(1,2), of c E0] x(4,5) D0(3) show ?thesis by simp
      qed
    next
      fix x
      assume "fresh h' \<le> x"
      then have "fresh h \<le> x" "x \<noteq> f" "x \<noteq> b" using b(2) old(9) by (auto simp: h'_def f_def)
      then show "mem h' x = None" "bufs h' x = None" using old(8,9) by (simp_all add: mem' bufs')
    qed
    have "sshbuf_data f h' = sshbuf_data b h"
      using a un n bd by (simp add: sshbuf_data_def bufs' C_def ptr_add_def rd_mem_def mem')
    then show thesis
      using run un ok' mem' by (intro some [of f h' C]) (simp_all add: C_def h'_def B'_def)
  qed
qed

text \<open>Buffers and references go away; what stays is as before.\<close>

lemma heap_ok_drop:
  assumes ok: "heap_ok hs h"
    and bufs: "\<And>c C. bufs h' c = Some C \<Longrightarrow> \<exists>C0 r. bufs h c = Some C0 \<and> C = C0\<lparr>b_refcount := r\<rparr> \<and> sane C"
    and refs: "\<And>c C. bufs h' c = Some C \<Longrightarrow> unat (b_refcount C) = (if c \<in> hs' then 1 else 0) + card (kids h' c)"
    and live: "\<And>c. c \<in> hs' \<Longrightarrow> bufs h' c \<noteq> None"
    and par: "\<And>c C p. bufs h' c = Some C \<Longrightarrow> b_parent C = Some p \<Longrightarrow> bufs h' p \<noteq> None"
    and mem: "\<And>c C. bufs h' c = Some C \<Longrightarrow> mem h' (blk_of C) = mem h (blk_of C)"
    and fresh: "fresh h' = fresh h" "\<And>a. mem h a = None \<Longrightarrow> mem h' a = None"
  shows "heap_ok hs' h'"
proof -
  note old = heap_okD [OF ok]
  have same: "\<exists>C0. bufs h c = Some C0 \<and> b_cd C0 = b_cd C \<and> b_alloc C0 = b_alloc C \<and> b_readonly C0 = b_readonly C
      \<and> b_parent C0 = b_parent C \<and> blk_of C0 = blk_of C \<and> sane C" if "bufs h' c = Some C" for c C
    using bufs [OF that] by (auto simp: blk_of_def)
  have sub: "kids h' c \<subseteq> kids h c" for c
    using same by (auto simp: kids_def) metis
  show ?thesis
    unfolding heap_ok_def
  proof (intro conjI allI ballI impI)
    fix c C
    assume c: "bufs h' c = Some C"
    obtain C0 where C0: "bufs h c = Some C0" "b_cd C0 = b_cd C" "b_alloc C0 = b_alloc C" "b_readonly C0 = b_readonly C"
      "blk_of C0 = blk_of C" "sane C" using same [OF c] by blast
    show "buf_ok h' C" using old(1) [OF C0(1)] C0 mem [OF c] by (auto simp: buf_ok_def blk_of_def)
    show "finite (kids h' c)" using finite_subset [OF sub old(2) [OF C0(1)]] .
    show "unat (b_refcount C) = (if c \<in> hs' then 1 else 0) + card (kids h' c)" using refs [OF c] .
  next
    fix c C p
    assume c: "bufs h' c = Some C" "b_parent C = Some p"
    obtain C0 where C0: "bufs h c = Some C0" "b_readonly C0 = b_readonly C" "b_parent C0 = Some p" "blk_of C0 = blk_of C"
      using same [OF c(1)] c(2) by auto
    show "b_readonly C" using old(5) [OF C0(1,3)] C0(2) by simp
    obtain P where P: "bufs h' p = Some P" using par [OF c] by blast
    obtain P0 where "bufs h p = Some P0" "b_parent P0 = b_parent P" "blk_of P0 = blk_of P" using same [OF P] by auto
    with old(6) [OF C0(1,3)] P C0(4) show "\<exists>P. bufs h' p = Some P \<and> b_parent P = None \<and> blk_of P = blk_of C" by auto
  next
    fix d D c C
    assume x: "bufs h' d = Some D" "\<not> b_readonly D" "bufs h' c = Some C" "c \<noteq> d" "blk_of C = blk_of D"
    obtain D0 where D0: "bufs h d = Some D0" "b_readonly D0 = b_readonly D" "blk_of D0 = blk_of D" using same [OF x(1)] by blast
    obtain C0 where C0: "bufs h c = Some C0" "b_parent C0 = b_parent C" "blk_of C0 = blk_of C" using same [OF x(3)] by blast
    show "b_parent C = Some d" using old(7) [OF D0(1) _ C0(1) x(4)] D0 C0 x by simp
  next
    fix a
    assume "fresh h' \<le> a"
    then have "mem h a = None" "bufs h a = None" using old(8,9) fresh(1) by simp_all
    then show "mem h' a = None" "bufs h' a = None"
      using fresh(2) bufs [of a] by (simp, cases "bufs h' a") auto
  qed (use live in simp)
qed

text \<open>Freeing a buffer without a parent, by its holder or by its last child.\<close>

definition released :: "nat \<Rightarrow> heap \<Rightarrow> heap" where
  "released b h =
     (case bufs h b of
        None \<Rightarrow> h
      | Some B \<Rightarrow>
          if b_refcount B > 1 then set_buf b (B\<lparr>b_refcount := b_refcount B - 1\<rparr>) h
          else (free_struct b h)\<lparr>mem := if b_readonly B then mem h else (mem h)(blk_of B := None)\<rparr>)"

lemma free_root:
  assumes ok: "heap_ok hs h" and b: "bufs h b = Some B" and root: "b_parent B = None"
  shows "sshbuf_free (Suc n) (Some b) h = Some (released b h)"
proof -
  have s: "sane B" "sshbuf_check_sanity b h = Some B"
    using heap_okD(1) [OF ok b] b by (simp_all add: buf_ok_def sshbuf_check_sanity_def)
  note bd = sane_bounds [OF s(1)]
  have par: "B\<lparr>b_parent := None, b_refcount := r\<rparr> = B\<lparr>b_refcount := r\<rparr>" for r using root by (cases B) simp
  have gt: "b_refcount B - 1 > 0 \<longleftrightarrow> b_refcount B > 1"
  proof -
    have "1 \<le> b_refcount B" using bd(6) by (simp add: word_le_nat_alt)
    then have "unat (b_refcount B - 1) = unat (b_refcount B) - 1" by (simp add: unat_sub)
    then show ?thesis by (simp add: word_less_nat_alt)
  qed
  show ?thesis
  proof (cases "b_refcount B > 1 \<or> b_readonly B")
    case True
    then show ?thesis
      using b s(2) root gt by (cases h) (auto simp: released_def free_struct_def par)
  next
    case False
    obtain a blk where a: "b_cd B = Some (a, 0)" "mem h a = Some blk" "unat (b_alloc B) \<le> length blk" "blk_of B = a"
      using sshbuf_data_some [OF ok b] False by (metis add_0)
    have d: "b_d B = Some (a, 0)" using bd(8) False a(1) by simp
    have w: "wr_mem (Some (a, 0)) (replicate (unat (b_alloc B)) 0) h
        = Some (h\<lparr>mem := (mem h)(a \<mapsto> splice 0 (replicate (unat (b_alloc B)) 0) blk)\<rparr>)"
      using a by (intro wr_mem_eq) simp_all
    show ?thesis
      using b s(2) root gt False d w a(4)
      by (simp add: released_def free_mem_def free_struct_def par)
  qed
qed

lemma free_child:
  assumes ok: "heap_ok hs h" and b: "bufs h b = Some B" "b \<in> hs" and p: "b_parent B = Some p"
  shows "sshbuf_free (Suc (Suc n)) (Some b) h = Some (free_struct b (released p h))" "kids h b = {}" "b \<noteq> p"
    "\<exists>P. bufs h p = Some P \<and> b_parent P = None \<and> blk_of P = blk_of B"
proof -
  obtain P where P: "bufs h p = Some P" "b_parent P = None" "blk_of P = blk_of B"
    using heap_okD(6) [OF ok b(1) p] by blast
  then show "\<exists>P. bufs h p = Some P \<and> b_parent P = None \<and> blk_of P = blk_of B" by blast
  show ne: "b \<noteq> p" using P b p by auto
  show none: "kids h b = {}"
    using heap_okD(6) [OF ok, of _ _ b] b(1) p by (fastforce simp: kids_def)
  have "unat (b_refcount B) = 1" using heap_okD(3) [OF ok b(1)] b(2) none by simp
  then have one: "b_refcount B = 1" by (simp add: word_unat_eq_iff)
  have s: "sshbuf_check_sanity b h = Some B" using heap_okD(1) [OF ok b(1)] b(1)
    by (simp add: buf_ok_def sshbuf_check_sanity_def)
  have ro: "b_readonly B" using heap_okD(5) [OF ok b(1) p] .
  have "bufs (released p h) b = Some B"
    using b(1) ne P(1) by (simp add: released_def set_buf_def free_struct_def)
  then show "sshbuf_free (Suc (Suc n)) (Some b) h = Some (free_struct b (released p h))"
    using s p free_root [OF ok P(1,2), of n] one ro by (simp del: sshbuf_free.simps(3) add: sshbuf_free.simps(3) [of "Suc n"])
qed

text \<open>The block of the last reference to a writable buffer belongs to nobody else.\<close>

lemma last_block:
  assumes "heap_ok hs h" "bufs h b = Some B" "\<not> b_readonly B" "bufs h c = Some C" "c \<noteq> b" "c \<notin> kids h b"
  shows "blk_of C \<noteq> blk_of B"
  using heap_okD(7) [OF assms(1-5)] assms(4,6) by (auto simp: kids_def)

lemma sane_refcount: "sane B \<Longrightarrow> 0 < r \<Longrightarrow> r \<le> b_refcount B \<Longrightarrow> sane (B\<lparr>b_refcount := r\<rparr>)"
  by (auto simp: sane_def word_gt_0)

lemma sane_pred:
  assumes "sane B" "b_refcount B > 1"
  shows "sane (B\<lparr>b_refcount := b_refcount B - 1\<rparr>)" "unat (b_refcount B - 1) = unat (b_refcount B) - 1"
proof -
  have le: "1 \<le> b_refcount B" using assms(2) by simp
  show u: "unat (b_refcount B - 1) = unat (b_refcount B) - 1" using le by (simp add: unat_sub)
  show "sane (B\<lparr>b_refcount := b_refcount B - 1\<rparr>)"
    using assms(2) u by (intro sane_refcount assms(1)) (simp_all add: word_less_nat_alt word_le_nat_alt)
qed

lemma kids_free_struct: "kids (free_struct b h) c = kids h c - {b}"
  by (auto simp: kids_def free_struct_def)

lemma kids_mem [simp]: "kids (h\<lparr>mem := m\<rparr>) c = kids h c"
  by (simp add: kids_def)

lemma kids_refcount: "bufs h b = Some B \<Longrightarrow> kids (set_buf b (B\<lparr>b_refcount := r\<rparr>) h) c = kids h c"
  by (auto simp: kids_def set_buf_def)

lemma released_ok:
  assumes ok: "heap_ok hs h" and b: "bufs h b = Some B" "b \<in> hs" and root: "b_parent B = None"
  shows "heap_ok (hs - {b}) (released b h)"
proof (cases "b_refcount B > 1")
  case True
  have s: "sane B" using heap_okD(1) [OF ok b(1)] by (simp add: buf_ok_def)
  define h' where "h' = set_buf b (B\<lparr>b_refcount := b_refcount B - 1\<rparr>) h"
  have kids: "kids h' c = kids h c" for c using b(1) by (simp add: h'_def kids_refcount)
  have "heap_ok (hs - {b}) h'"
  proof (rule heap_ok_drop [OF ok])
    fix c C
    assume c: "bufs h' c = Some C"
    show "\<exists>C0 r. bufs h c = Some C0 \<and> C = C0\<lparr>b_refcount := r\<rparr> \<and> sane C"
    proof (cases "c = b")
      case True
      then have "C = B\<lparr>b_refcount := b_refcount B - 1\<rparr>" using c by (simp add: h'_def set_buf_def)
      with b True sane_pred [OF s \<open>b_refcount B > 1\<close>] show ?thesis by blast
    next
      case False
      then have "bufs h c = Some C" using c by (simp add: h'_def set_buf_def)
      moreover have "C = C\<lparr>b_refcount := b_refcount C\<rparr>" by simp
      ultimately show ?thesis using heap_okD(1) [OF ok] by (metis buf_ok_def)
    qed
    show "unat (b_refcount C) = (if c \<in> hs - {b} then 1 else 0) + card (kids h' c)"
      using c heap_okD(3) [OF ok, of c] b sane_pred(2) [OF s True] unfolding kids
      by (auto simp: h'_def set_buf_def split: if_splits)
    show "b_parent C = Some p \<Longrightarrow> bufs h' p \<noteq> None" for p
      using c heap_okD(6) [OF ok, of c] root by (fastforce simp: h'_def set_buf_def split: if_splits)
  qed (use heap_okD(4) [OF ok] in \<open>auto simp: h'_def set_buf_def\<close>)
  then show ?thesis using True b by (simp add: released_def h'_def)
next
  case False
  have s: "sane B" using heap_okD(1) [OF ok b(1)] by (simp add: buf_ok_def)
  have "unat (b_refcount B) \<le> 1" using False by (simp add: word_less_nat_alt)
  then have none: "kids h b = {}" using heap_okD(2,3) [OF ok b(1)] b(2) by simp
  define h' where "h' = (free_struct b h)\<lparr>mem := if b_readonly B then mem h else (mem h)(blk_of B := None)\<rparr>"
  have bufs: "bufs h' c = Some C \<longleftrightarrow> c \<noteq> b \<and> bufs h c = Some C" for c C by (simp add: h'_def free_struct_def)
  have kids: "kids h' c = kids h c" for c
    using b(1) root by (auto simp: h'_def kids_free_struct) (simp add: kids_def)
  have "heap_ok (hs - {b}) h'"
  proof (rule heap_ok_drop [OF ok])
    fix c C
    assume c: "bufs h' c = Some C"
    then have c': "c \<noteq> b" "bufs h c = Some C" using bufs by simp_all
    have "C = C\<lparr>b_refcount := b_refcount C\<rparr>" by simp
    then show "\<exists>C0 r. bufs h c = Some C0 \<and> C = C0\<lparr>b_refcount := r\<rparr> \<and> sane C"
      using c'(2) heap_okD(1) [OF ok] by (metis buf_ok_def)
    show "unat (b_refcount C) = (if c \<in> hs - {b} then 1 else 0) + card (kids h' c)"
      using heap_okD(3) [OF ok c'(2)] c'(1) unfolding kids by simp
    show "bufs h' p \<noteq> None" if "b_parent C = Some p" for p
    proof -
      have "p \<noteq> b" using none c' that by (auto simp: kids_def)
      then show ?thesis using heap_okD(6) [OF ok c'(2) that] bufs by auto
    qed
    show "mem h' (blk_of C) = mem h (blk_of C)"
      using last_block [OF ok b(1) _ c'(2,1)] none by (simp add: h'_def)
  qed (use heap_okD(4) [OF ok] in \<open>auto simp: h'_def free_struct_def\<close>)
  then show ?thesis using False b by (simp add: released_def h'_def)
qed

text \<open>A child goes away: its parent has one reference less.\<close>

lemma child_gone:
  assumes ok: "heap_ok hs h" and b: "bufs h b = Some B" "b \<in> hs" and p: "b_parent B = Some p"
    and P: "bufs h p = Some P" "b_parent P = None" "P' = P\<lparr>b_refcount := r\<rparr>" "sane P'"
    and r: "unat r + 1 = unat (b_refcount P) + (if p \<in> hs' \<and> p \<notin> hs then 1 else 0)"
    and hs': "hs' - {p} = hs - {b} - {p}" "p \<in> hs \<Longrightarrow> p \<in> hs'" "b \<notin> hs'"
  shows "heap_ok hs' (set_buf p P' (free_struct b h))"
proof -
  note fc = free_child [OF ok b p]
  have bin: "b \<in> kids h p" using b(1) p by (simp add: kids_def)
  define h' where "h' = set_buf p P' (free_struct b h)"
  have bufs: "bufs h' c = (if c = p then Some P' else if c = b then None else bufs h c)" for c
    using fc(3) by (simp add: h'_def set_buf_def free_struct_def)
  have kids: "kids h' c = kids h c - {b}" for c
    using fc(3) P by (auto simp: kids_def bufs)
  have in': "c \<in> hs' \<longleftrightarrow> c \<in> hs" if "c \<noteq> b" "c \<noteq> p" for c using hs'(1) that by blast
  have "heap_ok hs' h'"
  proof (rule heap_ok_drop [OF ok])
    fix c C
    assume c: "bufs h' c = Some C"
    then have cb: "c \<noteq> b" using fc(3) by (auto simp: bufs split: if_splits)
    show "\<exists>C0 r. bufs h c = Some C0 \<and> C = C0\<lparr>b_refcount := r\<rparr> \<and> sane C"
    proof (cases "c = p")
      case True
      then show ?thesis using c P by (auto simp: bufs)
    next
      case False
      then have "bufs h c = Some C" using c cb by (simp add: bufs)
      moreover have "C = C\<lparr>b_refcount := b_refcount C\<rparr>" by simp
      ultimately show ?thesis using heap_okD(1) [OF ok] by (metis buf_ok_def)
    qed
    show "unat (b_refcount C) = (if c \<in> hs' then 1 else 0) + card (kids h' c)"
    proof (cases "c = p")
      case True
      then have "C = P'" "card (kids h' c) = card (kids h p) - 1" "card (kids h p) > 0"
        using c bin heap_okD(2) [OF ok P(1)] by (auto simp: bufs kids card_gt_0_iff)
      then show ?thesis using heap_okD(3) [OF ok P(1)] r hs'(2) True P(3) by (auto split: if_splits)
    next
      case False
      then have c': "bufs h c = Some C" "b \<notin> kids h c" using c cb b(1) p by (auto simp: bufs kids_def)
      then show ?thesis using heap_okD(3) [OF ok c'(1)] in' [OF cb False] by (simp add: kids)
    qed
    show "bufs h' q \<noteq> None" if "b_parent C = Some q" for q
    proof (cases "c = p")
      case False
      then have "bufs h c = Some C" "q \<noteq> b" using c cb fc(2) that by (auto simp: bufs kids_def)
      then show ?thesis using heap_okD(6) [OF ok _ that] by (auto simp: bufs)
    qed (use c that P in \<open>auto simp: bufs\<close>)
  next
    fix c
    assume "c \<in> hs'"
    then show "bufs h' c \<noteq> None" using heap_okD(4) [OF ok, of c] hs'(3) in' [of c] by (auto simp: bufs)
  qed (simp_all add: h'_def set_buf_def free_struct_def)
  then show ?thesis by (simp add: h'_def)
qed

text \<open>\<^verbatim>\<open>sshbuf_free\<close> as a whole.\<close>

lemma released_data:
  assumes ok: "heap_ok hs h" and "bufs (released b h) c = Some C" "c \<noteq> b" "c \<notin> kids h b \<or> b_refcount B > 1"
    and b: "bufs h b = Some B"
  shows "sshbuf_data c (released b h) = sshbuf_data c h"
proof -
  have c: "bufs h c = Some C" using assms(2,3) b by (auto simp: released_def set_buf_def free_struct_def split: if_splits)
  then have "mem (released b h) (blk_of C) = mem h (blk_of C)"
    using b last_block [OF ok b _ c assms(3)] assms(4) by (auto simp: released_def set_buf_def free_struct_def)
  moreover obtain a i where "b_cd C = Some (a, i)" "blk_of C = a" using sshbuf_data_some [OF ok c] by metis
  ultimately show ?thesis
    using c assms(2) by (simp add: sshbuf_data_def rd_mem_def ptr_add_def)
qed

lemma rd_mem_bufs [simp]: "rd_mem p n (h\<lparr>bufs := x\<rparr>) = rd_mem p n h"
  by (simp add: rd_mem_def)

lemma free_ok:
  assumes ok: "heap_ok hs h" and b: "b \<in> hs"
  obtains h' where "sshbuf_free (Suc (Suc n)) (Some b) h = Some h'" "heap_ok (hs - {b}) h'"
    "\<And>c. c \<in> hs - {b} \<Longrightarrow> sshbuf_data c h' = sshbuf_data c h" "malloc_ok h' = malloc_ok h"
proof -
  obtain B where B: "bufs h b = Some B" using heap_okD(4) [OF ok b] by blast
  show thesis
  proof (cases "b_parent B")
    case None
    have ok': "heap_ok (hs - {b}) (released b h)" using released_ok [OF ok B b None] .
    show thesis
    proof (rule that [OF free_root [OF ok B None] ok'])
      fix c
      assume c: "c \<in> hs - {b}"
      have "b_refcount B > 1" if "c \<in> kids h b"
      proof -
        have "card (kids h b) > 0" using that heap_okD(2) [OF ok B] by (auto simp: card_gt_0_iff)
        then show ?thesis using heap_okD(3) [OF ok B] b by (simp add: word_less_nat_alt)
      qed
      then show "sshbuf_data c (released b h) = sshbuf_data c h"
        using heap_okD(4) [OF ok' c] c B by (metis DiffE released_data [OF ok _ _ _ B] singletonI)
    qed (simp add: released_def set_buf_def free_struct_def split: option.split)
  next
    case (Some p)
    note fc = free_child [OF ok B b Some]
    obtain P where P: "bufs h p = Some P" "b_parent P = None" using fc(4) by blast
    have s: "sane P" using heap_okD(1) [OF ok P(1)] by (simp add: buf_ok_def)
    have bin: "b \<in> kids h p" using B Some by (simp add: kids_def)
    show thesis
    proof (cases "b_refcount P > 1")
      case True
      let ?P' = "P\<lparr>b_refcount := b_refcount P - 1\<rparr>"
      have r: "released p h = set_buf p ?P' h" using True P by (simp add: released_def)
      have e: "free_struct b (set_buf p ?P' h) = set_buf p ?P' (free_struct b h)"
        using fc(3) by (simp add: free_struct_def set_buf_def fun_upd_twist)
      have "heap_ok (hs - {b}) (free_struct b (released p h))"
        unfolding r e by (rule child_gone [OF ok B b Some P refl])
          (use True sane_pred [OF s True] fc(3) in \<open>auto simp: word_less_nat_alt\<close>)
      then show thesis
        by (rule that [OF fc(1)]) (use P(1) in \<open>auto simp: r free_struct_def set_buf_def sshbuf_data_def\<close>)
    next
      case False
      have "unat (b_refcount P) = 1" using False sane_bounds(6) [OF s] by (simp add: word_less_nat_alt)
      moreover have "card (kids h p) > 0" using bin heap_okD(2) [OF ok P(1)] by (auto simp: card_gt_0_iff)
      ultimately have p: "p \<notin> hs" "card (kids h p) = 1" using heap_okD(3) [OF ok P(1)] by (auto split: if_splits)
      then have kp: "kids h p = {b}" using bin by (auto simp: card_1_singleton_iff)
      let ?h = "free_struct b h" and ?hs = "insert p (hs - {b})"
      have id: "set_buf p P ?h = ?h" using P(1) fc(3) by (cases h) (auto simp: set_buf_def free_struct_def)
      have "heap_ok ?hs (set_buf p P ?h)"
        by (rule child_gone [OF ok B b Some P, of _ "b_refcount P"]) (use s p fc(3) in auto)
      then have ok1: "heap_ok ?hs ?h" unfolding id .
      have P1: "bufs ?h p = Some P" using P(1) fc(3) by (simp add: free_struct_def)
      have ok2: "heap_ok (hs - {b}) (released p ?h)" using released_ok [OF ok1 P1 _ P(2)] p(1) by simp
      have e: "free_struct b (released p h) = released p ?h"
        using P(1) fc(3) by (simp add: released_def free_struct_def set_buf_def fun_upd_twist)
      show thesis
      proof (rule that [OF fc(1)], unfold e)
        show "heap_ok (hs - {b}) (released p ?h)" by (rule ok2)
        show "malloc_ok (released p ?h) = malloc_ok h"
          by (simp add: released_def set_buf_def free_struct_def split: option.split)
        fix c
        assume c: "c \<in> hs - {b}"
        then have "c \<notin> kids ?h p" "c \<noteq> p" using kp p(1) by (auto simp: kids_free_struct)
        then have "sshbuf_data c (released p ?h) = sshbuf_data c ?h"
          using heap_okD(4) [OF ok2 c] released_data [OF ok1 _ _ _ P1] by blast
        also have "\<dots> = sshbuf_data c h" using c by (simp add: sshbuf_data_def free_struct_def rd_mem_def)
        finally show "sshbuf_data c (released p ?h) = sshbuf_data c h" .
      qed
    qed
  qed
qed

end
