(* ===== verification/Sshbuf_Ops.thy ===== *)
theory Sshbuf_Ops
  imports Sshbuf_Contract
begin

text \<open>
  Sequences of calls of the packet buffer library. The buffers of the store in \<open>Sshbuf\<close>
  implement a set of byte queues: the abstract state maps each handle held by a caller to the
  bytes in its buffer. Any sequence of calls on held handles runs without reaching the abort of
  \<^verbatim>\<open>sshbuf_check_sanity\<close> and acts on the queues as specified.
\<close>

subsection \<open>The space of a buffer does not shrink\<close>

lemma reserve_alloc:
  assumes ok: "heap_ok hs h" and b: "b \<in> hs" "bufs h b = Some B" and r: "sshbuf_reserve b len h = Some (r, p, h1)"
  shows "\<exists>B1. bufs h1 b = Some B1 \<and> b_readonly B1 = b_readonly B \<and> b_alloc B \<le> b_alloc B1"
proof -
  consider (ro) "locked B" | (full) "\<not> locked B" "unat (b_max_size B) < unat (b_size B) - unat (b_off B) + unat len"
    | (room) "\<not> locked B" "unat (b_size B) - unat (b_off B) + unat len \<le> unat (b_max_size B)" by linarith
  then show ?thesis
  proof cases
    case room
    obtain q h2 B2 where "sshbuf_allocate b len h = Some (q, h2)" "keeps hs b h h2" "bufs h2 b = Some B2" "b_alloc B \<le> b_alloc B2"
      by (rule allocate_ok [OF ok b room]) (rule that)
    moreover from this(2,3) b(2) have "b_readonly B2 = b_readonly B" by (auto simp: keeps_def)
    ultimately show ?thesis using r by (auto simp: sshbuf_reserve_def split: if_splits)
  qed (use r b allocate_fails [OF ok b(2)] in \<open>auto simp: sshbuf_reserve_def\<close>)
qed

lemma wr_len_bufs: "wr_len p xs h = Some h' \<Longrightarrow> bufs h' = bufs h"
  by (auto simp: wr_len_def dest: wr_mem_bufs split: if_splits)

lemma put_roomy:
  assumes ok: "heap_ok hs h" and b: "b \<in> hs" "bufs h b = Some B" "roomy B"
  shows "put_fixed bs b h = Some (r, h') \<Longrightarrow> \<exists>B'. bufs h' b = Some B' \<and> roomy B'"
    "sshbuf_put b v len h = Some (r, h') \<Longrightarrow> \<exists>B'. bufs h' b = Some B' \<and> roomy B'"
    "sshbuf_put_string b v len h = Some (r, h') \<Longrightarrow> \<exists>B'. bufs h' b = Some B' \<and> roomy B'"
proof -
  have step: "\<exists>B'. bufs h2 b = Some B' \<and> roomy B'" if "sshbuf_reserve b n h = Some (r, p, h1)" "bufs h2 = bufs h1" for n r p h1 h2
    using reserve_alloc [OF ok b(1,2) that(1)] that(2) b(3) by (fastforce simp: roomy_def)
  show "put_fixed bs b h = Some (r, h') \<Longrightarrow> \<exists>B'. bufs h' b = Some B' \<and> roomy B'"
    by (auto simp: put_fixed_def bind_eq_Some_conv dest: step wr_mem_bufs split: if_splits)
  show "sshbuf_put b v len h = Some (r, h') \<Longrightarrow> \<exists>B'. bufs h' b = Some B' \<and> roomy B'"
    by (auto simp: sshbuf_put_def bind_eq_Some_conv dest: step wr_len_bufs split: if_splits)
  show "sshbuf_put_string b v len h = Some (r, h') \<Longrightarrow> \<exists>B'. bufs h' b = Some B' \<and> roomy B'"
    using b by (auto simp: sshbuf_put_string_def bind_eq_Some_conv dest!: wr_len_bufs wr_mem_bufs intro: step split: if_splits)
qed

lemma consume_roomy:
  assumes "bufs h b = Some B" "roomy B"
  shows "sshbuf_consume b n h = Some (r, h') \<Longrightarrow> \<exists>B'. bufs h' b = Some B' \<and> roomy B'"
    "sshbuf_consume_end b n h = Some (r, h') \<Longrightarrow> \<exists>B'. bufs h' b = Some B' \<and> roomy B'"
  using assms
  by (auto simp: sshbuf_consume_def sshbuf_consume_end_def sshbuf_check_sanity_def bind_eq_Some_conv roomy_def Let_def split: if_splits)

lemma get_fixed_roomy:
  assumes "bufs h b = Some B" "roomy B" "get_fixed n dec b h = Some (r, v, h')"
  shows "\<exists>B'. bufs h' b = Some B' \<and> roomy B'"
  using assms consume_roomy(1) [OF assms(1,2)]
  by (auto simp: get_fixed_def bind_eq_Some_conv split: if_splits)

subsection \<open>Buffers and byte queues\<close>

text \<open>What holds of a store between two calls: every held buffer can be reset.\<close>

definition ready :: "nat set \<Rightarrow> heap \<Rightarrow> bool" where
  "ready hs h \<longleftrightarrow> heap_ok hs h \<and> (\<forall>b \<in> hs. \<forall>B. bufs h b = Some B \<longrightarrow> roomy B)"

definition contents :: "nat set \<Rightarrow> heap \<Rightarrow> (nat \<Rightarrow> byte list option)" where
  "contents hs h b = (if b \<in> hs then sshbuf_data b h else None)"

definition empty_heap :: heap where
  "empty_heap = \<lparr>mem = Map.empty, bufs = Map.empty, fresh = 0, malloc_ok = \<lambda>_. True\<rparr>"

lemma empty_heap_ready: "ready {} empty_heap" "contents {} empty_heap = Map.empty"
  by (auto simp: ready_def heap_ok_def empty_heap_def contents_def)

lemma readyD:
  assumes "ready hs h" "b \<in> hs"
  obtains B d where "heap_ok hs h" "bufs h b = Some B" "roomy B" "sshbuf_data b h = Some d" "contents hs h b = Some d"
proof -
  have ok: "heap_ok hs h" using assms(1) by (simp add: ready_def)
  obtain B where B: "bufs h b = Some B" using heap_okD(4) [OF ok assms(2)] by blast
  obtain d where "sshbuf_data b h = Some d" using data_length [OF ok B] by blast
  then show thesis using that ok B assms by (simp add: ready_def contents_def)
qed

lemma ready_keeps:
  assumes "ready hs h" "b \<in> hs" "keeps hs b h h'" "\<exists>B'. bufs h' b = Some B' \<and> roomy B'"
  shows "ready hs h'" "contents hs h' = (contents hs h)(b := sshbuf_data b h')"
proof -
  have ok: "heap_ok hs h" using assms(1) by (simp add: ready_def)
  have "roomy C" if c: "c \<in> hs" "bufs h' c = Some C" for c C
  proof (cases "c = b")
    case False
    then have "bufs h' c = bufs h c" using assms(3) by (simp add: keeps_def)
    then show ?thesis using assms(1) c by (simp add: ready_def)
  qed (use assms(4) c in auto)
  then show "ready hs h'" using keeps_heap_ok [OF assms(3)] by (simp add: ready_def)
  show "contents hs h' = (contents hs h)(b := sshbuf_data b h')"
    using keeps_data [OF assms(3) ok assms(2)] assms(2) by (auto simp: contents_def fun_eq_iff)
qed

subsection \<open>The calls\<close>

datatype buf_op =
    New
  | Put_u32 nat u32
  | Putb nat nat
  | Put_stringb nat nat
  | Get_u32 nat
  | Consume nat u64
  | Consume_end nat u64
  | Reset nat
  | Set_max_size nat u64
  | Fromb nat
  | Free nat

datatype reply = Code int | Value int "u32 option" | Handle "nat option" | Done

text \<open>A call, with the handles held before and after it.\<close>

fun exec :: "buf_op \<Rightarrow> nat set \<Rightarrow> heap \<Rightarrow> (reply \<times> nat set \<times> heap) option" where
  "exec New hs h =
     (case sshbuf_new h of (None, h) \<Rightarrow> Some (Handle None, hs, h) | (Some b, h) \<Rightarrow> Some (Handle (Some b), insert b hs, h))"
| "exec (Put_u32 b v) hs h = map_option (\<lambda>(r, h). (Code r, hs, h)) (sshbuf_put_u32 b v h)"
| "exec (Putb b c) hs h = map_option (\<lambda>(r, h). (Code r, hs, h)) (sshbuf_putb b c h)"
| "exec (Put_stringb b c) hs h = map_option (\<lambda>(r, h). (Code r, hs, h)) (sshbuf_put_stringb b c h)"
| "exec (Get_u32 b) hs h = map_option (\<lambda>(r, v, h). (Value r v, hs, h)) (sshbuf_get_u32 b h)"
| "exec (Consume b n) hs h = map_option (\<lambda>(r, h). (Code r, hs, h)) (sshbuf_consume b n h)"
| "exec (Consume_end b n) hs h = map_option (\<lambda>(r, h). (Code r, hs, h)) (sshbuf_consume_end b n h)"
| "exec (Reset b) hs h = map_option (\<lambda>h. (Done, hs, h)) (sshbuf_reset b h)"
| "exec (Set_max_size b n) hs h = map_option (\<lambda>(r, h). (Code r, hs, h)) (sshbuf_set_max_size b n h)"
| "exec (Fromb b) hs h =
     (case sshbuf_fromb b h of
        None \<Rightarrow> None
      | Some (None, h) \<Rightarrow> Some (Handle None, hs, h)
      | Some (Some c, h) \<Rightarrow> Some (Handle (Some c), insert c hs, h))"
| "exec (Free b) hs h = map_option (\<lambda>h. (Done, hs - {b}, h)) (sshbuf_free 2 (Some b) h)"

text \<open>
  What a caller has to respect: handles are held, a buffer is not put into itself, no limit below
  the initial size, no child of a child and no more than \<^verbatim>\<open>SSHBUF_REFS_MAX\<close> references.
\<close>

fun allowed :: "buf_op \<Rightarrow> nat set \<Rightarrow> heap \<Rightarrow> bool" where
  "allowed New hs h = True"
| "allowed (Put_u32 b v) hs h = (b \<in> hs)"
| "allowed (Putb b c) hs h = (b \<in> hs \<and> c \<in> hs \<and> b \<noteq> c)"
| "allowed (Put_stringb b c) hs h = (b \<in> hs \<and> c \<in> hs \<and> b \<noteq> c)"
| "allowed (Get_u32 b) hs h = (b \<in> hs)"
| "allowed (Consume b n) hs h = (b \<in> hs)"
| "allowed (Consume_end b n) hs h = (b \<in> hs)"
| "allowed (Reset b) hs h = (b \<in> hs)"
| "allowed (Set_max_size b n) hs h = (b \<in> hs \<and> SSHBUF_SIZE_INIT \<le> n)"
| "allowed (Fromb b) hs h =
     (b \<in> hs \<and> sshbuf_parent b h = Some None \<and> (case sshbuf_refcount b h of Some r \<Rightarrow> r < SSHBUF_REFS_MAX | None \<Rightarrow> False))"
| "allowed (Free b) hs h = (b \<in> hs)"

text \<open>The specification: the calls on byte queues.\<close>

inductive queue_step :: "buf_op \<Rightarrow> reply \<Rightarrow> (nat \<Rightarrow> byte list option) \<Rightarrow> (nat \<Rightarrow> byte list option) \<Rightarrow> bool" where
  new: "Q b = None \<Longrightarrow> queue_step New (Handle (Some b)) Q (Q(b \<mapsto> []))"
| no_new: "queue_step New (Handle None) Q Q"
| put_u32: "Q b = Some d \<Longrightarrow> queue_step (Put_u32 b v) (Code 0) Q (Q(b \<mapsto> d @ POKE_U32 v))"
| no_put_u32: "r < 0 \<Longrightarrow> queue_step (Put_u32 b v) (Code r) Q Q"
| putb: "Q b = Some d \<Longrightarrow> Q c = Some e \<Longrightarrow> queue_step (Putb b c) (Code 0) Q (Q(b \<mapsto> d @ e))"
| no_putb: "r < 0 \<Longrightarrow> queue_step (Putb b c) (Code r) Q Q"
| put_stringb: "Q b = Some d \<Longrightarrow> Q c = Some e \<Longrightarrow>
    queue_step (Put_stringb b c) (Code 0) Q (Q(b \<mapsto> d @ POKE_U32 (word_of_nat (length e)) @ e))"
| no_put_stringb: "r < 0 \<Longrightarrow> queue_step (Put_stringb b c) (Code r) Q Q"
| get_u32: "Q b = Some d \<Longrightarrow> 4 \<le> length d \<Longrightarrow>
    queue_step (Get_u32 b) (Value 0 (Some (PEEK_U32 (take 4 d)))) Q (Q(b \<mapsto> drop 4 d))"
| no_get_u32: "Q b = Some d \<Longrightarrow> length d < 4 \<Longrightarrow> queue_step (Get_u32 b) (Value SSH_ERR_MESSAGE_INCOMPLETE None) Q Q"
| consume: "Q b = Some d \<Longrightarrow> unat n \<le> length d \<Longrightarrow> queue_step (Consume b n) (Code 0) Q (Q(b \<mapsto> drop (unat n) d))"
| no_consume: "Q b = Some d \<Longrightarrow> length d < unat n \<Longrightarrow>
    queue_step (Consume b n) (Code SSH_ERR_MESSAGE_INCOMPLETE) Q Q"
| consume_end: "Q b = Some d \<Longrightarrow> unat n \<le> length d \<Longrightarrow>
    queue_step (Consume_end b n) (Code 0) Q (Q(b \<mapsto> take (length d - unat n) d))"
| no_consume_end: "Q b = Some d \<Longrightarrow> length d < unat n \<Longrightarrow>
    queue_step (Consume_end b n) (Code SSH_ERR_MESSAGE_INCOMPLETE) Q Q"
| reset: "queue_step (Reset b) Done Q (Q(b \<mapsto> []))"
| set_max_size: "queue_step (Set_max_size b n) (Code r) Q Q"
| fromb: "Q b = Some d \<Longrightarrow> Q c = None \<Longrightarrow> queue_step (Fromb b) (Handle (Some c)) Q (Q(c \<mapsto> d))"
| no_fromb: "queue_step (Fromb b) (Handle None) Q Q"
| free: "queue_step (Free b) Done Q (Q(b := None))"

subsection \<open>The buffers implement the queues\<close>

text \<open>A call on one buffer that keeps the rest.\<close>

lemma refine_one:
  assumes "ready hs h" "b \<in> hs" "exec op hs h = Some (rep, hs, h')" "keeps hs b h h'"
    "\<exists>B'. bufs h' b = Some B' \<and> roomy B'" "queue_step op rep (contents hs h) ((contents hs h)(b := sshbuf_data b h'))"
  shows "\<exists>rep hs' h'. exec op hs h = Some (rep, hs', h') \<and> ready hs' h' \<and> queue_step op rep (contents hs h) (contents hs' h')"
  using assms(3,6) ready_keeps [OF assms(1,2,4,5)] by auto

lemma refine_put:
  assumes r: "ready hs h" and b: "b \<in> hs" and d: "contents hs h b = Some d"
    and put: "exec op hs h = Some (Code r, hs, h')" "keeps hs b h h'" "\<exists>B'. bufs h' b = Some B' \<and> roomy B'"
      "sshbuf_data b h' = Some (if r = 0 then d @ bs else d)" "r \<le> 0"
    and Q: "queue_step op (Code 0) (contents hs h) ((contents hs h)(b \<mapsto> d @ bs))"
      "\<And>r. r < 0 \<Longrightarrow> queue_step op (Code r) (contents hs h) (contents hs h)"
  shows "\<exists>rep hs' h'. exec op hs h = Some (rep, hs', h') \<and> ready hs' h' \<and> queue_step op rep (contents hs h) (contents hs' h')"
proof (rule refine_one [OF r b put(1-3)])
  show "queue_step op (Code r) (contents hs h) ((contents hs h)(b := sshbuf_data b h'))"
    using put(4,5) Q d by (cases "r = 0") (simp_all add: fun_upd_idem)
qed

text \<open>The bytes of another buffer are readable and not touched, unless the put is refused.\<close>

lemma other_data:
  assumes ok: "heap_ok hs h" and b: "b \<in> hs" "bufs h b = Some B" and c: "c \<in> hs" "c \<noteq> b" and e: "sshbuf_data c h = Some e"
  obtains p where "sshbuf_ptr c h = Some p" "sshbuf_len c h = Some (word_of_nat (length e))"
    "unat (word_of_nat (length e) :: u64) = length e" "rd_len p (length e) h = Some e" "locked B \<or> foreign b p h"
proof -
  obtain p where p: "sshbuf_ptr c h = Some p" "sshbuf_len c h = Some (word_of_nat (length e))" "length e \<le> 134217728"
    "\<And>i n. i + n \<le> length e \<Longrightarrow> rd_mem (ptr_add p i) n h = Some (take n (drop i e))"
    "\<exists>a i. p = Some (a, i) \<and> (\<forall>C. bufs h c = Some C \<longrightarrow> blk_of C = a)"
    by (rule ptr_data [OF ok c(1) e]) (rule that)
  obtain C where C: "bufs h c = Some C" using heap_okD(4) [OF ok c(1)] by blast
  show thesis
  proof (rule that [OF p(1,2)])
    show "unat (word_of_nat (length e) :: u64) = length e" using p(3) by (simp add: unat_of_nat)
    have "ptr_add p 0 = p" by (cases p) (auto simp: ptr_add_def)
    then show "rd_len p (length e) h = Some e" using p(4) [of 0 "length e"] by (simp add: rd_len_def)
    show "locked B \<or> foreign b p h"
      using p(5) C b(2) unlocked(5) [OF ok b _ C c(2)] by (auto simp: foreign_def)
  qed
qed

lemma put_locked:
  assumes "heap_ok hs h" "bufs h b = Some B" "locked B"
  shows "sshbuf_put b v len h = Some (SSH_ERR_BUFFER_READ_ONLY, h)"
    "sshbuf_put_string b v len h = Some (if len > SSHBUF_SIZE_MAX - 4 then SSH_ERR_NO_BUFFER_SPACE else SSH_ERR_BUFFER_READ_ONLY, h)"
  using allocate_fails(1) [OF assms] by (simp_all add: sshbuf_put_def sshbuf_put_string_def sshbuf_reserve_def)

lemma exec_put_u32:
  assumes r: "ready hs h" and b: "b \<in> hs" and op: "op = Put_u32 b v"
  shows "\<exists>rep hs' h'. exec op hs h = Some (rep, hs', h') \<and> ready hs' h' \<and> queue_step op rep (contents hs h) (contents hs' h')"
proof -
  obtain B d where B: "heap_ok hs h" "bufs h b = Some B" "roomy B" "sshbuf_data b h = Some d" "contents hs h b = Some d"
    by (rule readyD [OF r b])
  obtain q h' where q: "put_fixed (POKE_U32 v) b h = Some (q, h')" "keeps hs b h h'"
    "sshbuf_data b h' = Some (if q = 0 then d @ POKE_U32 v else d)" "q \<le> 0"
    by (rule put_fixed_ok [OF B(1) b B(4), of "POKE_U32 v"]) (simp, rule that)
  show ?thesis
    by (rule refine_put [OF r b B(5) _ q(2) _ q(3,4)])
      (use q(1) put_roomy(1) [OF B(1) b B(2,3)] B(5) in \<open>auto simp: op sshbuf_put_u32_def intro: queue_step.intros\<close>)
qed

lemma exec_putb:
  assumes r: "ready hs h" and b: "b \<in> hs" "c \<in> hs" "b \<noteq> c" and op: "op = Putb b c \<or> op = Put_stringb b c"
  shows "\<exists>rep hs' h'. exec op hs h = Some (rep, hs', h') \<and> ready hs' h' \<and> queue_step op rep (contents hs h) (contents hs' h')"
proof -
  obtain B d where B: "heap_ok hs h" "bufs h b = Some B" "roomy B" "sshbuf_data b h = Some d" "contents hs h b = Some d"
    by (rule readyD [OF r b(1)])
  obtain C e where C: "sshbuf_data c h = Some e" "contents hs h c = Some e"
    by (rule readyD [OF r b(2)])
  define n :: u64 where "n = word_of_nat (length e)"
  obtain p where p: "sshbuf_ptr c h = Some p" "sshbuf_len c h = Some n"
    "unat n = length e" "rd_len p (unat n) h = Some e" "locked B \<or> foreign b p h"
    by (rule other_data [OF B(1) b(1) B(2) b(2) b(3)[symmetric] C(1)]) (simp add: n_def that)
  show ?thesis
  proof (cases "locked B")
    case True
    then have "exec op hs h = Some (Code SSH_ERR_BUFFER_READ_ONLY, hs, h) \<or> exec op hs h = Some (Code SSH_ERR_NO_BUFFER_SPACE, hs, h)"
      using put_locked [OF B(1,2) True] p op by (auto simp: sshbuf_putb_def sshbuf_put_stringb_def)
    then show ?thesis using r op by (auto intro!: no_putb no_put_stringb)
  next
    case False
    with p(5) have f: "foreign b p h" by simp
    have w: "ucast n = (word_of_nat (length e) :: u32)" unfolding n_def by transfer (simp add: take_bit_of_nat)
    from op show ?thesis
    proof
      assume op: "op = Putb b c"
      obtain q h' where q: "sshbuf_put b p n h = Some (q, h')" "keeps hs b h h'"
        "sshbuf_data b h' = Some (if q = 0 then d @ e else d)" "q \<le> 0"
        by (rule put_ok [OF B(1) b(1) B(4) p(4) f]) (rule that)
      show ?thesis
        by (rule refine_put [OF r b(1) B(5) _ q(2) _ q(3,4)])
          (use q(1) p(1,2) put_roomy(2) [OF B(1) b(1) B(2,3)] B(5) C(2) in \<open>auto simp: op sshbuf_putb_def intro: queue_step.intros\<close>)
    next
      assume op: "op = Put_stringb b c"
      obtain q h' where q: "sshbuf_put_string b p n h = Some (q, h')" "keeps hs b h h'"
        "sshbuf_data b h' = Some (if q = 0 then d @ POKE_U32 (ucast n) @ e else d)" "q \<le> 0"
        by (rule put_string_ok [OF B(1) b(1) B(4) p(4) f]) (rule that)
      show ?thesis
        by (rule refine_put [OF r b(1) B(5) _ q(2) _ q(3,4)])
          (use q(1) p(1,2) w put_roomy(3) [OF B(1) b(1) B(2,3)] B(5) C(2) in \<open>auto simp: op sshbuf_put_stringb_def intro: queue_step.intros\<close>)
    qed
  qed
qed

lemma exec_take:
  assumes r: "ready hs h" and b: "b \<in> hs" and op: "op = Get_u32 b \<or> op = Consume b n \<or> op = Consume_end b n"
  shows "\<exists>rep hs' h'. exec op hs h = Some (rep, hs', h') \<and> ready hs' h' \<and> queue_step op rep (contents hs h) (contents hs' h')"
proof -
  obtain B d where B: "heap_ok hs h" "bufs h b = Some B" "roomy B" "sshbuf_data b h = Some d" "contents hs h b = Some d"
    by (rule readyD [OF r b])
  consider (get) "op = Get_u32 b" "4 \<le> length d" | (no_get) "op = Get_u32 b" "length d < 4"
    | (consume) "op = Consume b n" "unat n \<le> length d" | (no_consume) "op = Consume b n" "length d < unat n"
    | (consume_end) "op = Consume_end b n" "unat n \<le> length d" | (no_consume_end) "op = Consume_end b n" "length d < unat n"
    using op by linarith
  then show ?thesis
  proof cases
    case get
    obtain h' where h': "get_fixed 4 PEEK_U32 b h = Some (0, Some (PEEK_U32 (take 4 d)), h')" "keeps hs b h h'"
      "sshbuf_data b h' = Some (drop 4 d)"
      using get_fixed_ok(1) [OF B(1) b B(4) _ get(2), of PEEK_U32] by auto
    show ?thesis
      by (rule refine_one [OF r b _ h'(2) get_fixed_roomy [OF B(2,3) h'(1)]])
        (use h' get B(5) in \<open>auto simp: sshbuf_get_u32_def intro: queue_step.intros\<close>)
  next
    case no_get
    then have "exec op hs h = Some (Value SSH_ERR_MESSAGE_INCOMPLETE None, hs, h)"
      using get_fixed_ok(2) [OF B(1) b B(4) _ no_get(2), of PEEK_U32] by (simp add: sshbuf_get_u32_def)
    then show ?thesis using r no_get B(5) by (auto intro: queue_step.intros)
  next
    case consume
    obtain h' where h': "sshbuf_consume b n h = Some (0, h')" "keeps hs b h h'" "sshbuf_data b h' = Some (drop (unat n) d)"
      by (rule consume_ok [OF B(1) b B(4) consume(2)]) (rule that)
    show ?thesis
      by (rule refine_one [OF r b _ h'(2) consume_roomy(1) [OF B(2,3) h'(1)]])
        (use h' consume B(5) in \<open>auto intro: queue_step.intros\<close>)
  next
    case consume_end
    obtain h' where h': "sshbuf_consume_end b n h = Some (0, h')" "keeps hs b h h'"
      "sshbuf_data b h' = Some (take (length d - unat n) d)"
      by (rule consume_end_ok [OF B(1) b B(4) consume_end(2)]) (rule that)
    show ?thesis
      by (rule refine_one [OF r b _ h'(2) consume_roomy(2) [OF B(2,3) h'(1)]])
        (use h' consume_end B(5) in \<open>auto intro: queue_step.intros\<close>)
  qed (use r B(5) consume_short [OF B(1) b B(4)] in \<open>auto intro: queue_step.intros\<close>)
qed

lemma exec_limits:
  assumes r: "ready hs h" and b: "b \<in> hs" and op: "op = Reset b \<or> op = Set_max_size b n \<and> SSHBUF_SIZE_INIT \<le> n"
  shows "\<exists>rep hs' h'. exec op hs h = Some (rep, hs', h') \<and> ready hs' h' \<and> queue_step op rep (contents hs h) (contents hs' h')"
proof -
  obtain B d where B: "heap_ok hs h" "bufs h b = Some B" "roomy B" "sshbuf_data b h = Some d" "contents hs h b = Some d"
    by (rule readyD [OF r b])
  from op show ?thesis
  proof
    assume op: "op = Reset b"
    obtain h' B' where h': "sshbuf_reset b h = Some h'" "keeps hs b h h'" "sshbuf_data b h' = Some []"
      "bufs h' b = Some B'" "roomy B'"
      by (rule reset_ok [OF B(1) b B(2,3)]) (rule that)
    show ?thesis
      by (rule refine_one [OF r b _ h'(2)]) (use h' op in \<open>auto intro: queue_step.intros\<close>)
  next
    assume op: "op = Set_max_size b n \<and> SSHBUF_SIZE_INIT \<le> n"
    obtain q h' B' where h': "sshbuf_set_max_size b n h = Some (q, h')" "keeps hs b h h'" "sshbuf_data b h' = sshbuf_data b h"
      "bufs h' b = Some B'" "SSHBUF_SIZE_INIT \<le> n \<Longrightarrow> roomy B \<Longrightarrow> roomy B'"
      by (rule set_max_size_ok [OF B(1) b B(2), of n]) (rule that)
    show ?thesis
      by (rule refine_one [OF r b _ h'(2)])
        (use h' op B in \<open>auto simp: fun_upd_idem intro: queue_step.intros\<close>)
  qed
qed

lemma free_roomy:
  assumes ok: "heap_ok hs h" and b: "b \<in> hs" and free: "sshbuf_free (Suc (Suc n)) (Some b) h = Some h'"
    and c: "bufs h' c = Some C"
  shows "\<exists>C0. bufs h c = Some C0 \<and> (roomy C0 \<longrightarrow> roomy C)"
proof -
  have rel: "\<exists>C0. bufs h c = Some C0 \<and> (roomy C0 \<longrightarrow> roomy C)" if "bufs (released x h) c = Some C" for x
    using that by (auto simp: released_def set_buf_def free_struct_def roomy_def split: option.splits if_splits)
  obtain B where B: "bufs h b = Some B" using heap_okD(4) [OF ok b] by blast
  show ?thesis
  proof (cases "b_parent B")
    case None
    then show ?thesis using free free_root [OF ok B None, of "Suc n"] c rel by simp
  next
    case (Some p)
    then show ?thesis using free free_child(1) [OF ok B b Some, of n] c rel [of p] by (auto simp: free_struct_def split: if_splits)
  qed
qed

lemma exec_new:
  assumes r: "ready hs h"
  shows "\<exists>rep hs' h'. exec New hs h = Some (rep, hs', h') \<and> ready hs' h' \<and> queue_step New rep (contents hs h) (contents hs' h')"
proof -
  have ok: "heap_ok hs h" using r by (simp add: ready_def)
  show ?thesis
  proof (rule new_ok [OF ok])
    fix h'
    assume n: "sshbuf_new h = (None, h')" "heap_ok hs h'" "\<And>c. c \<in> hs \<Longrightarrow> sshbuf_data c h' = sshbuf_data c h" "bufs h' = bufs h"
    have "contents hs h' = contents hs h" using n(3) by (simp add: contents_def fun_eq_iff)
    then show ?thesis using n r by (auto simp: ready_def intro: queue_step.intros)
  next
    fix b h' B
    assume n: "sshbuf_new h = (Some b, h')" "b \<notin> hs" "heap_ok (insert b hs) h'" "sshbuf_data b h' = Some []"
      "\<And>c. c \<in> hs \<Longrightarrow> sshbuf_data c h' = sshbuf_data c h" "bufs h' = (bufs h)(b \<mapsto> B)" "roomy B"
    have "contents (insert b hs) h' = (contents hs h)(b \<mapsto> [])" using n(2,4,5) by (auto simp: contents_def fun_eq_iff)
    moreover have "contents hs h b = None" using n(2) by (simp add: contents_def)
    moreover have "ready (insert b hs) h'" using n r by (auto simp: ready_def)
    ultimately show ?thesis using n(1) by (auto intro: queue_step.intros)
  qed
qed

lemma exec_fromb:
  assumes r: "ready hs h" and b: "allowed (Fromb b) hs h"
  shows "\<exists>rep hs' h'. exec (Fromb b) hs h = Some (rep, hs', h') \<and> ready hs' h'
    \<and> queue_step (Fromb b) rep (contents hs h) (contents hs' h')"
proof -
  have bh: "b \<in> hs" using b by simp
  obtain B d where B: "heap_ok hs h" "bufs h b = Some B" "roomy B" "sshbuf_data b h = Some d" "contents hs h b = Some d"
    by (rule readyD [OF r bh])
  have root: "b_parent B = None" "b_refcount B < SSHBUF_REFS_MAX"
    using b B(2) by (simp_all add: sshbuf_parent_def sshbuf_refcount_def)
  show ?thesis
  proof (rule fromb_ok [OF B(1) bh B(2) root])
    fix h'
    assume n: "sshbuf_fromb b h = Some (None, h')" "heap_ok hs h'" "bufs h' = bufs h" "mem h' = mem h"
    have "contents hs h' = contents hs h" using n(3,4) by (simp add: contents_def sshbuf_data_def rd_mem_def fun_eq_iff)
    then show ?thesis using n r by (auto simp: ready_def intro: queue_step.intros)
  next
    fix c h' C
    assume n: "sshbuf_fromb b h = Some (Some c, h')" "c \<notin> hs" "heap_ok (insert c hs) h'"
      "sshbuf_data c h' = sshbuf_data b h" "mem h' = mem h" "b_readonly C"
      "bufs h' = (bufs h)(c \<mapsto> C, b \<mapsto> B\<lparr>b_refcount := b_refcount B + 1\<rparr>)" "bufs h c = None"
    have rd: "rd_mem p k h' = rd_mem p k h" for p k using n(5) by (simp add: rd_mem_def)
    have cb: "c \<noteq> b" using n(2) bh by blast
    have "sshbuf_data x h' = sshbuf_data x h" if "x \<noteq> c" for x
      using that n(7) B(2) by (simp add: sshbuf_data_def rd)
    then have "contents (insert c hs) h' = (contents hs h)(c \<mapsto> d)"
      using n(4) B(4) by (auto simp: contents_def fun_eq_iff)
    moreover have "contents hs h c = None" using n(2) by (simp add: contents_def)
    moreover have "roomy X" if x: "x \<in> insert c hs" "bufs h' x = Some X" for x X
    proof (cases "x = b \<or> x = c")
      case True
      then show ?thesis using x n(6,7) B(3) cb by (auto simp: roomy_def)
    next
      case False
      then show ?thesis using x n(7) r by (simp add: ready_def)
    qed
    ultimately show ?thesis using n(1,3) B(5) by (auto simp: ready_def intro: queue_step.intros)
  qed
qed

lemma exec_free:
  assumes r: "ready hs h" and b: "b \<in> hs"
  shows "\<exists>rep hs' h'. exec (Free b) hs h = Some (rep, hs', h') \<and> ready hs' h'
    \<and> queue_step (Free b) rep (contents hs h) (contents hs' h')"
proof -
  have ok: "heap_ok hs h" using r by (simp add: ready_def)
  obtain h' where h': "sshbuf_free (Suc (Suc 0)) (Some b) h = Some h'" "heap_ok (hs - {b}) h'"
    "\<And>c. c \<in> hs - {b} \<Longrightarrow> sshbuf_data c h' = sshbuf_data c h"
    by (rule free_ok [OF ok b, of 0]) (rule that)
  have "contents (hs - {b}) h' = (contents hs h)(b := None)" using h'(3) by (auto simp: contents_def fun_eq_iff)
  moreover have "ready (hs - {b}) h'"
    using h'(2) free_roomy [OF ok b h'(1)] r by (fastforce simp: ready_def)
  ultimately show ?thesis using h'(1) by (auto simp: numeral_2_eq_2 intro: queue_step.intros)
qed

lemma exec_refines:
  assumes r: "ready hs h" and al: "allowed op hs h"
  shows "\<exists>rep hs' h'. exec op hs h = Some (rep, hs', h') \<and> ready hs' h' \<and> queue_step op rep (contents hs h) (contents hs' h')"
proof (cases op)
  case New
  then show ?thesis using exec_new [OF r] by simp
next
  case (Put_u32 b v)
  with al exec_put_u32 [OF r _ Put_u32] show ?thesis by simp
next
  case (Putb b c)
  with al exec_putb [OF r _ _ _ disjI1 [OF Putb]] show ?thesis by simp
next
  case (Put_stringb b c)
  with al exec_putb [OF r _ _ _ disjI2 [OF Put_stringb]] show ?thesis by simp
next
  case (Get_u32 b)
  with al exec_take [OF r _ disjI1 [OF Get_u32]] show ?thesis by simp
next
  case (Consume b n)
  with al exec_take [OF r _ disjI2 [OF disjI1 [OF Consume]]] show ?thesis by simp
next
  case (Consume_end b n)
  with al exec_take [OF r _ disjI2 [OF disjI2 [OF Consume_end]]] show ?thesis by simp
next
  case (Reset b)
  with al exec_limits [OF r _ disjI1 [OF Reset]] show ?thesis by simp
next
  case (Set_max_size b n)
  with al exec_limits [OF r, of b op n] show ?thesis by simp
next
  case (Fromb b)
  then show ?thesis using exec_fromb [OF r] al by simp
next
  case (Free b)
  then show ?thesis using exec_free [OF r] al by simp
qed

subsection \<open>Sequences of calls\<close>

fun run_calls :: "buf_op list \<Rightarrow> nat set \<Rightarrow> heap \<Rightarrow> (reply list \<times> nat set \<times> heap) option" where
  "run_calls [] hs h = Some ([], hs, h)"
| "run_calls (op # ops) hs h =
     (case exec op hs h of
        None \<Rightarrow> None
      | Some (rep, hs', h') \<Rightarrow> map_option (\<lambda>(reps, s). (rep # reps, s)) (run_calls ops hs' h'))"

text \<open>The caller respects the rules as long as the calls return.\<close>

fun allowed_calls :: "buf_op list \<Rightarrow> nat set \<Rightarrow> heap \<Rightarrow> bool" where
  "allowed_calls [] hs h = True"
| "allowed_calls (op # ops) hs h =
     (allowed op hs h \<and> (case exec op hs h of None \<Rightarrow> True | Some (rep, hs', h') \<Rightarrow> allowed_calls ops hs' h'))"

inductive queue_run :: "buf_op list \<Rightarrow> reply list \<Rightarrow> (nat \<Rightarrow> byte list option) \<Rightarrow> (nat \<Rightarrow> byte list option) \<Rightarrow> bool" where
  stop: "queue_run [] [] Q Q"
| call: "queue_step op rep Q Q1 \<Longrightarrow> queue_run ops reps Q1 Q2 \<Longrightarrow> queue_run (op # ops) (rep # reps) Q Q2"

lemma run_calls_refines:
  assumes "ready hs h" "allowed_calls ops hs h"
  shows "\<exists>reps hs' h'. run_calls ops hs h = Some (reps, hs', h') \<and> ready hs' h'
    \<and> queue_run ops reps (contents hs h) (contents hs' h')"
  using assms
proof (induction ops arbitrary: hs h)
  case Nil
  then show ?case by (auto intro: queue_run.intros)
next
  case (Cons op ops)
  obtain rep hs1 h1 where e: "exec op hs h = Some (rep, hs1, h1)" "ready hs1 h1" "queue_step op rep (contents hs h) (contents hs1 h1)"
    using exec_refines [OF Cons.prems(1), of op] Cons.prems(2) by auto
  then have "allowed_calls ops hs1 h1" using Cons.prems(2) by simp
  then obtain reps hs' h' where "run_calls ops hs1 h1 = Some (reps, hs', h')" "ready hs' h'"
    "queue_run ops reps (contents hs1 h1) (contents hs' h')"
    using Cons.IH [OF e(2)] by blast
  with e show ?case by (auto intro: queue_run.intros)
qed

text \<open>
  Claim C2: refinement of the packet buffers. Started on an empty store, any sequence of calls of
  \<^verbatim>\<open>sshbuf_new\<close>, \<^verbatim>\<open>sshbuf_put_u32\<close>, \<^verbatim>\<open>sshbuf_putb\<close>, \<^verbatim>\<open>sshbuf_put_stringb\<close>, \<^verbatim>\<open>sshbuf_get_u32\<close>,
  \<^verbatim>\<open>sshbuf_consume\<close>, \<^verbatim>\<open>sshbuf_consume_end\<close>, \<^verbatim>\<open>sshbuf_reset\<close>, \<^verbatim>\<open>sshbuf_set_max_size\<close>,
  \<^verbatim>\<open>sshbuf_fromb\<close> and \<^verbatim>\<open>sshbuf_free\<close> that respects the callers' rules runs to its end, whatever
  allocations fail: no call reaches the abort of \<^verbatim>\<open>sshbuf_check_sanity\<close> or an access outside a
  live block, and the replies and the contents of all held buffers are those of independent byte
  queues.
\<close>

theorem sshbuf_refines_queues:
  assumes "allowed_calls ops {} (empty_heap\<lparr>malloc_ok := m\<rparr>)"
  shows "\<exists>reps hs h. run_calls ops {} (empty_heap\<lparr>malloc_ok := m\<rparr>) = Some (reps, hs, h) \<and> heap_ok hs h
    \<and> queue_run ops reps Map.empty (contents hs h)"
proof -
  have "ready {} (empty_heap\<lparr>malloc_ok := m\<rparr>)" "contents {} (empty_heap\<lparr>malloc_ok := m\<rparr>) = Map.empty"
    by (auto simp: ready_def heap_ok_def empty_heap_def contents_def)
  then show ?thesis using run_calls_refines [OF _ assms] by (auto simp: ready_def)
qed

theorem sshbuf_refines_queues_witness:
  "\<exists>reps hs h. run_calls [New, Put_u32 0 7, New, Putb 2 0, Fromb 2, Get_u32 4, Free 2] {} (empty_heap\<lparr>malloc_ok := \<lambda>_. True\<rparr>)
       = Some (reps, hs, h) \<and> heap_ok hs h
     \<and> queue_run [New, Put_u32 0 7, New, Putb 2 0, Fromb 2, Get_u32 4, Free 2] reps Map.empty (contents hs h)"
  by (rule sshbuf_refines_queues) code_simp

text \<open>
  Claim C8: no buffer outlives its holders. After any sequence of allowed calls that leaves the
  caller without a handle, whatever order parents and children were freed in, no
  \<^verbatim>\<open>struct sshbuf\<close> is left in the store.
\<close>

theorem sshbuf_all_freed:
  assumes al: "allowed_calls ops {} (empty_heap\<lparr>malloc_ok := m\<rparr>)"
    and run: "run_calls ops {} (empty_heap\<lparr>malloc_ok := m\<rparr>) = Some (reps, {}, h)"
  shows "bufs h b = None"
proof (rule ccontr)
  have "ready {} (empty_heap\<lparr>malloc_ok := m\<rparr>)"
    by (auto simp: ready_def heap_ok_def empty_heap_def contents_def)
  then have ok: "heap_ok {} h" using run_calls_refines [OF _ al] run by (auto simp: ready_def)
  have kid: "kids h c \<noteq> {}" if "bufs h c = Some C" for c C
    using heap_okD(1,3) [OF ok that] sane_bounds(6) [of C] by (auto simp: buf_ok_def)
  assume "bufs h b \<noteq> None"
  then obtain B where "bufs h b = Some B" by blast
  from kid [OF this] obtain c C where c: "bufs h c = Some C" "b_parent C = Some b" by (auto simp: kids_def)
  from kid [OF c(1)] obtain e E where e: "bufs h e = Some E" "b_parent E = Some c" by (auto simp: kids_def)
  show False using heap_okD(6) [OF ok e] c by simp
qed

theorem sshbuf_all_freed_witness:
  "\<exists>reps h. run_calls [New, Fromb 0, Free 0, Free 2] {} (empty_heap\<lparr>malloc_ok := \<lambda>_. True\<rparr>) = Some (reps, {}, h)
     \<and> bufs h 0 = None"
proof -
  have "map_option (\<lambda>(reps, hs, h). hs) (run_calls [New, Fromb 0, Free 0, Free 2] {} (empty_heap\<lparr>malloc_ok := \<lambda>_. True\<rparr>)) = Some {}"
    by code_simp
  moreover have "allowed_calls [New, Fromb 0, Free 0, Free 2] {} (empty_heap\<lparr>malloc_ok := \<lambda>_. True\<rparr>)" by code_simp
  ultimately show ?thesis using sshbuf_all_freed by fastforce
qed


end
