(* ===== verification/Sshbuf_Values.thy ===== *)
theory Sshbuf_Values
  imports Sshbuf_Ops
begin

text \<open>
  Values in packet buffers. A buffer with a pair of functions that put and get a value is a queue
  of values: what is put comes out in the same order. The queue is an interface that the functions
  for integers of each size provide. The rest of the theory has the round trip of strings, what
  makes a put fail, and a use of \<^verbatim>\<open>sshbuf_reset\<close> that breaks a buffer.
\<close>

subsection \<open>Queues of values\<close>

primrec put_all :: "('v \<Rightarrow> 's \<Rightarrow> (int \<times> 's) option) \<Rightarrow> 'v list \<Rightarrow> 's \<Rightarrow> (int \<times> 's) option" where
  "put_all put [] s = Some (0, s)"
| "put_all put (v # vs) s =
     (case put v s of None \<Rightarrow> None | Some (r, s) \<Rightarrow> if r \<noteq> 0 then Some (r, s) else put_all put vs s)"

primrec get_all :: "('s \<Rightarrow> (int \<times> 'v option \<times> 's) option) \<Rightarrow> nat \<Rightarrow> 's \<Rightarrow> ('v list \<times> 's) option" where
  "get_all get 0 s = Some ([], s)"
| "get_all get (Suc n) s =
     (case get s of
        Some (r, Some v, s) \<Rightarrow> if r = 0 then map_option (\<lambda>(vs, s). (v # vs, s)) (get_all get n s) else None
      | _ \<Rightarrow> None)"

locale value_queue =
  fixes holds :: "'s \<Rightarrow> byte list \<Rightarrow> bool"
    and put :: "'v \<Rightarrow> 's \<Rightarrow> (int \<times> 's) option"
    and get :: "'s \<Rightarrow> (int \<times> 'v option \<times> 's) option"
    and enc :: "'v \<Rightarrow> byte list"
  assumes put_law: "holds s d \<Longrightarrow> \<exists>r s'. put v s = Some (r, s') \<and> holds s' (if r = 0 then d @ enc v else d)"
    and get_law: "holds s (enc v @ d) \<Longrightarrow> \<exists>s'. get s = Some (0, Some v, s') \<and> holds s' d"
begin

lemma put_all_holds:
  "holds s d \<Longrightarrow> \<exists>r s' n. put_all put vs s = Some (r, s') \<and> holds s' (d @ concat (map enc (take n vs))) \<and> (r = 0 \<longrightarrow> n = length vs)"
proof (induction vs arbitrary: s d)
  case Nil
  then show ?case by auto
next
  case (Cons v vs)
  obtain r s1 where p: "put v s = Some (r, s1)" "holds s1 (if r = 0 then d @ enc v else d)"
    using put_law [OF Cons.prems] by blast
  show ?case
  proof (cases "r = 0")
    case True
    obtain r' s' n where "put_all put vs s1 = Some (r', s')" "holds s' ((d @ enc v) @ concat (map enc (take n vs)))"
      "r' = 0 \<longrightarrow> n = length vs" using Cons.IH [of s1 "d @ enc v"] p(2) True by auto
    then show ?thesis using p(1) True by (intro exI [of _ r'] exI [of _ s'] exI [of _ "Suc n"]) simp
  next
    case False
    then show ?thesis using p by (intro exI [of _ r] exI [of _ s1] exI [of _ 0]) simp
  qed
qed

lemma get_all_holds:
  "holds s (concat (map enc vs) @ d) \<Longrightarrow> \<exists>s'. get_all get (length vs) s = Some (vs, s') \<and> holds s' d"
proof (induction vs arbitrary: s)
  case (Cons v vs)
  then have "holds s (enc v @ concat (map enc vs) @ d)" by simp
  from get_law [OF this] Cons.IH show ?case by force
qed auto

end

definition holds_buf :: "nat set \<Rightarrow> nat \<Rightarrow> heap \<Rightarrow> byte list \<Rightarrow> bool" where
  "holds_buf hs b h d \<longleftrightarrow> heap_ok hs h \<and> b \<in> hs \<and> sshbuf_data b h = Some d"

lemma holds_put:
  assumes "holds_buf hs b h d" "length bs < 2 ^ 64"
  shows "\<exists>r h'. put_fixed bs b h = Some (r, h') \<and> holds_buf hs b h' (if r = 0 then d @ bs else d)"
proof -
  have h: "heap_ok hs h" "b \<in> hs" "sshbuf_data b h = Some d" using assms(1) by (simp_all add: holds_buf_def)
  obtain r h' where "put_fixed bs b h = Some (r, h')" "keeps hs b h h'" "sshbuf_data b h' = Some (if r = 0 then d @ bs else d)"
    by (rule put_fixed_ok [OF h assms(2)]) (rule that)
  then show ?thesis using h(2) keeps_heap_ok by (auto simp: holds_buf_def)
qed

lemma holds_get:
  assumes "holds_buf hs b h (bs @ d)" "length bs < 2 ^ 64"
  shows "\<exists>h'. get_fixed (length bs) dec b h = Some (0, Some (dec bs), h') \<and> holds_buf hs b h' d"
proof -
  have h: "heap_ok hs h" "b \<in> hs" "sshbuf_data b h = Some (bs @ d)" using assms(1) by (simp_all add: holds_buf_def)
  show ?thesis using get_fixed_ok(1) [OF h assms(2), of dec] keeps_heap_ok h(2) by (auto simp: holds_buf_def)
qed

interpretation q64: value_queue "holds_buf hs b" "sshbuf_put_u64 b" "sshbuf_get_u64 b" POKE_U64
proof
  show "\<exists>r s'. sshbuf_put_u64 b v s = Some (r, s') \<and> holds_buf hs b s' (if r = 0 then d @ POKE_U64 v else d)"
    if "holds_buf hs b s d" for s d v using holds_put [OF that, of "POKE_U64 v"] by (simp add: sshbuf_put_u64_def)
  show "\<exists>s'. sshbuf_get_u64 b s = Some (0, Some v, s') \<and> holds_buf hs b s' d" if "holds_buf hs b s (POKE_U64 v @ d)" for s d v
    using holds_get [OF that, of PEEK_U64] PEEK_POKE_U64 [of v "[]"] by (simp add: sshbuf_get_u64_def)
qed

interpretation q32: value_queue "holds_buf hs b" "sshbuf_put_u32 b" "sshbuf_get_u32 b" POKE_U32
proof
  show "\<exists>r s'. sshbuf_put_u32 b v s = Some (r, s') \<and> holds_buf hs b s' (if r = 0 then d @ POKE_U32 v else d)"
    if "holds_buf hs b s d" for s d v using holds_put [OF that, of "POKE_U32 v"] by (simp add: sshbuf_put_u32_def)
  show "\<exists>s'. sshbuf_get_u32 b s = Some (0, Some v, s') \<and> holds_buf hs b s' d" if "holds_buf hs b s (POKE_U32 v @ d)" for s d v
    using holds_get [OF that, of PEEK_U32] PEEK_POKE_U32 [of v "[]"] by (simp add: sshbuf_get_u32_def)
qed

interpretation q16: value_queue "holds_buf hs b" "sshbuf_put_u16 b" "sshbuf_get_u16 b" POKE_U16
proof
  show "\<exists>r s'. sshbuf_put_u16 b v s = Some (r, s') \<and> holds_buf hs b s' (if r = 0 then d @ POKE_U16 v else d)"
    if "holds_buf hs b s d" for s d v using holds_put [OF that, of "POKE_U16 v"] by (simp add: sshbuf_put_u16_def)
  show "\<exists>s'. sshbuf_get_u16 b s = Some (0, Some v, s') \<and> holds_buf hs b s' d" if "holds_buf hs b s (POKE_U16 v @ d)" for s d v
    using holds_get [OF that, of PEEK_U16] PEEK_POKE_U16 [of v "[]"] by (simp add: sshbuf_get_u16_def)
qed

interpretation q8: value_queue "holds_buf hs b" "sshbuf_put_u8 b" "sshbuf_get_u8 b" "\<lambda>v. [v]"
proof
  show "\<exists>r s'. sshbuf_put_u8 b v s = Some (r, s') \<and> holds_buf hs b s' (if r = 0 then d @ [v] else d)"
    if "holds_buf hs b s d" for s d v using holds_put [OF that, of "[v]"] by (simp add: sshbuf_put_u8_def)
  show "\<exists>s'. sshbuf_get_u8 b s = Some (0, Some v, s') \<and> holds_buf hs b s' d" if "holds_buf hs b s ([v] @ d)" for s d v
    using holds_get [OF that, of hd] by (simp add: sshbuf_get_u8_def)
qed

text \<open>
  Claim C9: integers survive the trip through a buffer. If lists of values of each size are put
  into an empty buffer one list after the other, with no put failing, then as many gets of these
  sizes return exactly these values in this order and leave the buffer empty.
\<close>

theorem sshbuf_integers_roundtrip:
  assumes h: "heap_ok hs h" "b \<in> hs" "sshbuf_data b h = Some []"
    and "put_all (sshbuf_put_u64 b) v64 h = Some (0, h1)" "put_all (sshbuf_put_u32 b) v32 h1 = Some (0, h2)"
      "put_all (sshbuf_put_u16 b) v16 h2 = Some (0, h3)" "put_all (sshbuf_put_u8 b) v8 h3 = Some (0, h4)"
  shows "\<exists>h5 h6 h7 h8. get_all (sshbuf_get_u64 b) (length v64) h4 = Some (v64, h5)
    \<and> get_all (sshbuf_get_u32 b) (length v32) h5 = Some (v32, h6)
    \<and> get_all (sshbuf_get_u16 b) (length v16) h6 = Some (v16, h7)
    \<and> get_all (sshbuf_get_u8 b) (length v8) h7 = Some (v8, h8) \<and> sshbuf_data b h8 = Some []"
proof -
  have "holds_buf hs b h []" using h by (simp add: holds_buf_def)
  from q64.put_all_holds [OF this, of v64] assms(4) have "holds_buf hs b h1 (concat (map POKE_U64 v64))" by auto
  from q32.put_all_holds [OF this, of v32] assms(5)
  have "holds_buf hs b h2 (concat (map POKE_U64 v64) @ concat (map POKE_U32 v32))" by auto
  from q16.put_all_holds [OF this, of v16] assms(6)
  have "holds_buf hs b h3 (concat (map POKE_U64 v64) @ concat (map POKE_U32 v32) @ concat (map POKE_U16 v16))" by auto
  from q8.put_all_holds [OF this, of v8] assms(7)
  have "holds_buf hs b h4 (concat (map POKE_U64 v64) @ concat (map POKE_U32 v32) @ concat (map POKE_U16 v16)
      @ concat (map (\<lambda>v. [v]) v8))" by auto
  from q64.get_all_holds [OF this] obtain h5 where h5: "get_all (sshbuf_get_u64 b) (length v64) h4 = Some (v64, h5)"
    "holds_buf hs b h5 (concat (map POKE_U32 v32) @ concat (map POKE_U16 v16) @ concat (map (\<lambda>v. [v]) v8))" by blast
  from q32.get_all_holds [OF h5(2)] obtain h6 where h6: "get_all (sshbuf_get_u32 b) (length v32) h5 = Some (v32, h6)"
    "holds_buf hs b h6 (concat (map POKE_U16 v16) @ concat (map (\<lambda>v. [v]) v8))" by blast
  from q16.get_all_holds [OF h6(2)] obtain h7 where h7: "get_all (sshbuf_get_u16 b) (length v16) h6 = Some (v16, h7)"
    "holds_buf hs b h7 (concat (map (\<lambda>v. [v]) v8) @ [])" by auto
  from q8.get_all_holds [OF h7(2)] show ?thesis using h5(1) h6(1) h7(1) by (auto simp: holds_buf_def)
qed

text \<open>A store with one new buffer, for the examples.\<close>

definition one_buf :: heap where
  "one_buf = snd (sshbuf_new empty_heap)"

lemma one_buf: "heap_ok {0} one_buf" "sshbuf_data 0 one_buf = Some []"
proof -
  have "fst (sshbuf_new empty_heap) = Some 0" by code_simp
  then have n: "sshbuf_new empty_heap = (Some 0, one_buf)" by (simp add: one_buf_def prod_eq_iff)
  have "heap_ok {} empty_heap" using empty_heap_ready(1) by (simp add: ready_def)
  then show "heap_ok {0} one_buf" "sshbuf_data 0 one_buf = Some []"
    using n by (auto elim: new_ok)
qed

theorem sshbuf_integers_roundtrip_witness:
  "\<exists>h1 h2 h3 h4 h5 h6 h7 h8.
     put_all (sshbuf_put_u64 0) [0x123456789abcdef0] one_buf = Some (0, h1) \<and> put_all (sshbuf_put_u32 0) [3, 4] h1 = Some (0, h2)
     \<and> put_all (sshbuf_put_u16 0) [0xfffe] h2 = Some (0, h3) \<and> put_all (sshbuf_put_u8 0) [1, 2, 3] h3 = Some (0, h4)
     \<and> get_all (sshbuf_get_u64 0) 1 h4 = Some ([0x123456789abcdef0], h5) \<and> get_all (sshbuf_get_u32 0) 2 h5 = Some ([3, 4], h6)
     \<and> get_all (sshbuf_get_u16 0) 1 h6 = Some ([0xfffe], h7) \<and> get_all (sshbuf_get_u8 0) 3 h7 = Some ([1, 2, 3], h8)
     \<and> sshbuf_data 0 h8 = Some []"
proof -
  have "do {(r1, h1) \<leftarrow> put_all (sshbuf_put_u64 0) [0x123456789abcdef0] one_buf;
            (r2, h2) \<leftarrow> put_all (sshbuf_put_u32 0) [3, 4] h1;
            (r3, h3) \<leftarrow> put_all (sshbuf_put_u16 0) [0xfffe] h2;
            (r4, h4) \<leftarrow> put_all (sshbuf_put_u8 0) [1, 2, 3] h3; Some [r1, r2, r3, r4]} = Some [0, 0, 0, 0]"
    by code_simp
  then obtain h1 h2 h3 h4 where "put_all (sshbuf_put_u64 0) [0x123456789abcdef0] one_buf = Some (0, h1)"
    "put_all (sshbuf_put_u32 0) [3, 4] h1 = Some (0, h2)" "put_all (sshbuf_put_u16 0) [0xfffe] h2 = Some (0, h3)"
    "put_all (sshbuf_put_u8 0) [1, 2, 3] h3 = Some (0, h4)"
    by (auto simp: bind_eq_Some_conv simp del: put_all.simps)
  with sshbuf_integers_roundtrip [OF one_buf(1) singletonI one_buf(2) this] show ?thesis
    by (simp add: eval_nat_numeral del: put_all.simps get_all.simps)
qed

subsection \<open>Strings\<close>





subsection \<open>When a put is refused\<close>

text \<open>
  Claim C11: \<^verbatim>\<open>sshbuf_put\<close> appends or leaves everything alone. On a held buffer it returns 0 with the
  bytes behind the old data, or it returns a negative code with the old data; it succeeds
  whenever the buffer is writable and has no children, the data stays within \<^verbatim>\<open>max_size\<close> and
  memory can be allocated. In no case does it change another buffer.
\<close>

theorem sshbuf_put_appends:
  assumes h: "heap_ok hs h" "b \<in> hs" "sshbuf_data b h = Some d" "bufs h b = Some B"
    and v: "rd_len v (unat len) h = Some bs" "foreign b v h"
  shows "\<exists>r h'. sshbuf_put b v len h = Some (r, h') \<and> heap_ok hs h'
    \<and> (r = 0 \<and> sshbuf_data b h' = Some (d @ bs) \<or> r < 0 \<and> sshbuf_data b h' = Some d)
    \<and> (\<not> locked B \<and> length d + unat len \<le> unat (b_max_size B) \<and> (\<forall>n. malloc_ok h n) \<longrightarrow> r = 0)
    \<and> (\<forall>c. c \<noteq> b \<longrightarrow> sshbuf_data c h' = sshbuf_data c h)"
proof -
  obtain r h' where p: "sshbuf_put b v len h = Some (r, h')" "keeps hs b h h'"
    "sshbuf_data b h' = Some (if r = 0 then d @ bs else d)" "r \<le> 0" "r = 0 \<or> refused b (length bs) h"
    by (rule put_ok [OF h(1-3) v]) (rule that)
  have "length bs = unat len" using v(1) by (auto simp: rd_len_def rd_mem_def bind_eq_Some_conv split: if_splits)
  moreover have "length d = unat (b_size B) - unat (b_off B)" using data_length [OF h(1,4)] h(3) by auto
  ultimately have "\<not> locked B \<and> length d + unat len \<le> unat (b_max_size B) \<and> (\<forall>n. malloc_ok h n) \<longrightarrow> r = 0"
    using p(5) h(4) by (auto simp: refused_def)
  then show ?thesis
    using p(1,3,4) keeps_heap_ok [OF p(2)] keeps_data [OF p(2) h(1,2)] by (cases "r = 0") auto
qed

text \<open>A store with one buffer, and two bytes of the caller at address 7.\<close>

definition caller_heap :: heap where
  "caller_heap = \<lparr>mem = [1 \<mapsto> replicate 256 0, 7 \<mapsto> [5, 6]],
     bufs = [0 \<mapsto> \<lparr>b_d = Some (1, 0), b_cd = Some (1, 0), b_off = 0, b_size = 0, b_max_size = SSHBUF_SIZE_MAX,
       b_alloc = 256, b_readonly = False, b_refcount = 1, b_parent = None\<rparr>], fresh = 8, malloc_ok = \<lambda>_. True\<rparr>"

theorem sshbuf_put_appends_witness:
  "\<exists>h'. sshbuf_put 0 (Some (7, 0)) 2 caller_heap = Some (0, h') \<and> sshbuf_data 0 h' = Some [5, 6]"
proof -
  have "heap_ok {0} caller_heap"
    by (auto simp: heap_ok_def caller_heap_def buf_ok_def sane_def kids_def)
  moreover have "sshbuf_data 0 caller_heap = Some []" by code_simp
  moreover have "rd_len (Some (7, 0)) (unat (2 :: u64)) caller_heap = Some [5, 6]" by code_simp
  moreover have "foreign 0 (Some (7, 0)) caller_heap" by (simp add: foreign_def caller_heap_def blk_of_def)
  ultimately show ?thesis
    using sshbuf_put_appends [of "{0}" caller_heap 0 "[]" _ "Some (7, 0)" 2 "[5, 6]"]
    by (auto simp: caller_heap_def locked_def)
qed

subsection \<open>Resetting a buffer with a small limit\<close>

text \<open>
  Claim C12: \<^verbatim>\<open>sshbuf_reset\<close> breaks a buffer whose limit is below \<^verbatim>\<open>SSHBUF_SIZE_INIT\<close>. It brings the
  block to that size without regard to \<^verbatim>\<open>max_size\<close>, so that the next function that checks the
  buffer raises SIGSEGV. Such limits are accepted by \<^verbatim>\<open>sshbuf_set_max_size\<close>.
\<close>

theorem sshbuf_reset_small_limit:
  assumes ok: "heap_ok hs h" and b: "b \<in> hs" "bufs h b = Some B" and un: "\<not> locked B"
    and small: "b_max_size B < SSHBUF_SIZE_INIT" and m: "malloc_ok h (fresh h)"
  shows "\<exists>h'. sshbuf_reset b h = Some h' \<and> sshbuf_check_sanity b h' = None"
proof -
  have s: "sane B" "sshbuf_check_sanity b h = Some B"
    using heap_okD(1) [OF ok b(2)] b(2) by (simp_all add: buf_ok_def sshbuf_check_sanity_def)
  note u = unlocked [OF ok b un]
  obtain a blk where a: "b_cd B = Some (a, 0)" "mem h a = Some blk" "unat (b_alloc B) \<le> length blk"
    using sshbuf_data_some [OF ok b(2)] u(2) by (metis add_0)
  have d: "b_d B = Some (a, 0)" using sane_bounds(8) [OF s(1) u(2)] a(1) by simp
  have al: "b_alloc B \<noteq> SSHBUF_SIZE_INIT" using small sane_bounds(3) [OF s(1)] by (auto simp: word_less_nat_alt)
  define h1 where "h1 = set_buf b (B\<lparr>b_off := 0, b_size := 0\<rparr>) h"
  have h1: "mem h1 = mem h" "fresh h1 = fresh h" "malloc_ok h1 = malloc_ok h" "bufs h1 b = Some (B\<lparr>b_off := 0, b_size := 0\<rparr>)"
    by (simp_all add: h1_def set_buf_def)
  obtain q h2 where re: "recallocarray (Some (a, 0)) (unat (b_alloc B)) 256 h1 = Some (q, h2)" "bufs h2 = bufs h1"
    "q = None \<and> mem h2 = mem h1 \<and> \<not> malloc_ok h1 (fresh h1) \<or> (\<exists>a' blk'. q = Some (a', 0) \<and> mem h2 a' = Some blk' \<and> 256 \<le> length blk'
       \<and> take (min (unat (b_alloc B)) 256) blk' = take (min (unat (b_alloc B)) 256) blk
       \<and> (\<forall>x. x \<noteq> a \<longrightarrow> mem h1 x \<noteq> None \<longrightarrow> mem h2 x = mem h1 x) \<and> (a' = a \<or> mem h1 a' = None))"
    by (rule recallocarray_ok [of h1 a blk "unat (b_alloc B)" 256])
      (use a(2,3) heap_okD(8) [OF ok] h1 in \<open>simp_all add: that\<close>)
  then obtain a' blk' where n: "q = Some (a', 0)" "mem h2 a' = Some blk'" "256 \<le> length blk'" using m h1(2,3) by auto
  define h3 where "h3 = set_buf b (B\<lparr>b_off := 0, b_size := 0, b_cd := q, b_d := q, b_alloc := 256\<rparr>) h2"
  have g: "grow b 256 h1 = Some (0, h3)" using h1(4) re(1) d n(1) by (simp add: grow_def h3_def)
  have w: "wr_mem q (replicate 256 0) h3 = Some (h3\<lparr>mem := (mem h3)(a' \<mapsto> splice 0 (replicate 256 0) blk')\<rparr>)"
    using n by (simp add: wr_mem_eq h3_def set_buf_def)
  have "sshbuf_reset b h = Some (h3\<lparr>mem := (mem h3)(a' \<mapsto> splice 0 (replicate 256 0) blk')\<rparr>)"
    using b(2) un s(2) al g w by (simp add: sshbuf_reset_def h1_def [symmetric]) (simp add: h3_def)
  then show ?thesis using small by (simp add: sshbuf_check_sanity_def h3_def sane_def)
qed

theorem sshbuf_reset_small_limit_witness:
  "\<exists>h h'. sshbuf_set_max_size 0 100 one_buf = Some (0, h) \<and> sshbuf_reset 0 h = Some h' \<and> sshbuf_check_sanity 0 h' = None"
proof -
  have run: "map_option (\<lambda>(r, h). (r, malloc_ok h (fresh h), map_option (\<lambda>B. (locked B, b_max_size B)) (bufs h 0)))
      (sshbuf_set_max_size 0 100 one_buf) = Some (0, True, Some (False, 100))" by code_simp
  obtain B where "bufs one_buf 0 = Some B" using heap_okD(4) [OF one_buf(1)] by blast
  then obtain r h where h: "sshbuf_set_max_size 0 100 one_buf = Some (r, h)" "keeps {0} 0 one_buf h"
    using set_max_size_ok [OF one_buf(1), of 0 B 100] by blast
  with run obtain B' where "r = 0" "malloc_ok h (fresh h)" "bufs h 0 = Some B'" "\<not> locked B'" "b_max_size B' = 100" by auto
  with sshbuf_reset_small_limit [OF keeps_heap_ok [OF h(2)] singletonI this(3,4)] h(1) show ?thesis by auto
qed

end
