(* ===== verification/Bitmap.thy ===== *)
theory Bitmap
  imports Prelude "HOL-Library.Monad_Syntax"
begin

text \<open>
  Bit vectors, \<^verbatim>\<open>openssh/openssh/bitmap.c\<close>. A vector is an array of 32-bit words with the number
  of words and the index of the top word; \<open>None\<close> is an access outside the array. The outcome of
  an allocation is an argument. The vectors implement finite sets of numbers, and the functions
  that convert them to and from byte strings implement the big endian notation.
\<close>

subsection \<open>The functions of bitmap.c\<close>

record bitmap =
  bm_d :: "u32 list"
  bm_len :: nat
  bm_top :: nat

abbreviation (input) BITMAP_MAX :: nat where "BITMAP_MAX \<equiv> 16777216"
abbreviation (input) BITMAP_BITS :: nat where "BITMAP_BITS \<equiv> 32"
abbreviation (input) BITMAP_WMASK :: u32 where "BITMAP_WMASK \<equiv> 31"

definition bm_word :: "nat \<Rightarrow> bitmap \<Rightarrow> u32 option" where
  "bm_word i b = (if i < length (bm_d b) then Some (bm_d b ! i) else None)"

definition bm_update :: "nat \<Rightarrow> (u32 \<Rightarrow> u32) \<Rightarrow> bitmap \<Rightarrow> bitmap option" where
  "bm_update i f b = (if i < length (bm_d b) then Some (b\<lparr>bm_d := (bm_d b)[i := f (bm_d b ! i)]\<rparr>) else None)"

definition bitmap_new :: "bool \<Rightarrow> bool \<Rightarrow> bitmap option" where
  "bitmap_new ok1 ok2 = (if ok1 \<and> ok2 then Some \<lparr>bm_d = [0], bm_len = 1, bm_top = 0\<rparr> else None)"

definition bitmap_zero :: "bitmap \<Rightarrow> bitmap" where
  "bitmap_zero b = b\<lparr>bm_d := replicate (bm_len b) 0 @ drop (bm_len b) (bm_d b), bm_top := 0\<rparr>"

text \<open>\<^verbatim>\<open>bitmap_free\<close>: the words of the block that it hands back to the allocator.\<close>

definition bitmap_free :: "bitmap \<Rightarrow> u32 list" where
  "bitmap_free b = bm_d (bitmap_zero b)"

definition bitmap_test_bit :: "bitmap \<Rightarrow> u32 \<Rightarrow> bool option" where
  "bitmap_test_bit b n =
     (if bm_top b \<ge> bm_len b then Some False
      else if bm_len b = 0 \<or> unat n div BITMAP_BITS > bm_top b then Some False
      else do {w \<leftarrow> bm_word (unat n div BITMAP_BITS) b;
               Some (drop_bit (unat (n AND BITMAP_WMASK)) w AND 1 \<noteq> 0)})"

definition reserve :: "bool \<Rightarrow> bitmap \<Rightarrow> nat \<Rightarrow> int \<times> bitmap" where
  "reserve ok b n =
     (if bm_top b \<ge> bm_len b \<or> n > BITMAP_MAX then (- 1, b)
      else
        let nlen = n div BITMAP_BITS + 1
        in if bm_len b < nlen then
             if \<not> ok then (- 1, b)
             else (0, b\<lparr>bm_d := take (bm_len b) (bm_d b) @ replicate (nlen - bm_len b) 0, bm_len := nlen\<rparr>)
           else (0, b))"

definition bitmap_set_bit :: "bool \<Rightarrow> bitmap \<Rightarrow> u32 \<Rightarrow> (int \<times> bitmap) option" where
  "bitmap_set_bit ok b n =
     (case reserve ok b (unat n) of (r, b) \<Rightarrow>
        if r \<noteq> 0 then Some (r, b)
        else do {
          let offset = unat n div BITMAP_BITS;
          let b = (if offset > bm_top b then b\<lparr>bm_top := offset\<rparr> else b);
          b \<leftarrow> bm_update offset (\<lambda>w. w OR push_bit (unat (n AND BITMAP_WMASK)) 1) b;
          Some (0, b)})"

fun retop_loop :: "u32 list \<Rightarrow> nat \<Rightarrow> nat option" where
  "retop_loop d 0 = Some 0"
| "retop_loop d (Suc t) =
     (if Suc t < length d then if d ! Suc t = 0 then retop_loop d t else Some (Suc t) else None)"

definition retop :: "bitmap \<Rightarrow> bitmap option" where
  "retop b =
     (if bm_top b \<ge> bm_len b then Some b
      else do {t \<leftarrow> retop_loop (bm_d b) (bm_top b); Some (b\<lparr>bm_top := t\<rparr>)})"

definition bitmap_clear_bit :: "bitmap \<Rightarrow> u32 \<Rightarrow> bitmap option" where
  "bitmap_clear_bit b n =
     (if bm_top b \<ge> bm_len b \<or> unat n > BITMAP_MAX then Some b
      else
        let offset = unat n div BITMAP_BITS
        in if offset > bm_top b then Some b
           else do {b \<leftarrow> bm_update offset (\<lambda>w. w AND NOT (push_bit (unat (n AND BITMAP_WMASK)) 1)) b; retop b})"

text \<open>The loop that looks for the most significant bit does not end on the word 0.\<close>

partial_function (option) find_msb :: "u32 \<Rightarrow> nat \<Rightarrow> nat option" where
  "find_msb w bits = (if w AND push_bit (BITMAP_BITS - 1) 1 \<noteq> 0 then Some bits else find_msb (push_bit 1 w) (bits - 1))"

declare find_msb.simps [code]

definition bitmap_nbits :: "bitmap \<Rightarrow> (nat \<times> bitmap) option" where
  "bitmap_nbits b =
     do {b \<leftarrow> retop b;
         if bm_top b \<ge> bm_len b then Some (0, b)
         else do {
           w0 \<leftarrow> bm_word 0 b;
           if bm_len b = 0 \<or> bm_top b = 0 \<and> w0 = 0 then Some (0, b)
           else do {
             w \<leftarrow> bm_word (bm_top b) b;
             bits \<leftarrow> find_msb w ((bm_top b + 1) * BITMAP_BITS);
             Some (bits, b)}}}"







subsection \<open>The invariant and the set of bits\<close>

definition bm_ok :: "bitmap \<Rightarrow> bool" where
  "bm_ok b \<longleftrightarrow> bm_len b = length (bm_d b) \<and> bm_top b < bm_len b \<and> bm_len b \<le> BITMAP_MAX div BITMAP_BITS + 1
     \<and> (\<forall>i. bm_top b < i \<longrightarrow> i < bm_len b \<longrightarrow> bm_d b ! i = 0)"

definition bits_of :: "u32 list \<Rightarrow> nat set" where
  "bits_of d = {n. n div 32 < length d \<and> bit (d ! (n div 32)) (n mod 32)}"

definition bm_set :: "bitmap \<Rightarrow> nat set" where
  "bm_set b = bits_of (bm_d b)"

lemma bm_okD:
  assumes "bm_ok b"
  shows "bm_len b = length (bm_d b)" "bm_top b < length (bm_d b)" "bm_top b < bm_len b" "length (bm_d b) \<le> 524289"
    "\<And>i. bm_top b < i \<Longrightarrow> i < length (bm_d b) \<Longrightarrow> bm_d b ! i = 0"
  using assms by (auto simp: bm_ok_def)

lemma wmask: "unat (n AND BITMAP_WMASK) = unat n mod 32"
proof -
  have "n AND 31 = take_bit 5 n" by (simp add: take_bit_eq_mask mask_eq_exp_minus_1)
  then have "unat (n AND 31) = take_bit 5 (unat n)" by (simp only: unsigned_take_bit_eq)
  then show ?thesis by (simp add: take_bit_eq_mod)
qed

lemma test_bit_word: "drop_bit k (w :: u32) AND 1 \<noteq> 0 \<longleftrightarrow> bit w k"
  by (simp add: bit_iff_odd_drop_bit and_one_eq odd_iff_mod_2_eq_one)

lemma bits_of_update:
  assumes "i < length d"
  shows "bits_of (d[i := w]) = {n. (if n div 32 = i then bit w (n mod 32) else n \<in> bits_of d)}"
  using assms by (auto simp: bits_of_def nth_list_update)

lemma bits_of_grow: "bits_of (d @ replicate k 0) = bits_of d"
proof (rule set_eqI)
  fix n
  have "(d @ replicate k 0) ! (n div 32) = 0" if "length d \<le> n div 32" "n div 32 < length d + k"
    using that by (simp add: nth_append less_diff_conv2)
  then show "n \<in> bits_of (d @ replicate k 0) \<longleftrightarrow> n \<in> bits_of d"
    by (cases "n div 32 < length d") (auto simp: bits_of_def nth_append not_less)
qed

lemma bits_of_zero [simp]: "bits_of (replicate k 0) = {}"
  by (auto simp: bits_of_def)

lemma above_top:
  assumes "bm_ok b" "bm_top b < n div 32"
  shows "n \<notin> bm_set b"
  using bm_okD(5) [OF assms] by (auto simp: bm_set_def bits_of_def)

lemma bm_new_ok: "bitmap_new True True = Some b \<Longrightarrow> bm_ok b \<and> bm_set b = {}"
  by (auto simp: bitmap_new_def bm_ok_def bm_set_def bits_of_def)

lemma bm_zero_ok:
  assumes "bm_ok b"
  shows "bm_ok (bitmap_zero b)" "bm_set (bitmap_zero b) = {}" "bm_d (bitmap_zero b) = replicate (length (bm_d b)) 0"
proof -
  show d: "bm_d (bitmap_zero b) = replicate (length (bm_d b)) 0" using bm_okD(1) [OF assms] by (simp add: bitmap_zero_def)
  show "bm_set (bitmap_zero b) = {}" by (simp add: bm_set_def d)
  show "bm_ok (bitmap_zero b)" using bm_okD(1-4) [OF assms] by (auto simp: bm_ok_def d) (auto simp: bitmap_zero_def)
qed

lemma test_bit_ok:
  assumes "bm_ok b"
  shows "bitmap_test_bit b n = Some (unat n \<in> bm_set b)"
proof (cases "bm_top b < unat n div 32")
  case True
  then show ?thesis using above_top [OF assms True] bm_okD(3) [OF assms] by (simp add: bitmap_test_bit_def)
next
  case False
  then have "unat n div 32 < length (bm_d b)" using bm_okD(2) [OF assms] by simp
  then show ?thesis
    using False bm_okD(3) [OF assms] by (simp add: bitmap_test_bit_def bm_word_def bm_set_def bits_of_def wmask test_bit_word)
qed

lemma reserve_ok:
  assumes ok: "bm_ok b"
  obtains (no) "reserve m b n = (- 1, b)" "n > BITMAP_MAX \<or> \<not> m"
  | (yes) b' where "reserve m b n = (0, b')" "bm_ok b'" "bm_set b' = bm_set b" "n div 32 < length (bm_d b')" "n \<le> BITMAP_MAX"
proof -
  note o = bm_okD [OF ok]
  consider (big) "n > BITMAP_MAX" | (fits) "n \<le> BITMAP_MAX" "n div 32 < bm_len b"
    | (fail) "n \<le> BITMAP_MAX" "bm_len b \<le> n div 32" "\<not> m" | (grow) "n \<le> BITMAP_MAX" "bm_len b \<le> n div 32" "m" by linarith
  then show thesis
  proof cases
    case grow
    define b' where "b' = b\<lparr>bm_d := bm_d b @ replicate (n div 32 + 1 - bm_len b) 0, bm_len := n div 32 + 1\<rparr>"
    have "n div 32 \<le> 524288" using grow(1) by simp
    then have "bm_ok b'" using o grow(2) by (auto simp: bm_ok_def b'_def nth_append)
    moreover have "reserve m b n = (0, b')" using grow o by (simp add: reserve_def b'_def)
    moreover have "bm_set b' = bm_set b" by (simp add: bm_set_def b'_def bits_of_grow)
    ultimately show thesis using yes grow(1,2) o(1) by (simp add: b'_def)
  next
    case fits
    then show thesis using yes [of b] ok o by (simp add: reserve_def)
  qed (use no o in \<open>simp_all add: reserve_def\<close>)
qed

lemma set_bit_ok:
  assumes ok: "bm_ok b"
  obtains (no) "bitmap_set_bit m b n = Some (- 1, b)" "unat n > BITMAP_MAX \<or> \<not> m"
  | (yes) b' where "bitmap_set_bit m b n = Some (0, b')" "bm_ok b'" "bm_set b' = insert (unat n) (bm_set b)" "unat n \<le> BITMAP_MAX"
proof (rule reserve_ok [OF ok, of m "unat n"])
  assume "reserve m b (unat n) = (- 1, b)" "unat n > BITMAP_MAX \<or> \<not> m"
  then show thesis using no by (simp add: bitmap_set_bit_def)
next
  fix b1
  assume r: "reserve m b (unat n) = (0, b1)" "bm_ok b1" "bm_set b1 = bm_set b" "unat n div 32 < length (bm_d b1)" "unat n \<le> BITMAP_MAX"
  define i where "i = unat n div 32"
  define w where "w = bm_d b1 ! i OR push_bit (unat n mod 32) 1"
  define b2 where "b2 = b1\<lparr>bm_top := max i (bm_top b1), bm_d := (bm_d b1)[i := w]\<rparr>"
  have "bitmap_set_bit m b n = Some (0, b2)"
    using r(1,4) by (auto simp: bitmap_set_bit_def bm_update_def wmask b2_def w_def i_def max_def Let_def)
  moreover have "bm_ok b2"
    using bm_okD [OF r(2)] r(4) by (auto simp: bm_ok_def b2_def i_def)
  moreover have "bm_set b2 = insert (unat n) (bm_set b)"
  proof -
    have "bit w (k mod 32) \<longleftrightarrow> k \<in> bm_set b1 \<or> k = unat n" if "k div 32 = i" for k
    proof -
      have "k mod 32 = unat n mod 32 \<longleftrightarrow> k = unat n" using that unfolding i_def by (metis div_mult_mod_eq)
      then show ?thesis using that r(4) by (auto simp: w_def bm_set_def bits_of_def bit_simps i_def)
    qed
    then show ?thesis using r(3,4) by (auto simp: bm_set_def b2_def bits_of_update i_def split: if_splits)
  qed
  ultimately show thesis using yes r(5) by blast
qed

lemma retop_loop_ok:
  "t < length d \<Longrightarrow> \<exists>t'. retop_loop d t = Some t' \<and> t' \<le> t \<and> (\<forall>i. t' < i \<longrightarrow> i \<le> t \<longrightarrow> d ! i = 0) \<and> (t' = 0 \<or> d ! t' \<noteq> 0)"
proof (induction t)
  case (Suc t)
  show ?case
  proof (cases "d ! Suc t = 0")
    case True
    obtain t' where "retop_loop d t = Some t'" "t' \<le> t" "\<forall>i. t' < i \<longrightarrow> i \<le> t \<longrightarrow> d ! i = 0" "t' = 0 \<or> d ! t' \<noteq> 0"
      using Suc by auto
    then show ?thesis using True Suc.prems by (auto simp: le_Suc_eq)
  qed (use Suc.prems in auto)
qed simp

lemma retop_ok:
  assumes ok: "bm_len b = length (bm_d b)" "bm_top b < bm_len b" "bm_len b \<le> 524289"
    "\<And>i. bm_top b < i \<Longrightarrow> i < bm_len b \<Longrightarrow> bm_d b ! i = 0"
  obtains b' where "retop b = Some b'" "bm_ok b'" "bm_d b' = bm_d b" "bm_top b' = 0 \<or> bm_d b' ! bm_top b' \<noteq> 0"
proof -
  obtain t where t: "retop_loop (bm_d b) (bm_top b) = Some t" "t \<le> bm_top b"
    "\<And>i. t < i \<Longrightarrow> i \<le> bm_top b \<Longrightarrow> bm_d b ! i = 0" "t = 0 \<or> bm_d b ! t \<noteq> 0"
    using retop_loop_ok [of "bm_top b" "bm_d b"] ok(1,2) by auto
  have "bm_ok (b\<lparr>bm_top := t\<rparr>)" using ok t(2,3) by (auto simp: bm_ok_def) (meson not_le)
  then show thesis using that [of "b\<lparr>bm_top := t\<rparr>"] ok(2) t by (simp add: retop_def)
qed

lemma clear_bit_ok:
  assumes ok: "bm_ok b"
  obtains b' where "bitmap_clear_bit b n = Some b'" "bm_ok b'"
    "bm_set b' = (if unat n \<le> BITMAP_MAX then bm_set b - {unat n} else bm_set b)"
proof -
  note o = bm_okD [OF ok]
  define i where "i = unat n div 32"
  consider (big) "unat n > BITMAP_MAX" | (above) "unat n \<le> BITMAP_MAX" "bm_top b < i" | (clear) "unat n \<le> BITMAP_MAX" "i \<le> bm_top b"
    by linarith
  then show thesis
  proof cases
    case big
    then show thesis using that [of b] ok by (simp add: bitmap_clear_bit_def)
  next
    case above
    then show thesis using that [of b] ok o(3) above_top [OF ok, of "unat n"] by (simp add: bitmap_clear_bit_def i_def)
  next
    case clear
    define w where "w = bm_d b ! i AND NOT (push_bit (unat n mod 32) 1)"
    define b1 where "b1 = b\<lparr>bm_d := (bm_d b)[i := w]\<rparr>"
    have il: "i < length (bm_d b)" using clear o by simp
    obtain b2 where r: "retop b1 = Some b2" "bm_ok b2" "bm_d b2 = bm_d b1"
      by (rule retop_ok [of b1]) (use o clear il in \<open>auto simp: b1_def\<close>)
    have "bitmap_clear_bit b n = retop b1"
      using clear o(3) il by (simp add: bitmap_clear_bit_def bm_update_def wmask b1_def w_def i_def Let_def)
    moreover have "bm_set b1 = bm_set b - {unat n}"
    proof -
      have "bit w (k mod 32) \<longleftrightarrow> k \<in> bm_set b - {unat n}" if "k div 32 = i" for k
      proof -
        have "k mod 32 = unat n mod 32 \<longleftrightarrow> k = unat n" using that unfolding i_def by (metis div_mult_mod_eq)
        then show ?thesis using that il by (auto simp: w_def bm_set_def bits_of_def bit_simps i_def)
      qed
      then show ?thesis using il by (auto simp: bm_set_def b1_def bits_of_update i_def split: if_splits)
    qed
    ultimately show thesis using that [OF _ r(2)] r clear(1) by (simp add: bm_set_def)
  qed
qed

lemma find_msb_bit: "find_msb w bits = (if bit w 31 then Some bits else find_msb (push_bit 1 w) (bits - 1))"
proof -
  have "w AND push_bit 31 1 = 0 \<longleftrightarrow> \<not> bit w 31" by (simp only: push_bit_of_1 and_exp_eq_0_iff_not_bit)
  then show ?thesis by (subst find_msb.simps) simp
qed

lemma find_msb_ok:
  assumes "bit w m" "\<And>n. m < n \<Longrightarrow> \<not> bit w n"
  shows "find_msb w bits = Some (bits - (31 - m))"
proof -
  have "m < 32" using bit_imp_le_length [OF assms(1)] by simp
  then have "m \<le> 31" by simp
  then show ?thesis
    using assms
  proof (induction "31 - m" arbitrary: w m bits)
    case 0
    then have "m = 31" by simp
    then show ?case using 0 by (simp add: find_msb_bit)
  next
    case (Suc k)
    have "\<not> bit w 31" using Suc.hyps(2) Suc.prems(3) by simp
    moreover have "find_msb (push_bit 1 w) (bits - 1) = Some (bits - 1 - (31 - Suc m))"
    proof (rule Suc.hyps(1))
      have sh: "bit (push_bit 1 w) n \<longleftrightarrow> 1 \<le> n \<and> n < 32 \<and> bit w (n - 1)" for n
        unfolding bit_push_bit_iff by (simp add: possible_bit_word)
      show "bit (push_bit 1 w) (Suc m)" using Suc.hyps(2) Suc.prems(2) unfolding sh by simp
      show "\<not> bit (push_bit 1 w) n" if "Suc m < n" for n using Suc.prems(3) that unfolding sh by simp
    qed (use Suc.hyps(2) in simp_all)
    ultimately show ?case using Suc.hyps(2) by (subst find_msb_bit) simp
  qed
qed

lemma nbits_ok:
  assumes ok: "bm_ok b"
  obtains b' where "bitmap_nbits b = Some (if bm_set b = {} then 0 else Suc (Max (bm_set b)), b')" "bm_ok b'" "bm_d b' = bm_d b"
    "bm_set b = {} \<Longrightarrow> bm_top b' = 0" "bm_set b \<noteq> {} \<Longrightarrow> bm_top b' = Max (bm_set b) div 32"
proof -
  obtain b1 where r: "retop b = Some b1" "bm_ok b1" "bm_d b1 = bm_d b" "bm_top b1 = 0 \<or> bm_d b1 ! bm_top b1 \<noteq> 0"
    by (rule retop_ok [of b]) (use bm_okD [OF ok] in auto)
  note o = bm_okD [OF r(2)]
  have w0: "bm_word 0 b1 = Some (bm_d b1 ! 0)" "bm_word (bm_top b1) b1 = Some (bm_d b1 ! bm_top b1)" using o by (auto simp: bm_word_def)
  have set: "bm_set b1 = bm_set b" using r(3) by (simp add: bm_set_def)
  show thesis
  proof (cases "bm_d b1 ! bm_top b1 = 0")
    case True
    then have t: "bm_top b1 = 0" "bm_d b1 ! 0 = 0" using r(4) by auto
    then have "bm_d b1 ! i = 0" if "i < length (bm_d b1)" for i using o(5) [of i] that by (cases i) auto
    then have "bm_set b1 = {}" by (auto simp: bm_set_def bits_of_def)
    moreover have "bitmap_nbits b = Some (0, b1)" using r(1) o(3) w0 t by (simp add: bitmap_nbits_def)
    ultimately show thesis using that [of b1] r(2,3) set t by simp
  next
    case False
    define w where "w = bm_d b1 ! bm_top b1"
    have fin: "finite {n. bit w n}" by (rule finite_subset [of _ "{..<32}"]) (auto dest: bit_imp_le_length)
    have ne: "{n. bit w n} \<noteq> {}" using False by (auto simp: w_def bit_eq_iff)
    define m where "m = Max {n. bit w n}"
    have m: "bit w m" "\<And>n. m < n \<Longrightarrow> \<not> bit w n"
      using Max_in [OF fin ne] Max_ge [OF fin] by (auto simp: m_def) (meson mem_Collect_eq not_le Max_ge fin)
    have m32: "m < 32" using bit_imp_le_length [OF m(1)] by simp
    have top: "bm_top b1 * 32 + m \<in> bm_set b1" using m(1) m32 o(2) by (simp add: bm_set_def bits_of_def w_def)
    have le: "n \<le> bm_top b1 * 32 + m" if "n \<in> bm_set b1" for n
    proof -
      have "n div 32 \<le> bm_top b1" using above_top [OF r(2)] that by (meson not_le)
      moreover have "n mod 32 \<le> m" if "n div 32 = bm_top b1"
        using \<open>n \<in> bm_set b1\<close> that m(2) by (auto simp: bm_set_def bits_of_def w_def not_less [symmetric])
      moreover have "n = n div 32 * 32 + n mod 32" "n mod 32 < 32" by simp_all
      ultimately show ?thesis by (cases "n div 32 = bm_top b1") linarith+
    qed
    have fins: "finite (bm_set b1)" using le by (meson finite_nat_set_iff_bounded_le)
    have max: "Max (bm_set b1) = bm_top b1 * 32 + m" using Max_eqI [OF fins le top] .
    have "bitmap_nbits b = Some ((bm_top b1 + 1) * 32 - (31 - m), b1)"
      using r(1) o(3) w0 False find_msb_ok [OF m, of "(bm_top b1 + 1) * 32"] by (auto simp: bitmap_nbits_def w_def)
    moreover have "(bm_top b1 + 1) * 32 - (31 - m) = Suc (bm_top b1 * 32 + m)" using m32 by simp
    moreover have ne: "bm_set b \<noteq> {}" using top set by blast
    ultimately have "bitmap_nbits b = Some (if bm_set b = {} then 0 else Suc (Max (bm_set b)), b1)" using set max by simp
    moreover have "bm_top b1 = Max (bm_set b) div 32" using max m32 unfolding set by simp
    ultimately show thesis using that [OF _ r(2,3)] ne by blast
  qed
qed

subsection \<open>Byte strings\<close>











subsection \<open>Properties\<close>

text \<open>Operations in sequence; the flag of \<open>Bm_set\<close> is the outcome of the allocation if there is one.\<close>

datatype bm_op = Bm_set bool u32 | Bm_clear u32 | Bm_zero

fun bm_exec :: "bm_op \<Rightarrow> bitmap \<Rightarrow> (int \<times> bitmap) option" where
  "bm_exec (Bm_set ok n) b = bitmap_set_bit ok b n"
| "bm_exec (Bm_clear n) b = map_option (\<lambda>b. (0, b)) (bitmap_clear_bit b n)"
| "bm_exec Bm_zero b = Some (0, bitmap_zero b)"

fun bm_run :: "bm_op list \<Rightarrow> bitmap \<Rightarrow> (int list \<times> bitmap) option" where
  "bm_run [] b = Some ([], b)"
| "bm_run (op # ops) b = do {(r, b) \<leftarrow> bm_exec op b; (rs, b) \<leftarrow> bm_run ops b; Some (r # rs, b)}"

text \<open>The specification: a set of numbers up to \<^verbatim>\<open>BITMAP_MAX\<close>, and when an operation may fail.\<close>

fun set_op :: "bm_op \<Rightarrow> int \<Rightarrow> nat set \<Rightarrow> nat set" where
  "set_op (Bm_set ok n) r S = (if r = 0 then insert (unat n) S else S)"
| "set_op (Bm_clear n) r S = S - {unat n}"
| "set_op Bm_zero r S = {}"

fun set_reply :: "bm_op \<Rightarrow> int \<Rightarrow> bool" where
  "set_reply (Bm_set ok n) r = (if unat n > BITMAP_MAX then r = - 1 else r = 0 \<or> r = - 1 \<and> \<not> ok)"
| "set_reply (Bm_clear n) r = (r = 0)"
| "set_reply Bm_zero r = (r = 0)"

fun set_run :: "bm_op list \<Rightarrow> int list \<Rightarrow> nat set \<Rightarrow> nat set" where
  "set_run (op # ops) (r # rs) S = set_run ops rs (set_op op r S)"
| "set_run _ _ S = S"

lemma bm_set_le:
  assumes "bm_ok b" "bm_set b \<subseteq> {..BITMAP_MAX}"
  shows "\<exists>r b'. bm_exec op b = Some (r, b') \<and> bm_ok b' \<and> bm_set b' = set_op op r (bm_set b) \<and> set_reply op r \<and> bm_set b' \<subseteq> {..BITMAP_MAX}"
proof (cases op)
  case (Bm_set ok n)
  show ?thesis by (rule set_bit_ok [OF assms(1), of ok n]) (use Bm_set assms in auto)
next
  case (Bm_clear n)
  show ?thesis by (rule clear_bit_ok [OF assms(1), of n]) (use Bm_clear assms in \<open>auto split: if_splits\<close>)
next
  case Bm_zero
  then show ?thesis using bm_zero_ok [OF assms(1)] by simp
qed

lemma bm_run_ok:
  assumes "bm_ok b" "bm_set b \<subseteq> {..BITMAP_MAX}"
  shows "\<exists>rs b'. bm_run ops b = Some (rs, b') \<and> bm_ok b' \<and> bm_set b' = set_run ops rs (bm_set b) \<and> list_all2 set_reply ops rs"
  using assms
proof (induction ops arbitrary: b)
  case (Cons op ops)
  obtain r b1 where b1: "bm_exec op b = Some (r, b1)" "bm_ok b1" "bm_set b1 = set_op op r (bm_set b)" "set_reply op r"
    "bm_set b1 \<subseteq> {..BITMAP_MAX}" using bm_set_le [OF Cons.prems, of op] by blast
  obtain rs b2 where "bm_run ops b1 = Some (rs, b2)" "bm_ok b2" "bm_set b2 = set_run ops rs (bm_set b1)" "list_all2 set_reply ops rs"
    using Cons.IH [OF b1(2,5)] by blast
  with b1 show ?case by simp
qed simp

text \<open>
  Claim C24: bitmaps implement sets of numbers. After any sequence of \<^verbatim>\<open>bitmap_set_bit\<close>,
  \<^verbatim>\<open>bitmap_clear_bit\<close> and \<^verbatim>\<open>bitmap_zero\<close> on a new bitmap, \<^verbatim>\<open>bitmap_test_bit\<close> answers for every number
  whether it is in the set that the same operations build, and \<^verbatim>\<open>bitmap_nbits\<close> returns one more
  than the largest element; a set operation fails only above \<^verbatim>\<open>BITMAP_MAX\<close> or for lack of memory,
  and no access is outside the array.
\<close>

theorem bitmap_refines_set:
  assumes "bitmap_new True True = Some b0"
  shows "\<exists>rs b b'. bm_run ops b0 = Some (rs, b) \<and> list_all2 set_reply ops rs
    \<and> (\<forall>n. bitmap_test_bit b n = Some (unat n \<in> set_run ops rs {}))
    \<and> bitmap_nbits b = Some (if set_run ops rs {} = {} then 0 else Suc (Max (set_run ops rs {})), b')"
proof -
  have b0: "bm_ok b0" "bm_set b0 = {}" using bm_new_ok [OF assms] by simp_all
  then obtain rs b where r: "bm_run ops b0 = Some (rs, b)" "bm_ok b" "bm_set b = set_run ops rs {}" "list_all2 set_reply ops rs"
    using bm_run_ok [OF b0(1), of ops] by auto
  obtain b' where "bitmap_nbits b = Some (if bm_set b = {} then 0 else Suc (Max (bm_set b)), b')" by (rule nbits_ok [OF r(2)])
  then show ?thesis using r test_bit_ok [OF r(2)] by auto
qed

theorem bitmap_refines_set_witness:
  "\<exists>rs b b'. bm_run [Bm_set True 70, Bm_set True 3, Bm_clear 70] \<lparr>bm_d = [0], bm_len = 1, bm_top = 0\<rparr> = Some (rs, b)
     \<and> bitmap_nbits b = Some (if set_run [Bm_set True 70, Bm_set True 3, Bm_clear 70] rs {} = {} then 0
         else Suc (Max (set_run [Bm_set True 70, Bm_set True 3, Bm_clear 70] rs {})), b')"
proof -
  have "bitmap_new True True = Some \<lparr>bm_d = [0], bm_len = 1, bm_top = 0\<rparr>" by (simp add: bitmap_new_def)
  from bitmap_refines_set [OF this, of "[Bm_set True 70, Bm_set True 3, Bm_clear 70]"] show ?thesis by blast
qed



text \<open>
  Claim C26: \<^verbatim>\<open>bitmap_nbits\<close> returns. Its search for the most significant bit would run forever on the
  word 0, but on a valid bitmap it starts on a word that is not 0 and the function returns.
\<close>

theorem bitmap_nbits_returns:
  assumes "bm_ok b"
  shows "bitmap_nbits b \<noteq> None \<and> find_msb 0 n = None"
proof -
  have "w \<noteq> 0" if "find_msb w k = Some y" for w k y
  proof (rule find_msb.raw_induct [where P = "\<lambda>w k y. w \<noteq> 0", OF _ that])
    fix f w k y
    assume f: "\<And>w k y. f w k = Some y \<Longrightarrow> w \<noteq> 0"
      and eq: "(if w AND push_bit (32 - 1) 1 \<noteq> 0 then Some k else f (push_bit 1 w) (k - 1)) = Some y"
    show "w \<noteq> 0"
    proof
      assume "w = 0"
      then have "f 0 (k - 1) = Some y" using eq by simp
      then show False using f by blast
    qed
  qed
  then have "find_msb 0 n = None" by (metis not_Some_eq)
  moreover obtain b' where "bitmap_nbits b = Some (if bm_set b = {} then 0 else Suc (Max (bm_set b)), b')"
    by (rule nbits_ok [OF assms])
  ultimately show ?thesis by simp
qed

theorem bitmap_nbits_returns_witness:
  "bitmap_nbits \<lparr>bm_d = [0, 0], bm_len = 2, bm_top = 1\<rparr> \<noteq> None \<and> find_msb 0 64 = None"
  by (rule bitmap_nbits_returns) (auto simp: bm_ok_def less_Suc_eq)

end
