(* ===== verification/Match.thy ===== *)
theory Match
  imports Prelude "HOL-Library.Monad_Syntax"
begin

text \<open>
  Pattern and list matching, \<^verbatim>\<open>openssh/openssh/match.c\<close>, with the string functions of
  \<^verbatim>\<open>openbsd-compat\<close> and \<^verbatim>\<open>misc.c\<close> that it calls. A C string is the list of its characters
  without the terminator. Copies of strings are not modelled: \<^verbatim>\<open>xstrdup\<close> ends the program when it
  fails.
\<close>

subsection \<open>String functions\<close>

definition isupper :: "char \<Rightarrow> bool" where
  "isupper c \<longleftrightarrow> (65 :: nat) \<le> of_char c \<and> of_char c \<le> (90 :: nat)"

definition tolower :: "char \<Rightarrow> char" where
  "tolower c = (if isupper c then char_of (of_char c + 32 :: nat) else c)"

fun lowercase :: "string \<Rightarrow> string" where
  "lowercase [] = []"
| "lowercase (c # s) = tolower c # lowercase s"

text \<open>The token and what \<^verbatim>\<open>*stringp\<close> points to afterwards.\<close>

fun strsep_scan :: "string \<Rightarrow> string \<Rightarrow> string \<times> string option" where
  "strsep_scan [] delim = ([], None)"
| "strsep_scan (c # s) delim =
     (if c \<in> set delim then ([], Some s) else case strsep_scan s delim of (tok, r) \<Rightarrow> (c # tok, r))"

definition strsep :: "string option \<Rightarrow> string \<Rightarrow> string option \<times> string option" where
  "strsep stringp delim =
     (case stringp of None \<Rightarrow> (None, None) | Some s \<Rightarrow> (case strsep_scan s delim of (tok, r) \<Rightarrow> (Some tok, r)))"

definition strlcat :: "string \<Rightarrow> string \<Rightarrow> nat \<Rightarrow> string" where
  "strlcat dst src siz = (if siz \<le> length dst then dst else dst @ take (siz - length dst - 1) src)"

fun strchr :: "string \<Rightarrow> char \<Rightarrow> string option" where
  "strchr [] c = None"
| "strchr (x # s) c = (if x = c then Some (x # s) else strchr s c)"

subsection \<open>Patterns\<close>

text \<open>
  \<^verbatim>\<open>match_pattern\<close> and its two inner loops: \<open>find_char\<close> looks for the next character of the
  pattern, \<open>try_each\<close> tries every position before the end of the string.
\<close>

function (sequential) match_pattern :: "string \<Rightarrow> string \<Rightarrow> bool"
  and find_char :: "string \<Rightarrow> char \<Rightarrow> string \<Rightarrow> bool"
  and try_each :: "string \<Rightarrow> string \<Rightarrow> bool" where
  "match_pattern s [] = (s = [])"
| "match_pattern s (p # ps) =
     (if p = CHR ''*'' then
        (case ps of
           [] \<Rightarrow> True
         | q # qs \<Rightarrow> if q \<noteq> CHR ''?'' \<and> q \<noteq> CHR ''*'' then find_char s q qs else try_each s ps)
      else
        (case s of
           [] \<Rightarrow> False
         | c # cs \<Rightarrow> if p \<noteq> CHR ''?'' \<and> p \<noteq> c then False else match_pattern cs ps))"
| "find_char [] q qs = False"
| "find_char (c # cs) q qs = (c = q \<and> match_pattern cs qs \<or> find_char cs q qs)"
| "try_each [] ps = False"
| "try_each (c # cs) ps = (match_pattern (c # cs) ps \<or> try_each cs ps)"
  by pat_completeness auto
termination
  by (relation "measures [\<lambda>x. case x of Inl (s, p) \<Rightarrow> 2 * length p | Inr (Inl (s, q, qs)) \<Rightarrow> 2 * length qs + 1
      | Inr (Inr (s, ps)) \<Rightarrow> 2 * length ps + 1,
    \<lambda>x. case x of Inl (s, p) \<Rightarrow> length s | Inr (Inl (s, q, qs)) \<Rightarrow> length s | Inr (Inr (s, ps)) \<Rightarrow> length s]") auto

text \<open>A subpattern of at most 1022 characters; longer ones end the match.\<close>

definition sub_char :: "bool \<Rightarrow> char \<Rightarrow> char" where
  "sub_char dolower c = (if dolower \<and> isupper c then tolower c else c)"

fun get_sub :: "nat \<Rightarrow> bool \<Rightarrow> string \<Rightarrow> string \<times> string" where
  "get_sub room dolower [] = ([], [])"
| "get_sub room dolower (c # pat) =
     (if room > 0 \<and> c \<noteq> CHR '','' then
        (case get_sub (room - 1) dolower pat of (sub, rest) \<Rightarrow> (sub_char dolower c # sub, rest))
      else ([], c # pat))"

lemma get_sub_length: "get_sub n l pat = (sub, rest) \<Longrightarrow> length rest \<le> length pat"
proof (induction pat arbitrary: n sub)
  case (Cons c pat)
  show ?case
  proof (cases "n > 0 \<and> c \<noteq> CHR '',''")
    case True
    obtain sub' where "get_sub (n - 1) l pat = (sub', rest)" using Cons.prems True by (auto split: prod.splits)
    then show ?thesis using Cons.IH by (simp add: le_SucI)
  qed (use Cons.prems in auto)
qed simp

text \<open>What the loop over the subpatterns skips.\<close>

definition skip_comma :: "string \<Rightarrow> string" where
  "skip_comma rest = (if rest \<noteq> [] \<and> hd rest = CHR '','' then tl rest else rest)"

definition skip_bang :: "string \<Rightarrow> string" where
  "skip_bang pat = (if hd pat = CHR ''!'' then tl pat else pat)"

lemma get_sub_progress:
  assumes "(sub, rest) = get_sub 1023 l (skip_bang pat)" "pat \<noteq> []"
  shows "length (skip_comma rest) < length pat"
proof (cases pat)
  case (Cons c ps)
  have sk: "length (skip_comma rest) \<le> length rest" by (simp add: skip_comma_def)
  show ?thesis
  proof (cases "c = CHR ''!''")
    case True
    then have "length rest \<le> length ps" using get_sub_length [OF assms(1) [symmetric]] Cons by (simp add: skip_bang_def)
    with sk Cons show ?thesis by simp
  next
    case False
    show ?thesis
    proof (cases "c = CHR '',''")
      case True
      then have "rest = pat" using assms(1) Cons by (simp add: skip_bang_def)
      then show ?thesis using True Cons by (simp add: skip_comma_def)
    next
      case False
      then obtain sub' where "get_sub 1022 l ps = (sub', rest)" using assms(1) Cons \<open>c \<noteq> CHR ''!''\<close>
        by (auto simp: skip_bang_def split: prod.splits)
      then show ?thesis using get_sub_length sk Cons by fastforce
    qed
  qed
qed (use assms in simp)

function match_list_loop :: "string \<Rightarrow> string \<Rightarrow> bool \<Rightarrow> int \<Rightarrow> int" where
  "match_list_loop str pat dolower got_positive =
     (if pat = [] then got_positive
      else
        case get_sub 1023 dolower (skip_bang pat) of (sub, rest) \<Rightarrow>
          if length sub \<ge> 1023 then 0
          else if match_pattern str sub then
            if hd pat = CHR ''!'' then - 1 else match_list_loop str (skip_comma rest) dolower 1
          else match_list_loop str (skip_comma rest) dolower got_positive)"
  by pat_completeness auto
termination
  by (relation "measure (\<lambda>(str, pat, dolower, got). length pat)") (auto dest: get_sub_progress)

declare match_list_loop.simps [simp del]

definition match_pattern_list :: "string \<Rightarrow> string \<Rightarrow> bool \<Rightarrow> int" where
  "match_pattern_list str pat dolower = match_list_loop str pat dolower 0"

definition match_hostname :: "string \<Rightarrow> string \<Rightarrow> int" where
  "match_hostname host pat = match_pattern_list (lowercase host) pat True"

subsection \<open>Lists of names\<close>

text \<open>The tokens of a list before the first empty one, at most \<open>room\<close> of them.\<close>

abbreviation (input) SEP :: string where "SEP \<equiv> '',''"
abbreviation (input) MAX_PROP :: nat where "MAX_PROP \<equiv> 40"

lemma strsep_scan_length: "strsep_scan s d = (tok, Some r) \<Longrightarrow> length r < length s"
proof (induction s arbitrary: tok)
  case (Cons c s)
  then show ?case by (auto split: if_splits prod.splits)
qed simp

lemma strsep_length: "(tok, Some r) = strsep (Some s) d \<Longrightarrow> length r < length s"
  by (auto simp: strsep_def split: prod.splits dest: strsep_scan_length)

function proposals :: "nat \<Rightarrow> string option \<Rightarrow> string list" where
  "proposals room sp =
     (case strsep sp SEP of
        (Some p, sp') \<Rightarrow>
          if p \<noteq> [] \<and> room > 0 then (case sp' of None \<Rightarrow> [p] | Some s \<Rightarrow> p # proposals (room - 1) (Some s)) else []
      | (None, sp') \<Rightarrow> [])"
  by pat_completeness auto
termination
  by (relation "measure fst") auto

declare proposals.simps [simp del]

text \<open>The loop over the client's list; the second result is \<^verbatim>\<open>*next\<close>, an offset into that list.\<close>

function match_loop :: "string list \<Rightarrow> string \<Rightarrow> string \<Rightarrow> string option \<times> nat" where
  "match_loop props c cp =
     (case strsep (Some cp) SEP of
        (Some p, cp') \<Rightarrow>
          if p = [] then (None, length c)
          else if p \<in> set props then (Some p, case cp' of None \<Rightarrow> length c | Some r \<Rightarrow> length c - length r)
          else (case cp' of None \<Rightarrow> (None, length c) | Some r \<Rightarrow> match_loop props c r)
      | (None, cp') \<Rightarrow> (None, length c))"
  by pat_completeness auto
termination
  by (relation "measure (\<lambda>(props, c, cp). length cp)") (auto dest: strsep_length)

declare match_loop.simps [simp del]

definition match_list :: "string \<Rightarrow> string \<Rightarrow> string option \<times> nat" where
  "match_list client server = match_loop (proposals MAX_PROP (Some server)) client client"

function filter_loop :: "string \<Rightarrow> bool \<Rightarrow> nat \<Rightarrow> string \<Rightarrow> string \<Rightarrow> string" where
  "filter_loop filt blacklist len tmp fix_prop =
     (case strsep (Some tmp) SEP of
        (Some cp, tmp') \<Rightarrow>
          let r = match_pattern_list cp filt False;
              fix_prop = (if blacklist \<and> r \<noteq> 1 \<or> \<not> blacklist \<and> r = 1 then
                  strlcat (if fix_prop \<noteq> [] then strlcat fix_prop SEP len else fix_prop) cp len
                else fix_prop)
          in (case tmp' of None \<Rightarrow> fix_prop | Some t \<Rightarrow> filter_loop filt blacklist len t fix_prop)
      | (None, tmp') \<Rightarrow> fix_prop)"
  by pat_completeness auto
termination
  by (relation "measure (\<lambda>(f, b, len, tmp, fp). length tmp)") (auto dest: strsep_length)

declare filter_loop.simps [simp del]

text \<open>The arguments \<open>m1\<close> and \<open>m2\<close> are the outcomes of the two allocations.\<close>

definition filter_list :: "bool \<Rightarrow> bool \<Rightarrow> string \<Rightarrow> string \<Rightarrow> bool \<Rightarrow> string option" where
  "filter_list m1 m2 proposal filt blacklist =
     (if \<not> m1 \<or> \<not> m2 then None
      else Some (filter_loop filt blacklist (length proposal + 1) proposal []))"

definition match_filter_blacklist :: "bool \<Rightarrow> bool \<Rightarrow> string \<Rightarrow> string \<Rightarrow> string option" where
  "match_filter_blacklist m1 m2 proposal filt = filter_list m1 m2 proposal filt True"

definition match_filter_whitelist :: "bool \<Rightarrow> bool \<Rightarrow> string \<Rightarrow> string \<Rightarrow> string option" where
  "match_filter_whitelist m1 m2 proposal filt = filter_list m1 m2 proposal filt False"

subsection \<open>What a pattern means\<close>

fun glob :: "string \<Rightarrow> string \<Rightarrow> bool" where
  "glob s [] = (s = [])"
| "glob s (p # ps) =
     (if p = CHR ''*'' then \<exists>k \<le> length s. glob (drop k s) ps
      else (case s of [] \<Rightarrow> False | c # cs \<Rightarrow> (p = CHR ''?'' \<or> p = c) \<and> glob cs ps))"

fun no_star_star :: "string \<Rightarrow> bool" where
  "no_star_star (a # b # r) = (\<not> (a = CHR ''*'' \<and> b = CHR ''*'') \<and> no_star_star (b # r))"
| "no_star_star _ = True"

lemma find_char_iff: "find_char s q qs \<longleftrightarrow> (\<exists>k < length s. s ! k = q \<and> match_pattern (drop (Suc k) s) qs)"
proof (induction s)
  case (Cons c s)
  have "(\<exists>k < length (c # s). P k) \<longleftrightarrow> P 0 \<or> (\<exists>k < length s. P (Suc k))" for P by (auto simp: less_Suc_eq_0_disj)
  then show ?case using Cons by simp
qed simp

lemma try_each_iff: "try_each s ps \<longleftrightarrow> (\<exists>k < length s. match_pattern (drop k s) ps)"
proof (induction s)
  case (Cons c s)
  have "(\<exists>k < length (c # s). P k) \<longleftrightarrow> P 0 \<or> (\<exists>k < length s. P (Suc k))" for P by (auto simp: less_Suc_eq_0_disj)
  then show ?case using Cons by simp
qed simp

lemma glob_at:
  assumes "q \<noteq> CHR ''*''"
  shows "glob (drop k s) (q # qs) \<longleftrightarrow> k < length s \<and> (q = CHR ''?'' \<or> s ! k = q) \<and> glob (drop (Suc k) s) qs"
proof (cases "k < length s")
  case True
  then have "drop k s = s ! k # drop (Suc k) s" by (rule Cons_nth_drop_Suc [symmetric])
  then show ?thesis using assms True by auto
qed (use assms in simp)

text \<open>What follows an asterisk, for the code and for the meaning of the pattern.\<close>

lemma match_star:
  "q \<noteq> CHR ''?'' \<Longrightarrow> q \<noteq> CHR ''*'' \<Longrightarrow>
     match_pattern s (CHR ''*'' # q # qs) \<longleftrightarrow> (\<exists>k < length s. s ! k = q \<and> match_pattern (drop (Suc k) s) qs)"
  "q = CHR ''?'' \<or> q = CHR ''*'' \<Longrightarrow>
     match_pattern s (CHR ''*'' # q # qs) \<longleftrightarrow> (\<exists>k < length s. match_pattern (drop k s) (q # qs))"
  by (simp add: find_char_iff) (auto simp: try_each_iff simp del: match_pattern.simps(2) simp: match_pattern.simps(2) [of s])

lemma glob_star_iff: "glob s (CHR ''*'' # ps) \<longleftrightarrow> (\<exists>k \<le> length s. glob (drop k s) ps)"
  by simp

lemma glob_star:
  "q \<noteq> CHR ''*'' \<Longrightarrow> q \<noteq> CHR ''?'' \<Longrightarrow>
     glob s (CHR ''*'' # q # qs) \<longleftrightarrow> (\<exists>k < length s. s ! k = q \<and> glob (drop (Suc k) s) qs)"
  "q \<noteq> CHR ''*'' \<Longrightarrow> glob s (CHR ''*'' # q # qs) \<longleftrightarrow> (\<exists>k < length s. glob (drop k s) (q # qs))"
proof -
  assume q: "q \<noteq> CHR ''*''"
  have e: "glob s (CHR ''*'' # q # qs) \<longleftrightarrow> (\<exists>k \<le> length s. glob (drop k s) (q # qs))" by (rule glob_star_iff)
  show two: "glob s (CHR ''*'' # q # qs) \<longleftrightarrow> (\<exists>k < length s. glob (drop k s) (q # qs))"
    unfolding e glob_at [OF q] using less_imp_le by blast
  show "glob s (CHR ''*'' # q # qs) \<longleftrightarrow> (\<exists>k < length s. s ! k = q \<and> glob (drop (Suc k) s) qs)" if "q \<noteq> CHR ''?''"
    unfolding two glob_at [OF q] using that by blast
qed

lemma match_glob:
  "(match_pattern s pat \<longrightarrow> glob s pat) \<and> (no_star_star pat \<longrightarrow> match_pattern s pat = glob s pat)"
proof (induction "length pat" arbitrary: s pat rule: less_induct)
  case less
  show ?case
  proof (cases pat)
    case (Cons p ps)
    have pss: "(match_pattern t ps \<longrightarrow> glob t ps) \<and> (no_star_star ps \<longrightarrow> match_pattern t ps = glob t ps)" for t
      using less [of ps t] Cons by simp
    have nss: "no_star_star pat \<Longrightarrow> no_star_star ps" using Cons by (cases ps) auto
    show ?thesis
    proof (cases "p = CHR ''*'' \<and> ps \<noteq> []")
      case False
      then show ?thesis using pss nss Cons by (auto split: list.split)
    next
      case True
      then obtain q qs where ps: "ps = q # qs" and pat: "pat = CHR ''*'' # q # qs" using Cons by (cases ps) auto
      have qs: "(match_pattern t qs \<longrightarrow> glob t qs) \<and> (no_star_star qs \<longrightarrow> match_pattern t qs = glob t qs)" for t
        using less [of qs t] Cons ps by simp
      have ns: "no_star_star pat \<Longrightarrow> no_star_star qs" using nss ps by (cases qs) auto
      consider (plain) "q \<noteq> CHR ''?''" "q \<noteq> CHR ''*''" | (any) "q = CHR ''?''" "q \<noteq> CHR ''*''" | (star) "q = CHR ''*''" by auto
      then show ?thesis
      proof cases
        case plain
        show ?thesis unfolding pat match_star(1) [OF plain] glob_star(1) [OF plain(2,1)] using qs ns pat by blast
      next
        case any
        show ?thesis
          unfolding pat match_star(2) [OF disjI1 [OF any(1)]] glob_star(2) [OF any(2)] using pss nss unfolding pat ps by blast
      next
        case star
        have "glob s pat \<longleftrightarrow> (\<exists>k \<le> length s. glob (drop k s) ps)" unfolding pat ps by (rule glob_star_iff)
        moreover have "match_pattern s pat \<longleftrightarrow> (\<exists>k < length s. match_pattern (drop k s) ps)"
          unfolding pat ps by (rule match_star(2) [OF disjI2 [OF star]])
        moreover have "\<not> no_star_star pat" using pat star by simp
        ultimately show ?thesis using pss less_imp_le by blast
      qed
    qed
  qed simp
qed

text \<open>
  Claim C27: \<^verbatim>\<open>match_pattern\<close> and wildcards. Whatever it accepts matches the pattern, with \<^verbatim>\<open>?\<close> for one
  character and \<^verbatim>\<open>*\<close> for any number of characters; and if the pattern has no two adjacent
  asterisks, it accepts exactly these strings.
\<close>

theorem match_pattern_glob:
  "(match_pattern s pat \<longrightarrow> glob s pat) \<and> (no_star_star pat \<longrightarrow> match_pattern s pat = glob s pat)"
  by (rule match_glob)

theorem match_pattern_glob_witness:
  "match_pattern ''ssh.example.com'' ''*.example.???'' \<and> glob ''ssh.example.com'' ''*.example.???''"
  using match_pattern_glob [of "''ssh.example.com''" "''*.example.???''"] by code_simp

text \<open>
  Claim C33: adjacent asterisks do not match the end of a string. For any string without an asterisk or question mark,
  \<^verbatim>\<open>match_pattern\<close> rejects the string followed by two asterisks, although the pattern with one
  asterisk accepts it and an asterisk may stand for no characters.
\<close>

theorem match_pattern_double_star:
  assumes "CHR ''*'' \<notin> set s" "CHR ''?'' \<notin> set s"
  shows "\<not> match_pattern s (s @ ''**'') \<and> match_pattern s (s @ ''*'') \<and> glob s (s @ ''**'')"
  using assms by (induction s) auto

theorem match_pattern_double_star_witness:
  "\<not> match_pattern ''host'' (''host'' @ ''**'') \<and> match_pattern ''host'' (''host'' @ ''*'')"
  using match_pattern_double_star [of "''host''"] by simp

subsection \<open>What a list of patterns means\<close>

lemma get_sub_take:
  "get_sub n l pat = (map (sub_char l) (take n (takeWhile (\<lambda>c. c \<noteq> CHR '','') pat)),
     drop (length (take n (takeWhile (\<lambda>c. c \<noteq> CHR '','') pat))) pat)"
proof (induction pat arbitrary: n)
  case (Cons c pat)
  then show ?case by (cases n) auto
qed simp

lemma drop_takeWhile: "drop (length (takeWhile P xs)) xs = dropWhile P xs"
  by (induction xs) auto

text \<open>The entries of a list; a comma at its end starts no entry.\<close>

function entries :: "string \<Rightarrow> string list" where
  "entries [] = []"
| "entries (c # pat) =
     takeWhile (\<lambda>c. c \<noteq> CHR '','') (c # pat) # entries (drop 1 (dropWhile (\<lambda>c. c \<noteq> CHR '','') (c # pat)))"
  by pat_completeness auto
termination
proof (relation "measure length")
  show "(drop 1 (dropWhile (\<lambda>c. c \<noteq> CHR '','') (c # pat)), c # pat) \<in> measure length" for c pat
    using length_dropWhile_le [of "\<lambda>c. c \<noteq> CHR '',''" "c # pat"] by (simp add: less_Suc_eq_le)
qed simp

declare entries.simps(2) [simp del]

text \<open>An entry that matches, with its sign.\<close>

definition entry_sub :: "bool \<Rightarrow> string \<Rightarrow> string" where
  "entry_sub dolower e = map (sub_char dolower) (if e \<noteq> [] \<and> hd e = CHR ''!'' then tl e else e)"

definition negated :: "string \<Rightarrow> bool" where
  "negated e \<longleftrightarrow> e \<noteq> [] \<and> hd e = CHR ''!''"

definition hits :: "string \<Rightarrow> bool \<Rightarrow> string \<Rightarrow> bool" where
  "hits str dolower e \<longleftrightarrow> match_pattern str (entry_sub dolower e)"

lemma entry_step:
  assumes "pat \<noteq> []" "length (entry_sub l (takeWhile (\<lambda>c. c \<noteq> CHR '','') pat)) < 1023"
  shows "get_sub 1023 l (skip_bang pat) = (entry_sub l (takeWhile (\<lambda>c. c \<noteq> CHR '','') pat), dropWhile (\<lambda>c. c \<noteq> CHR '','') pat)"
    "hd pat = CHR ''!'' \<longleftrightarrow> negated (takeWhile (\<lambda>c. c \<noteq> CHR '','') pat)"
    "skip_comma (dropWhile (\<lambda>c. c \<noteq> CHR '','') pat) = drop 1 (dropWhile (\<lambda>c. c \<noteq> CHR '','') pat)"
proof -
  obtain c ps where pat: "pat = c # ps" using assms(1) by (cases pat) auto
  have e: "takeWhile (\<lambda>c. c \<noteq> CHR '','') (skip_bang pat) =
      (let e = takeWhile (\<lambda>c. c \<noteq> CHR '','') pat in if e \<noteq> [] \<and> hd e = CHR ''!'' then tl e else e)"
    "dropWhile (\<lambda>c. c \<noteq> CHR '','') (skip_bang pat) = dropWhile (\<lambda>c. c \<noteq> CHR '','') pat"
    by (auto simp: pat skip_bang_def)
  then have "take 1023 (takeWhile (\<lambda>c. c \<noteq> CHR '','') (skip_bang pat)) = takeWhile (\<lambda>c. c \<noteq> CHR '','') (skip_bang pat)"
    using assms(2) by (simp add: entry_sub_def Let_def)
  then show "get_sub 1023 l (skip_bang pat) = (entry_sub l (takeWhile (\<lambda>c. c \<noteq> CHR '','') pat), dropWhile (\<lambda>c. c \<noteq> CHR '','') pat)"
    by (simp only: get_sub_take drop_takeWhile) (simp only: e entry_sub_def Let_def)
  show "hd pat = CHR ''!'' \<longleftrightarrow> negated (takeWhile (\<lambda>c. c \<noteq> CHR '','') pat)" by (auto simp: pat negated_def)
  show "skip_comma (dropWhile (\<lambda>c. c \<noteq> CHR '','') pat) = drop 1 (dropWhile (\<lambda>c. c \<noteq> CHR '','') pat)"
  proof (cases "dropWhile (\<lambda>c. c \<noteq> CHR '','') pat")
    case (Cons x xs)
    then have "x = CHR '',''" using hd_dropWhile [of "\<lambda>c. c \<noteq> CHR '',''" pat] by simp
    then show ?thesis using Cons by (simp add: skip_comma_def)
  next
    case Nil
    then show ?thesis by (simp only: skip_comma_def) simp
  qed
qed

lemma match_list_loop_spec:
  assumes "\<forall>e \<in> set (entries pat). length (entry_sub l e) < 1023"
  shows "match_list_loop str pat l g =
    (if \<exists>e \<in> set (entries pat). negated e \<and> hits str l e then - 1
     else if \<exists>e \<in> set (entries pat). \<not> negated e \<and> hits str l e then 1 else g)"
  using assms
proof (induction pat arbitrary: g rule: entries.induct)
  case 1
  then show ?case by (simp add: match_list_loop.simps)
next
  case (2 c pat)
  define e where "e = takeWhile (\<lambda>c. c \<noteq> CHR '','') (c # pat)"
  define rest where "rest = drop 1 (dropWhile (\<lambda>c. c \<noteq> CHR '','') (c # pat))"
  have en: "entries (c # pat) = e # entries rest" unfolding e_def rest_def by (rule entries.simps(2))
  have el: "length (entry_sub l e) < 1023" using 2(2) en by simp
  note st = entry_step [OF list.distinct(2), of l c pat, folded e_def rest_def, OF el]
  define N where "N \<longleftrightarrow> (\<exists>e \<in> set (entries rest). negated e \<and> hits str l e)"
  define P where "P \<longleftrightarrow> (\<exists>e \<in> set (entries rest). \<not> negated e \<and> hits str l e)"
  have IH: "match_list_loop str rest l g = (if N then - 1 else if P then 1 else g)" for g
    unfolding N_def P_def using 2(1) [folded rest_def] 2(2) en by simp
  have "match_list_loop str (c # pat) l g =
      (if hits str l e then if negated e then - 1 else match_list_loop str rest l 1
       else match_list_loop str rest l g)"
    using el by (simp only: match_list_loop.simps [of str "c # pat"] st prod.case hits_def) simp
  moreover have "(\<exists>e \<in> set (entries (c # pat)). negated e \<and> hits str l e) \<longleftrightarrow> negated e \<and> hits str l e \<or> N"
    "(\<exists>e \<in> set (entries (c # pat)). \<not> negated e \<and> hits str l e) \<longleftrightarrow> \<not> negated e \<and> hits str l e \<or> P"
    by (simp_all add: en N_def P_def)
  ultimately show ?case by (simp only: IH) (cases "hits str l e"; cases "negated e"; cases N; cases P; simp)
qed

text \<open>
  Claim C28: a list of patterns. For a list whose entries are shorter than the buffer for one entry,
  \<^verbatim>\<open>match_pattern_list\<close> returns -1 if an entry with an exclamation mark matches, wherever it stands
  in the list; otherwise 1 if another entry matches, and otherwise 0.
\<close>

theorem match_pattern_list_spec:
  assumes "\<forall>e \<in> set (entries pat). length (entry_sub dolower e) < 1023"
  shows "match_pattern_list str pat dolower =
    (if \<exists>e \<in> set (entries pat). negated e \<and> hits str dolower e then - 1
     else if \<exists>e \<in> set (entries pat). \<not> negated e \<and> hits str dolower e then 1 else 0)"
  unfolding match_pattern_list_def by (rule match_list_loop_spec [OF assms])

theorem match_pattern_list_spec_witness:
  "match_pattern_list ''www.example.com'' ''*.com,!www.*'' True = - 1"
proof -
  have "\<forall>e \<in> set (entries ''*.com,!www.*''). length (entry_sub True e) < 1023"
    "\<exists>e \<in> set (entries ''*.com,!www.*''). negated e \<and> hits ''www.example.com'' True e" by code_simp+
  then show ?thesis using match_pattern_list_spec [of "''*.com,!www.*''" True "''www.example.com''"] by simp
qed

subsection \<open>What a list of names means\<close>

fun split_on :: "char \<Rightarrow> string \<Rightarrow> string list" where
  "split_on d [] = [[]]"
| "split_on d (c # s) = (if c = d then [] # split_on d s else (case split_on d s of t # ts \<Rightarrow> (c # t) # ts | [] \<Rightarrow> []))"

lemma split_on_not_Nil [simp]: "split_on d s \<noteq> []"
  by (induction s) (auto split: list.split)

lemma split_on_scan:
  "split_on d s = (case strsep_scan s [d] of (t, None) \<Rightarrow> [t] | (t, Some r) \<Rightarrow> t # split_on d r)"
  by (induction s) (auto split: prod.splits option.splits)

lemma split_on_strsep:
  obtains (one) t where "strsep (Some s) SEP = (Some t, None)" "split_on CHR '','' s = [t]" "s = t"
  | (more_) t r where "strsep (Some s) SEP = (Some t, Some r)" "split_on CHR '','' s = t # split_on CHR '','' r" "s = t @ CHR '','' # r"
proof -
  have "s = t \<and> q = None \<or> (\<exists>r. q = Some r \<and> s = t @ CHR '','' # r)" if "strsep_scan s SEP = (t, q)" for t q
    using that by (induction s arbitrary: t) (auto split: prod.splits if_splits)
  moreover obtain t q where tq: "strsep_scan s SEP = (t, q)" by fastforce
  ultimately have e: "s = t \<and> q = None \<or> (\<exists>r. q = Some r \<and> s = t @ CHR '','' # r)" by blast
  have sp: "strsep (Some s) SEP = (Some t, q)" "split_on CHR '','' s = (case q of None \<Rightarrow> [t] | Some r \<Rightarrow> t # split_on CHR '','' r)"
    using tq split_on_scan [of "CHR '',''" s] by (simp_all add: strsep_def)
  show thesis
  proof (cases q)
    case None
    show thesis by (rule one [of t]) (use e sp None in auto)
  next
    case (Some r)
    show thesis by (rule more_ [of t r]) (use e sp Some in auto)
  qed
qed

lemma proposals_spec: "proposals n (Some s) = take n (takeWhile (\<lambda>t. t \<noteq> []) (split_on CHR '','' s))"
proof (induction n arbitrary: s)
  case 0
  show ?case by (rule split_on_strsep [of s]) (simp_all add: proposals.simps)
next
  case (Suc n)
  show ?case by (rule split_on_strsep [of s]) (simp_all add: proposals.simps [of "Suc n"] Suc)
qed

lemma match_loop_spec:
  "fst (match_loop props c cp) = List.find (\<lambda>p. p \<in> set props) (takeWhile (\<lambda>t. t \<noteq> []) (split_on CHR '','' cp))"
proof (induction cp rule: length_induct)
  case (1 cp)
  show ?case
  proof (rule split_on_strsep [of cp])
    fix t
    assume st: "strsep (Some cp) SEP = (Some t, None)" "split_on CHR '','' cp = [t]"
    show ?thesis unfolding match_loop.simps [of props c cp] st by simp
  next
    fix t r
    assume st: "strsep (Some cp) SEP = (Some t, Some r)" "split_on CHR '','' cp = t # split_on CHR '','' r" "cp = t @ CHR '','' # r"
    have "fst (match_loop props c r) = List.find (\<lambda>p. p \<in> set props) (takeWhile (\<lambda>t. t \<noteq> []) (split_on CHR '','' r))"
      using 1 st(3) by simp
    then show ?thesis unfolding match_loop.simps [of props c cp] st(1,2) by simp
  qed
qed

lemma match_loop_next:
  assumes "match_loop props c cp = (Some p, n)" "c = pre @ cp"
  shows "\<exists>pre. c = pre @ p \<and> n = length c \<or> c = pre @ p @ CHR '','' # drop n c"
  using assms
proof (induction cp arbitrary: pre rule: length_induct)
  case (1 cp)
  show ?case
  proof (rule split_on_strsep [of cp])
    fix t
    assume st: "strsep (Some cp) SEP = (Some t, None)" "cp = t"
    have "p = t" "n = length c" using 1(2) unfolding match_loop.simps [of props c cp] st(1) by (auto split: if_splits)
    then show ?thesis using 1(3) st(2) by blast
  next
    fix t r
    assume st: "strsep (Some cp) SEP = (Some t, Some r)" "cp = t @ CHR '','' # r"
    note m = 1(2) [unfolded match_loop.simps [of props c cp] st(1)]
    show ?thesis
    proof (cases "t \<in> set props")
      case True
      then have "p = t" "n = length c - length r" using m by (auto split: if_splits)
      then have "c = pre @ p @ CHR '','' # drop n c" using 1(3) st(2) by simp
      then show ?thesis by blast
    next
      case False
      then have "match_loop props c r = (Some p, n)" using m by (auto split: if_splits)
      moreover have "c = (pre @ t @ '','') @ r" "length r < length cp" using 1(3) st(2) by simp_all
      ultimately show ?thesis using 1(1) by blast
    qed
  qed
qed

text \<open>
  Claim C29: the negotiation of algorithms. \<^verbatim>\<open>match_list\<close> returns the first name of the client's list
  that is among the first \<^verbatim>\<open>MAX_PROP\<close> names of the server's list, where a list ends at its first
  empty name, and NULL if there is none; and \<^verbatim>\<open>*next\<close> is the offset of what follows the name in
  the client's list.
\<close>

theorem match_list_spec:
  assumes "match_list client server = (r, n)"
  shows "r = List.find (\<lambda>p. p \<in> set (take MAX_PROP (takeWhile (\<lambda>t. t \<noteq> []) (split_on CHR '','' server))))
      (takeWhile (\<lambda>t. t \<noteq> []) (split_on CHR '','' client))
    \<and> (\<forall>p. r = Some p \<longrightarrow> (\<exists>pre. client = pre @ p \<and> n = length client \<or> client = pre @ p @ CHR '','' # drop n client))"
proof
  show "r = List.find (\<lambda>p. p \<in> set (take MAX_PROP (takeWhile (\<lambda>t. t \<noteq> []) (split_on CHR '','' server))))
      (takeWhile (\<lambda>t. t \<noteq> []) (split_on CHR '','' client))"
    using assms match_loop_spec [of "proposals 40 (Some server)" client client] by (simp add: match_list_def proposals_spec)
  show "\<forall>p. r = Some p \<longrightarrow> (\<exists>pre. client = pre @ p \<and> n = length client \<or> client = pre @ p @ CHR '','' # drop n client)"
    using assms match_loop_next [of "proposals 40 (Some server)" client client _ n "[]"] by (simp add: match_list_def)
qed

theorem match_list_spec_witness:
  "match_list ''aes,chacha,none'' ''chacha,aes'' = (Some ''aes'', 4) \<and> drop 4 ''aes,chacha,none'' = ''chacha,none''"
proof -
  have m: "match_list ''aes,chacha,none'' ''chacha,aes'' = (Some ''aes'', 4)" by code_simp
  from match_list_spec [OF m] m show ?thesis by simp
qed

definition keeps_name :: "string \<Rightarrow> bool \<Rightarrow> string \<Rightarrow> bool" where
  "keeps_name filt blacklist t = (if blacklist then match_pattern_list t filt False \<noteq> 1 else match_pattern_list t filt False = 1)"

definition join_name :: "string \<Rightarrow> string \<Rightarrow> string" where
  "join_name acc t = (if acc = [] then t else acc @ '','' @ t)"

lemma filter_step:
  assumes "(if fp = [] then 0 else length fp + 1) + length cp < len"
  shows "strlcat (if fp \<noteq> [] then strlcat fp SEP len else fp) cp len = join_name fp cp"
  using assms by (cases "fp = []") (simp_all add: strlcat_def join_name_def)

lemma filter_loop_spec:
  assumes "(if fp = [] then 0 else length fp + 1) + length tmp < len"
  shows "filter_loop filt bl len tmp fp = foldl join_name fp (filter (keeps_name filt bl) (split_on CHR '','' tmp))"
  using assms
proof (induction tmp arbitrary: fp rule: length_induct)
  case (1 tmp)
  show ?case
  proof (rule split_on_strsep [of tmp])
    fix t
    assume st: "strsep (Some tmp) SEP = (Some t, None)" "split_on CHR '','' tmp = [t]" "tmp = t"
    have "strlcat (if fp \<noteq> [] then strlcat fp SEP len else fp) t len = join_name fp t"
      using 1(2) st(3) by (intro filter_step) simp
    then show ?thesis unfolding filter_loop.simps [of filt bl len tmp] st(1,2)
      by (simp add: keeps_name_def Let_def)
  next
    fix t r
    assume st: "strsep (Some tmp) SEP = (Some t, Some r)" "split_on CHR '','' tmp = t # split_on CHR '','' r" "tmp = t @ CHR '','' # r"
    have e: "strlcat (if fp \<noteq> [] then strlcat fp SEP len else fp) t len = join_name fp t"
      using 1(2) st(3) by (intro filter_step) (simp split: if_splits)
    have IH: "filter_loop filt bl len r fp' = foldl join_name fp' (filter (keeps_name filt bl) (split_on CHR '','' r))"
      if "fp' = fp \<or> fp' = join_name fp t" for fp'
    proof -
      have "(if fp' = [] then 0 else length fp' + 1) + length r < len" "length r < length tmp"
        using 1(2) st(3) that by (auto simp: join_name_def split: if_splits)
      then show ?thesis using 1(1) by blast
    qed
    have "filter_loop filt bl len tmp fp = filter_loop filt bl len r (if keeps_name filt bl t then join_name fp t else fp)"
      unfolding filter_loop.simps [of filt bl len tmp] st(1) prod.case option.case e
      by (simp add: keeps_name_def Let_def)
    then show ?thesis unfolding st(2) by (simp add: IH)
  qed
qed

text \<open>
  Claim C30: filtering a proposal. With memory available, \<^verbatim>\<open>match_filter_blacklist\<close> returns the names of
  the proposal that no positive entry of the filter decides, and \<^verbatim>\<open>match_filter_whitelist\<close> those that
  one does, in their order and separated by commas; the buffer of the size of the proposal
  truncates nothing.
\<close>

theorem match_filter_spec:
  "match_filter_blacklist True True proposal filt
     = Some (foldl join_name [] (filter (\<lambda>t. match_pattern_list t filt False \<noteq> 1) (split_on CHR '','' proposal)))
   \<and> match_filter_whitelist True True proposal filt
     = Some (foldl join_name [] (filter (\<lambda>t. match_pattern_list t filt False = 1) (split_on CHR '','' proposal)))"
  by (simp add: match_filter_blacklist_def match_filter_whitelist_def filter_list_def filter_loop_spec keeps_name_def [abs_def])

end
