(* ===== verification/Addrmatch.thy ===== *)
theory Addrmatch
  imports Match
begin

text \<open>
  Matching of network addresses, \<^verbatim>\<open>openssh/openssh/addrmatch.c\<close>, and the functions of \<^verbatim>\<open>match.c\<close>
  that use it. The words of an address are given by their value, that is after \<^verbatim>\<open>ntohl\<close>. What
  \<^verbatim>\<open>getaddrinfo\<close> makes of a numeric address is the parameter \<open>gai\<close>, which returns the family and the
  words of the first result, or \<open>None\<close>. Allocations succeed.
\<close>

subsection \<open>Addresses\<close>

datatype sa_family = AF_INET | AF_INET6 | AF_OTHER

record xaddr =
  af :: sa_family
  addr32 :: "u32 list"
  scope_id :: u32

text \<open>
  A socket address: its family and the words of the address. The configuration for Windows,
  \<^verbatim>\<open>win32/config.h.vs\<close>, has no scope in it, so \<^verbatim>\<open>scope_id\<close> stays 0.
\<close>

type_synonym sockaddr = "sa_family \<times> u32 list"

definition zero_xaddr :: xaddr where
  "zero_xaddr = \<lparr>af = AF_OTHER, addr32 = [0, 0, 0, 0], scope_id = 0\<rparr>"

definition v4 :: "xaddr \<Rightarrow> u32" where
  "v4 a = addr32 a ! 0"

definition set_v4 :: "u32 \<Rightarrow> xaddr \<Rightarrow> xaddr" where
  "set_v4 w a = a\<lparr>addr32 := (addr32 a)[0 := w]\<rparr>"

definition addr_unicast_masklen :: "sa_family \<Rightarrow> int" where
  "addr_unicast_masklen f = (case f of AF_INET \<Rightarrow> 32 | AF_INET6 \<Rightarrow> 128 | AF_OTHER \<Rightarrow> - 1)"

definition masklen_valid :: "sa_family \<Rightarrow> nat \<Rightarrow> int" where
  "masklen_valid f masklen =
     (case f of AF_INET \<Rightarrow> if masklen \<le> 32 then 0 else - 1 | AF_INET6 \<Rightarrow> if masklen \<le> 128 then 0 else - 1 | AF_OTHER \<Rightarrow> - 1)"

definition addr_sa_to_xaddr :: "sockaddr \<Rightarrow> xaddr option" where
  "addr_sa_to_xaddr sa =
     (case sa of (f, ws) \<Rightarrow>
        case f of
          AF_INET \<Rightarrow> Some (set_v4 (hd ws) (zero_xaddr\<lparr>af := AF_INET\<rparr>))
        | AF_INET6 \<Rightarrow> Some (zero_xaddr\<lparr>af := AF_INET6, addr32 := take 4 ws\<rparr>)
        | AF_OTHER \<Rightarrow> None)"

text \<open>The words of an IPv6 mask from word \<open>i\<close> on.\<close>

fun mask_words :: "nat \<Rightarrow> nat \<Rightarrow> u32 list" where
  "mask_words 0 l = []"
| "mask_words (Suc n) l =
     (if l \<ge> 32 then 0xffffffff # mask_words n (l - 32)
      else (if l \<noteq> 0 then push_bit (32 - l) 0xffffffff AND 0xffffffff else 0) # replicate n 0)"

definition addr_netmask :: "sa_family \<Rightarrow> nat \<Rightarrow> xaddr option" where
  "addr_netmask f l =
     (if masklen_valid f l \<noteq> 0 then None
      else case f of
        AF_INET \<Rightarrow>
          let n = zero_xaddr\<lparr>af := AF_INET\<rparr>
          in Some (if l = 0 then n else set_v4 (push_bit (32 - l) 0xffffffff AND 0xffffffff) n)
      | AF_INET6 \<Rightarrow> Some (zero_xaddr\<lparr>af := AF_INET6, addr32 := mask_words 4 l\<rparr>)
      | AF_OTHER \<Rightarrow> None)"

definition addr_and :: "xaddr \<Rightarrow> xaddr \<Rightarrow> xaddr option" where
  "addr_and a b =
     (if af a \<noteq> af b then None
      else case af a of
        AF_INET \<Rightarrow> Some (set_v4 (v4 a AND v4 b) a)
      | AF_INET6 \<Rightarrow> Some (a\<lparr>addr32 := map2 (AND) (addr32 a) (addr32 b)\<rparr>)
      | AF_OTHER \<Rightarrow> None)"

text \<open>The bytes of an address in network order.\<close>

definition addr8 :: "xaddr \<Rightarrow> byte list" where
  "addr8 a = concat (map (\<lambda>w. map (\<lambda>n. ucast (drop_bit n w)) [24, 16, 8, 0]) (addr32 a))"

fun bytes_cmp :: "byte list \<Rightarrow> byte list \<Rightarrow> int" where
  "bytes_cmp (x # xs) (y # ys) = (if x \<noteq> y then if x > y then 1 else - 1 else bytes_cmp xs ys)"
| "bytes_cmp _ _ = 0"

definition addr_cmp :: "xaddr \<Rightarrow> xaddr \<Rightarrow> int" where
  "addr_cmp a b =
     (if af a \<noteq> af b then if af a = AF_INET6 then 1 else - 1
      else case af a of
        AF_INET \<Rightarrow> if v4 a = v4 b then 0 else if v4 a > v4 b then 1 else - 1
      | AF_INET6 \<Rightarrow>
          if bytes_cmp (addr8 a) (addr8 b) \<noteq> 0 then bytes_cmp (addr8 a) (addr8 b)
          else if scope_id a = scope_id b then 0
          else if scope_id a > scope_id b then 1 else - 1
      | AF_OTHER \<Rightarrow> - 1)"

definition addr_pton :: "(string \<Rightarrow> sockaddr option) \<Rightarrow> string \<Rightarrow> xaddr option" where
  "addr_pton gai p = do {sa \<leftarrow> gai p; addr_sa_to_xaddr sa}"

definition addr_invert :: "xaddr \<Rightarrow> xaddr option" where
  "addr_invert n =
     (case af n of
        AF_INET \<Rightarrow> Some (set_v4 (NOT (v4 n)) n)
      | AF_INET6 \<Rightarrow> Some (n\<lparr>addr32 := map NOT (addr32 n)\<rparr>)
      | AF_OTHER \<Rightarrow> None)"

definition addr_hostmask :: "sa_family \<Rightarrow> nat \<Rightarrow> xaddr option" where
  "addr_hostmask f l = do {n \<leftarrow> addr_netmask f l; addr_invert n}"

definition addr_is_all0s :: "xaddr \<Rightarrow> int" where
  "addr_is_all0s a =
     (case af a of
        AF_INET \<Rightarrow> if v4 a = 0 then 0 else - 1
      | AF_INET6 \<Rightarrow> if list_all (\<lambda>w. w = 0) (addr32 a) then 0 else - 1
      | AF_OTHER \<Rightarrow> - 1)"

definition addr_host_is_all0s :: "xaddr \<Rightarrow> nat \<Rightarrow> int" where
  "addr_host_is_all0s a masklen =
     (case addr_hostmask (af a) masklen of
        None \<Rightarrow> - 1
      | Some tmp_mask \<Rightarrow> (case addr_and a tmp_mask of None \<Rightarrow> - 1 | Some tmp_result \<Rightarrow> addr_is_all0s tmp_result))"

subsection \<open>Networks\<close>

text \<open>
  \<^verbatim>\<open>strtoul\<close> with base 10 on the text behind the slash, \<open>None\<close> when it does not reach the end of
  it: white space, a sign and digits; the value saturates and a minus sign negates it.
\<close>

definition isspace :: "char \<Rightarrow> bool" where
  "isspace c \<longleftrightarrow> c = CHR '' '' \<or> (9 :: nat) \<le> of_char c \<and> of_char c \<le> (13 :: nat)"

definition isdigit :: "char \<Rightarrow> bool" where
  "isdigit c \<longleftrightarrow> (48 :: nat) \<le> of_char c \<and> of_char c \<le> (57 :: nat)"

definition digits_val :: "string \<Rightarrow> int" where
  "digits_val s = foldl (\<lambda>v c. 10 * v + (of_char c - 48)) 0 s"

definition strtoul :: "string \<Rightarrow> int option" where
  "strtoul s =
     (let t = dropWhile isspace s;
          neg = (t \<noteq> [] \<and> hd t = CHR ''-'');
          d = (if t \<noteq> [] \<and> (hd t = CHR ''-'' \<or> hd t = CHR ''+'') then tl t else t)
      in if d = [] \<or> \<not> list_all isdigit d then None
         else if digits_val d > 4294967295 then Some 4294967295
         else if neg then Some (uint (- of_int (digits_val d) :: u32)) else Some (digits_val d))"

text \<open>The negative codes are on the left.\<close>

definition addr_pton_cidr :: "(string \<Rightarrow> sockaddr option) \<Rightarrow> string \<Rightarrow> int + (xaddr \<times> nat)" where
  "addr_pton_cidr gai p =
     (if length p \<ge> 64 then Inl (- 1)
      else
        let addrbuf = takeWhile (\<lambda>c. c \<noteq> CHR ''/'') p;
            ml = (case strchr p CHR ''/'' of None \<Rightarrow> Some 999 | Some mp \<Rightarrow> (case strtoul (tl mp) of None \<Rightarrow> None | Some n \<Rightarrow> if n > 128 then None else Some (nat n)))
        in case ml of
             None \<Rightarrow> Inl (- 1)
           | Some m \<Rightarrow>
               (case addr_pton gai addrbuf of
                  None \<Rightarrow> Inl (- 1)
                | Some tmp \<Rightarrow>
                    let masklen = (if strchr p CHR ''/'' = None then nat (addr_unicast_masklen (af tmp)) else m)
                    in if masklen_valid (af tmp) masklen = - 1 then Inl (- 2)
                       else if addr_host_is_all0s tmp masklen \<noteq> 0 then Inl (- 2)
                       else Inr (tmp, masklen)))"

definition addr_netmatch :: "xaddr \<Rightarrow> xaddr \<Rightarrow> nat \<Rightarrow> int" where
  "addr_netmatch host net masklen =
     (if af host \<noteq> af net then - 1
      else case addr_netmask (af host) masklen of
        None \<Rightarrow> - 1
      | Some tmp_mask \<Rightarrow> (case addr_and host tmp_mask of None \<Rightarrow> - 1 | Some tmp_result \<Rightarrow> addr_cmp tmp_result net))"

text \<open>One entry of a list: \<open>None\<close> for an invalid one, otherwise whether it matches.\<close>

definition entry_match :: "(string \<Rightarrow> sockaddr option) \<Rightarrow> (string \<times> xaddr) option \<Rightarrow> string \<Rightarrow> bool option" where
  "entry_match gai addr cp =
     (if cp = [] then None
      else case addr_pton_cidr gai cp of
        Inl r \<Rightarrow>
          if r = - 2 then None
          else Some (case addr of None \<Rightarrow> False | Some (s, _) \<Rightarrow> match_pattern s cp)
      | Inr (match_addr, masklen) \<Rightarrow>
          Some (case addr of None \<Rightarrow> False | Some (_, try_addr) \<Rightarrow> addr_netmatch try_addr match_addr masklen = 0))"

fun addr_list_loop :: "(string \<Rightarrow> sockaddr option) \<Rightarrow> (string \<times> xaddr) option \<Rightarrow> string list \<Rightarrow> int \<Rightarrow> int" where
  "addr_list_loop gai addr [] ret = ret"
| "addr_list_loop gai addr (tok # toks) ret =
     (let neg = (tok \<noteq> [] \<and> hd tok = CHR ''!''); cp = (if neg then tl tok else tok)
      in case entry_match gai addr cp of
           None \<Rightarrow> - 2
         | Some m \<Rightarrow> if m then if neg then - 1 else addr_list_loop gai addr toks 1 else addr_list_loop gai addr toks ret)"

text \<open>The tokens that successive calls of \<^verbatim>\<open>strsep\<close> return.\<close>

function tokens :: "string \<Rightarrow> string list" where
  "tokens s = (case strsep (Some s) SEP of
     (Some t, None) \<Rightarrow> [t] | (Some t, Some r) \<Rightarrow> t # tokens r | (None, _) \<Rightarrow> [])"
  by pat_completeness auto
termination
  by (relation "measure length") (auto dest: strsep_length)

declare tokens.simps [simp del]

lemma tokens_split: "tokens s = split_on CHR '','' s"
proof (induction s rule: length_induct)
  case (1 s)
  show ?case
  proof (rule split_on_strsep [of s])
    fix t r
    assume st: "strsep (Some s) SEP = (Some t, Some r)" "split_on CHR '','' s = t # split_on CHR '','' r" "s = t @ CHR '','' # r"
    then have "tokens r = split_on CHR '','' r" using 1 by simp
    then show ?thesis unfolding tokens.simps [of s] st(1,2) by simp
  next
    fix t
    assume "strsep (Some s) SEP = (Some t, None)" "split_on CHR '','' s = [t]"
    then show ?thesis unfolding tokens.simps [of s] by (simp only:) simp
  qed
qed

definition addr_match_list :: "(string \<Rightarrow> sockaddr option) \<Rightarrow> string option \<Rightarrow> string \<Rightarrow> int" where
  "addr_match_list gai addr list =
     (case addr of
        None \<Rightarrow> addr_list_loop gai None (tokens list) 0
      | Some s \<Rightarrow>
          (case addr_pton gai s of None \<Rightarrow> 0 | Some try_addr \<Rightarrow> addr_list_loop gai (Some (s, try_addr)) (tokens list) 0))"




subsection \<open>Hosts and users (match.c)\<close>

definition match_host_and_ip :: "(string \<Rightarrow> sockaddr option) \<Rightarrow> string option \<Rightarrow> string option \<Rightarrow> string \<Rightarrow> int" where
  "match_host_and_ip gai host ipaddr patterns =
     (let mip = addr_match_list gai ipaddr patterns
      in if mip = - 2 then - 1
         else case (host, ipaddr) of
           (Some h, Some _) \<Rightarrow>
             if mip = - 1 then 0
             else
               let mhost = match_hostname h patterns
               in if mhost = - 1 then 0 else if mhost = 0 \<and> mip = 0 then 0 else 1
         | _ \<Rightarrow> 0)"

text \<open>\<open>None\<close> when a NULL user is matched outside of test mode.\<close>

definition match_user :: "(string \<Rightarrow> sockaddr option) \<Rightarrow> string option \<Rightarrow> string option \<Rightarrow> string option \<Rightarrow> string \<Rightarrow> int option" where
  "match_user gai user host ipaddr pat =
     (if user = None \<and> host = None \<and> ipaddr = None then
        (case strchr pat CHR ''@'' of
           Some p \<Rightarrow> if match_host_and_ip gai None None (tl p) < 0 then Some (- 1) else Some 0
         | None \<Rightarrow> Some 0)
      else do {
        u \<leftarrow> user;
        (case strchr pat CHR ''@'' of
           None \<Rightarrow> Some (if match_pattern u pat then 1 else 0)
         | Some p \<Rightarrow>
             if match_pattern u (takeWhile (\<lambda>c. c \<noteq> CHR ''@'') pat) then Some (match_host_and_ip gai host ipaddr (tl p)) else Some 0)})"

subsection \<open>What a network match means\<close>

definition xaddr_ok :: "xaddr \<Rightarrow> bool" where
  "xaddr_ok a \<longleftrightarrow> af a \<noteq> AF_OTHER \<and> length (addr32 a) = 4 \<and> scope_id a = 0"

text \<open>Bit \<open>i\<close> of an address, counted from its most significant bit.\<close>

definition abit :: "xaddr \<Rightarrow> nat \<Rightarrow> bool" where
  "abit a i = bit (addr32 a ! (i div 32)) (31 - i mod 32)"

definition mask_of :: "nat \<Rightarrow> u32" where
  "mask_of l = (if l \<noteq> 0 then push_bit (32 - l) 0xffffffff AND 0xffffffff else 0)"

lemma all_ones_bit: "bit (0xffffffff :: u32) j \<longleftrightarrow> j < 32"
proof -
  have f: "(0xffffffff :: u32) = mask 32" by (simp add: mask_eq_exp_minus_1)
  show ?thesis unfolding f bit_mask_iff by (simp add: possible_bit_word)
qed

lemma mask_of_bit:
  assumes "l \<le> 32" "j < 32"
  shows "bit (mask_of l) j \<longleftrightarrow> 31 - j < l"
proof (cases "l = 0")
  case False
  then have "bit (mask_of l) j \<longleftrightarrow> 32 - l \<le> j"
    using assms(2) unfolding mask_of_def if_P [OF False] bit_and_iff bit_push_bit_iff all_ones_bit by (auto simp: possible_bit_word)
  then show ?thesis using assms False by auto
qed (simp add: mask_of_def)

lemma mask_words_bit:
  assumes "k < n" "j < 32" "l \<le> 32 * n"
  shows "bit (mask_words n l ! k) j \<longleftrightarrow> 32 * k + (31 - j) < l"
  using assms
proof (induction n l arbitrary: k rule: mask_words.induct)
  case (2 n l)
  show ?case
  proof (cases "l \<ge> 32")
    case True
    then have e: "mask_words (Suc n) l = 0xffffffff # mask_words n (l - 32)" by simp
    show ?thesis
    proof (cases k)
      case 0
      then show ?thesis unfolding e 0 nth_Cons_0 all_ones_bit using 2(3) True by simp
    next
      case (Suc k')
      have "bit (mask_words n (l - 32) ! k') j \<longleftrightarrow> 32 * k' + (31 - j) < l - 32" using 2 True Suc by auto
      then show ?thesis unfolding e using Suc True by auto
    qed
  next
    case False
    then have e: "mask_words (Suc n) l = mask_of l # replicate n 0" by (simp add: mask_of_def)
    show ?thesis
    proof (cases k)
      case 0
      then show ?thesis unfolding e using mask_of_bit [of l j] False 2(3) by simp
    next
      case (Suc k')
      then show ?thesis unfolding e using False 2(2) by simp
    qed
  qed
qed simp

lemma and_mask_eq:
  assumes "(n :: u32) AND NOT m = 0"
  shows "w AND m = n \<longleftrightarrow> (\<forall>j < 32. bit m j \<longrightarrow> bit w j = bit n j)"
proof -
  have "bit n j \<Longrightarrow> bit m j" if "j < 32" for j
    using assms that by (auto simp: bit_eq_iff bit_simps)
  then show ?thesis by (auto simp: bit_eq_iff bit_simps)
qed

lemma bytes_cmp_eq: "length xs = length ys \<Longrightarrow> bytes_cmp xs ys = 0 \<longleftrightarrow> xs = ys"
  by (induction xs ys rule: list_induct2) auto

lemma word_bytes_eq:
  "map (\<lambda>n. ucast (drop_bit n w) :: byte) [24, 16, 8, 0] = map (\<lambda>n. ucast (drop_bit n v)) [24, 16, 8, 0] \<longleftrightarrow> (w :: u32) = v"
proof
  assume e: "map (\<lambda>n. ucast (drop_bit n w) :: byte) [24, 16, 8, 0] = map (\<lambda>n. ucast (drop_bit n v)) [24, 16, 8, 0]"
  show "w = v"
  proof (rule bit_word_eqI)
    fix j
    assume "j < LENGTH(32)"
    then have "j div 8 * 8 \<in> set [24, 16, 8, 0]" by simp presburger
    then have "(ucast (drop_bit (j div 8 * 8) w) :: byte) = ucast (drop_bit (j div 8 * 8) v)" using e by auto
    then have "bit (ucast (drop_bit (j div 8 * 8) w) :: byte) (j mod 8) = bit (ucast (drop_bit (j div 8 * 8) v) :: byte) (j mod 8)"
      by simp
    then show "bit w j = bit v j" by (simp only: bit_ucast_iff bit_drop_bit_eq comp_def) simp
  qed
qed simp

lemma addr8_eq:
  assumes "length (addr32 a) = length (addr32 b)"
  shows "addr8 a = addr8 b \<longleftrightarrow> addr32 a = addr32 b"
proof
  have "concat (map (\<lambda>w. map (\<lambda>n. ucast (drop_bit n w)) [24, 16, 8, 0]) ws)
      = concat (map (\<lambda>w. map (\<lambda>n. ucast (drop_bit n w) :: byte) [24, 16, 8, 0]) vs) \<Longrightarrow> ws = vs" if "length ws = length vs" for ws vs :: "u32 list"
    using that
  proof (induction ws vs rule: list_induct2)
    case (Cons w ws v vs)
    then show ?case using word_bytes_eq [of w v] by simp
  qed simp
  then show "addr8 a = addr8 b \<Longrightarrow> addr32 a = addr32 b" unfolding addr8_def using assms by blast
qed (simp add: addr8_def)

text \<open>The documented results of \<^verbatim>\<open>getaddrinfo\<close>: one word for IPv4, four for IPv6.\<close>

definition gai_ok :: "(string \<Rightarrow> sockaddr option) \<Rightarrow> bool" where
  "gai_ok gai \<longleftrightarrow> (\<forall>s f ws. gai s = Some (f, ws) \<longrightarrow> (f = AF_INET \<longrightarrow> length ws = 1) \<and> (f = AF_INET6 \<longrightarrow> length ws = 4))"

lemma pton_ok:
  assumes "gai_ok gai" "addr_pton gai s = Some a"
  shows "xaddr_ok a"
proof -
  obtain f ws where w: "gai s = Some (f, ws)" "addr_sa_to_xaddr (f, ws) = Some a"
    using assms(2) by (auto simp: addr_pton_def bind_eq_Some_conv)
  then have "f = AF_INET6 \<longrightarrow> length ws = 4" using assms(1) unfolding gai_ok_def by blast
  then show ?thesis
    using w(2) by (auto simp: addr_sa_to_xaddr_def xaddr_ok_def zero_xaddr_def set_v4_def split: sa_family.splits)
qed

lemma set_v4_fields [simp]:
  "addr32 a \<noteq> [] \<Longrightarrow> v4 (set_v4 w a) = w" "af (set_v4 w a) = af a" "addr32 (set_v4 w a) = [] \<longleftrightarrow> addr32 a = []"
  "scope_id (set_v4 w a) = scope_id a"
  by (simp_all add: set_v4_def v4_def)

lemma length_mask_words [simp]: "length (mask_words n l) = n"
  by (induction n l rule: mask_words.induct) auto

lemma netmask_words:
  assumes "addr_netmask f l = Some m"
  shows "f = AF_INET \<Longrightarrow> v4 m = mask_of l \<and> l \<le> 32" "f = AF_INET6 \<Longrightarrow> addr32 m = mask_words 4 l \<and> l \<le> 128" "af m = f"
    "addr32 m \<noteq> []"
proof -
  show "f = AF_INET \<Longrightarrow> v4 m = mask_of l \<and> l \<le> 32" "f = AF_INET6 \<Longrightarrow> addr32 m = mask_words 4 l \<and> l \<le> 128" "af m = f"
    using assms by (auto simp: addr_netmask_def masklen_valid_def zero_xaddr_def set_v4_def v4_def mask_of_def Let_def
        split: sa_family.splits if_splits)
  have "mask_words 4 l \<noteq> []" using length_mask_words [of 4 l] by (metis list.size(3) zero_neq_numeral)
  then show "addr32 m \<noteq> []"
    using assms by (auto simp: addr_netmask_def zero_xaddr_def Let_def split: sa_family.splits if_splits)
qed

text \<open>A condition on the bits of a mask is one on the leading bits of the address.\<close>

lemma leading_bits:
  assumes "l \<le> 32 * n" "\<And>k j. k < n \<Longrightarrow> j < 32 \<Longrightarrow> M k j \<longleftrightarrow> 32 * k + (31 - j) < l"
  shows "(\<forall>k < n. \<forall>j < 32. M k j \<longrightarrow> bit (addr32 a ! k) j = bit (addr32 b ! k) j) \<longleftrightarrow> (\<forall>i < l. abit a i = abit b i)"
proof
  assume all: "\<forall>k < n. \<forall>j < 32. M k j \<longrightarrow> bit (addr32 a ! k) j = bit (addr32 b ! k) j"
  show "\<forall>i < l. abit a i = abit b i"
  proof (intro allI impI)
    fix i
    assume i: "i < l"
    have k: "i div 32 < n" "31 - i mod 32 < 32" using i assms(1) by (simp_all add: less_mult_imp_div_less mult.commute)
    have "32 * (i div 32) + (31 - (31 - i mod 32)) = i" using mod_less_divisor [of 32 i] by simp
    then have "M (i div 32) (31 - i mod 32)" using assms(2) [OF k] i by simp
    then show "abit a i = abit b i" using all k by (simp add: abit_def)
  qed
next
  assume all: "\<forall>i < l. abit a i = abit b i"
  show "\<forall>k < n. \<forall>j < 32. M k j \<longrightarrow> bit (addr32 a ! k) j = bit (addr32 b ! k) j"
  proof (intro allI impI)
    fix k j
    assume k: "k < n" "j < 32" "M k j"
    then have "abit a (32 * k + (31 - j)) = abit b (32 * k + (31 - j))" using all assms(2) by blast
    moreover have "(32 * k + r) div 32 = k" "(32 * k + r) mod 32 = r" if "r < 32" for r using that by simp_all
    from this [of "31 - j"] have "(32 * k + (31 - j)) div 32 = k" "(32 * k + (31 - j)) mod 32 = 31 - j" by simp_all
    moreover have "31 - (31 - j) = j" using k(2) by simp
    ultimately show "bit (addr32 a ! k) j = bit (addr32 b ! k) j" by (simp only: abit_def)
  qed
qed

lemma addr_cmp6:
  assumes "af a = AF_INET6" "af b = AF_INET6" "length (addr32 a) = length (addr32 b)" "scope_id a = scope_id b"
  shows "addr_cmp a b = 0 \<longleftrightarrow> addr32 a = addr32 b"
proof -
  have l: "length (addr8 c) = 4 * length (addr32 c)" for c
    by (induction "addr32 c" arbitrary: c) (simp_all add: addr8_def length_concat comp_def sum_list_triv)
  have "bytes_cmp (addr8 a) (addr8 b) = 0 \<longleftrightarrow> addr8 a = addr8 b" using assms(3) by (intro bytes_cmp_eq) (simp add: l)
  then show ?thesis using assms addr8_eq [OF assms(3)] by (auto simp: addr_cmp_def)
qed

lemma netmatch_iff:
  assumes h: "xaddr_ok host" and n: "xaddr_ok net" "addr_host_is_all0s net l = 0" and same: "af host = af net"
  shows "addr_netmatch host net l = 0 \<longleftrightarrow> (\<forall>i < l. abit host i = abit net i)"
proof -
  have len: "length (addr32 host) = 4" "length (addr32 net) = 4" "scope_id host = 0" "scope_id net = 0"
    using h n(1) by (simp_all add: xaddr_ok_def)
  obtain m where m: "addr_netmask (af net) l = Some m"
    using n(2) by (cases "addr_netmask (af net) l") (auto simp: addr_host_is_all0s_def addr_hostmask_def)
  note mw = netmask_words [OF m]
  consider (v4) "af net = AF_INET" | (v6) "af net = AF_INET6" using n(1) by (cases "af net") (auto simp: xaddr_ok_def)
  then show ?thesis
  proof cases
    case v4
    have l: "l \<le> 32" and vm: "v4 m = mask_of l" using mw(1) v4 by simp_all
    have ne: "addr32 host \<noteq> []" "addr32 net \<noteq> []" using len by auto
    have z: "v4 net AND NOT (mask_of l) = 0"
      using n(2) v4 m mw(3,4) vm ne
      by (simp add: addr_host_is_all0s_def addr_hostmask_def addr_invert_def addr_and_def addr_is_all0s_def split: if_splits)
    have "addr_netmatch host net l = 0 \<longleftrightarrow> v4 host AND mask_of l = v4 net"
      using v4 same m mw(3) vm ne by (simp add: addr_netmatch_def addr_and_def addr_cmp_def)
    also have "\<dots> \<longleftrightarrow> (\<forall>j < 32. bit (mask_of l) j \<longrightarrow> bit (v4 host) j = bit (v4 net) j)" by (rule and_mask_eq [OF z])
    also have "\<dots> \<longleftrightarrow> (\<forall>k < (1 :: nat). \<forall>j < 32. bit (mask_of l) j \<longrightarrow> bit (addr32 host ! k) j = bit (addr32 net ! k) j)"
      by (simp add: v4_def)
    also have "\<dots> \<longleftrightarrow> (\<forall>i < l. abit host i = abit net i)"
      using l mask_of_bit by (intro leading_bits) simp_all
    finally show ?thesis .
  next
    case v6
    have l: "l \<le> 128" and vm: "addr32 m = mask_words 4 l" using mw(2) v6 by simp_all
    have z: "addr32 net ! k AND NOT (mask_words 4 l ! k) = 0" if "k < 4" for k
      using n(2) v6 m mw(3) vm len that
      by (auto simp: addr_host_is_all0s_def addr_hostmask_def addr_invert_def addr_and_def addr_is_all0s_def list_all_length
          split: if_splits)
    have "addr_netmatch host net l = 0 \<longleftrightarrow> map2 (AND) (addr32 host) (mask_words 4 l) = addr32 net"
      using v6 same m mw(3) vm len by (simp add: addr_netmatch_def addr_and_def addr_cmp6)
    also have "\<dots> \<longleftrightarrow> (\<forall>k < 4. addr32 host ! k AND mask_words 4 l ! k = addr32 net ! k)"
      using len by (auto simp: list_eq_iff_nth_eq)
    also have "\<dots> \<longleftrightarrow> (\<forall>k < 4. \<forall>j < 32. bit (mask_words 4 l ! k) j \<longrightarrow> bit (addr32 host ! k) j = bit (addr32 net ! k) j)"
      using and_mask_eq [OF z] by blast
    also have "\<dots> \<longleftrightarrow> (\<forall>i < l. abit host i = abit net i)"
      using l mask_words_bit by (intro leading_bits) simp_all
    finally show ?thesis .
  qed
qed

lemma pton_cidr_ok:
  assumes "gai_ok gai" "addr_pton_cidr gai p = Inr (net, l)"
  shows "xaddr_ok net" "addr_host_is_all0s net l = 0"
  using assms(2) pton_ok [OF assms(1)]
  by (auto simp: addr_pton_cidr_def Let_def split: if_splits option.splits)

text \<open>
  Claim C31: matching an address against a network. If an entry such as \<^verbatim>\<open>10.0.0.0/8\<close> is accepted by
  \<^verbatim>\<open>addr_pton_cidr\<close>, \<^verbatim>\<open>addr_netmatch\<close> matches an address against it exactly if both have the same
  family and agree in the leading bits that the length of the mask says.
\<close>

theorem addr_netmatch_prefix:
  assumes "gai_ok gai" "addr_pton gai s = Some host" "addr_pton_cidr gai p = Inr (net, l)"
  shows "addr_netmatch host net l = 0 \<longleftrightarrow> af host = af net \<and> (\<forall>i < l. abit host i = abit net i)"
proof (cases "af host = af net")
  case True
  then show ?thesis using netmatch_iff [OF pton_ok [OF assms(1,2)] pton_cidr_ok [OF assms(1,3)] True] by simp
qed (simp add: addr_netmatch_def)

text \<open>A resolver that knows a few addresses.\<close>

definition gai_example :: "string \<Rightarrow> sockaddr option" where
  "gai_example = map_of [(''10.1.2.3'', (AF_INET, [0x0a010203])), (''10.0.0.0'', (AF_INET, [0x0a000000])),
     (''fe80::1%1'', (AF_INET6, [0xfe800000, 0, 0, 1]))]"

lemma gai_example_ok: "gai_ok gai_example"
  unfolding gai_ok_def gai_example_def by (auto dest!: map_of_SomeD)

theorem addr_netmatch_prefix_witness:
  "\<exists>host net. addr_pton gai_example ''10.1.2.3'' = Some host \<and> addr_pton_cidr gai_example ''10.0.0.0/8'' = Inr (net, 8)
     \<and> (addr_netmatch host net 8 = 0 \<longleftrightarrow> af host = af net \<and> (\<forall>i < 8. abit host i = abit net i))"
proof -
  let ?h = "\<lparr>af = AF_INET, addr32 = [0x0a010203, 0, 0, 0], scope_id = 0\<rparr>"
    and ?n = "\<lparr>af = AF_INET, addr32 = [0x0a000000, 0, 0, 0], scope_id = 0\<rparr>"
  have h: "addr_pton gai_example ''10.1.2.3'' = Some ?h"
    by (simp add: addr_pton_def gai_example_def addr_sa_to_xaddr_def zero_xaddr_def set_v4_def)
  have n: "addr_pton_cidr gai_example ''10.0.0.0/8'' = Inr (?n, 8)" by code_simp
  show ?thesis using addr_netmatch_prefix [OF gai_example_ok h n] h n by blast
qed

text \<open>
  Claim C32: a list of addresses. If every entry of the list is valid, \<^verbatim>\<open>addr_match_list\<close> returns -1 if an
  entry with an exclamation mark matches the address, wherever it stands; otherwise 1 if another
  entry matches, and otherwise 0; an address that cannot be parsed matches nothing.
\<close>

definition addr_hit :: "(string \<Rightarrow> sockaddr option) \<Rightarrow> string \<Rightarrow> xaddr \<Rightarrow> string \<Rightarrow> bool option" where
  "addr_hit gai s a e = entry_match gai (Some (s, a)) (if negated e then tl e else e)"

lemma addr_list_loop_spec:
  assumes "\<forall>e \<in> set es. addr_hit gai s a e \<noteq> None"
  shows "addr_list_loop gai (Some (s, a)) es r =
    (if \<exists>e \<in> set es. negated e \<and> addr_hit gai s a e = Some True then - 1
     else if \<exists>e \<in> set es. \<not> negated e \<and> addr_hit gai s a e = Some True then 1 else r)"
  using assms
proof (induction es arbitrary: r)
  case (Cons e es)
  obtain m where m: "addr_hit gai s a e = Some m" using Cons.prems by auto
  then have step: "addr_list_loop gai (Some (s, a)) (e # es) r =
      (if m then if negated e then - 1 else addr_list_loop gai (Some (s, a)) es 1 else addr_list_loop gai (Some (s, a)) es r)"
    by (simp add: addr_hit_def negated_def Let_def split: if_splits)
  show ?case unfolding step using Cons m by (cases m; cases "negated e") auto
qed simp

theorem addr_match_list_spec:
  assumes "addr_pton gai s = Some a" "\<forall>e \<in> set (split_on CHR '','' list). addr_hit gai s a e \<noteq> None"
  shows "addr_match_list gai (Some s) list =
    (if \<exists>e \<in> set (split_on CHR '','' list). negated e \<and> addr_hit gai s a e = Some True then - 1
     else if \<exists>e \<in> set (split_on CHR '','' list). \<not> negated e \<and> addr_hit gai s a e = Some True then 1 else 0)"
  using addr_list_loop_spec [OF assms(2)] assms(1) by (simp add: addr_match_list_def tokens_split)

theorem addr_match_list_spec_witness:
  "addr_match_list gai_example (Some ''10.1.2.3'') ''10.0.0.0/8,!10.1.*'' = - 1"
proof -
  let ?h = "\<lparr>af = AF_INET, addr32 = [0x0a010203, 0, 0, 0], scope_id = 0\<rparr>"
  have h: "addr_pton gai_example ''10.1.2.3'' = Some ?h"
    by (simp add: addr_pton_def gai_example_def addr_sa_to_xaddr_def zero_xaddr_def set_v4_def)
  have "\<forall>e \<in> set (split_on CHR '','' ''10.0.0.0/8,!10.1.*''). addr_hit gai_example ''10.1.2.3'' ?h e \<noteq> None"
    "\<exists>e \<in> set (split_on CHR '','' ''10.0.0.0/8,!10.1.*''). negated e \<and> addr_hit gai_example ''10.1.2.3'' ?h e = Some True"
    by code_simp+
  with addr_match_list_spec [OF h this(1)] show ?thesis by simp
qed


end
