(* ===== verification/Nchan.thy ===== *)
theory Nchan
  imports Prelude "HOL-Library.Monad_Syntax"
begin

text \<open>
  The states of a channel (\<^verbatim>\<open>openssh/openssh/nchan.c\<close>): what happens to the two halves of a
  channel when its file descriptors fail, its buffers run empty, or an EOF or CLOSE message
  arrives. A channel is a record with the fields of \<^verbatim>\<open>struct Channel\<close> that these functions and the
  data path in the theory \<open>Channels\<close> use; the connection records the packets handed to the transport and what was
  done to file descriptors.

  The value \<open>None\<close> stands for the end of the process by \<^verbatim>\<open>fatal\<close> or \<^verbatim>\<open>ssh_packet_disconnect\<close>.
  The buffers of a channel are byte queues, which is what \<^verbatim>\<open>sshbuf.c\<close> makes of them. Left out are
  the log and \<^verbatim>\<open>channel_max_fd\<close>, which only sizes the sets for \<^verbatim>\<open>select\<close>.
\<close>

subsection \<open>Channels and the connection\<close>

datatype chan_type =
    SSH_CHANNEL_X11_LISTENER | SSH_CHANNEL_PORT_LISTENER | SSH_CHANNEL_OPENING | SSH_CHANNEL_OPEN
  | SSH_CHANNEL_CLOSED | SSH_CHANNEL_AUTH_SOCKET | SSH_CHANNEL_X11_OPEN | SSH_CHANNEL_LARVAL
  | SSH_CHANNEL_RPORT_LISTENER | SSH_CHANNEL_CONNECTING | SSH_CHANNEL_DYNAMIC | SSH_CHANNEL_ZOMBIE
  | SSH_CHANNEL_MUX_LISTENER | SSH_CHANNEL_MUX_CLIENT | SSH_CHANNEL_ABANDONED
  | SSH_CHANNEL_UNIX_LISTENER | SSH_CHANNEL_RUNIX_LISTENER | SSH_CHANNEL_MUX_PROXY
  | SSH_CHANNEL_RDYNAMIC_OPEN | SSH_CHANNEL_RDYNAMIC_FINISH

abbreviation CHAN_INPUT_OPEN :: u32 where "CHAN_INPUT_OPEN \<equiv> 0"
abbreviation CHAN_INPUT_WAIT_DRAIN :: u32 where "CHAN_INPUT_WAIT_DRAIN \<equiv> 1"
abbreviation CHAN_INPUT_CLOSED :: u32 where "CHAN_INPUT_CLOSED \<equiv> 3"
abbreviation CHAN_OUTPUT_OPEN :: u32 where "CHAN_OUTPUT_OPEN \<equiv> 0"
abbreviation CHAN_OUTPUT_WAIT_DRAIN :: u32 where "CHAN_OUTPUT_WAIT_DRAIN \<equiv> 1"
abbreviation CHAN_OUTPUT_CLOSED :: u32 where "CHAN_OUTPUT_CLOSED \<equiv> 3"

text \<open>The bits of \<^verbatim>\<open>flags\<close>, as a set.\<close>

datatype chan_flag = CHAN_CLOSE_SENT | CHAN_CLOSE_RCVD | CHAN_EOF_SENT | CHAN_EOF_RCVD | CHAN_LOCAL

datatype extended_use = CHAN_EXTENDED_IGNORE | CHAN_EXTENDED_READ | CHAN_EXTENDED_WRITE

record channel =
  c_type :: chan_type
  self :: int
  remote_id :: u32
  have_remote_id :: bool
  istate :: u32
  ostate :: u32
  flags :: "chan_flag set"
  rfd :: int
  wfd :: int
  efd :: int
  sock :: int
  isatty :: bool
  force_drain :: bool
  c_input :: "byte list"
  c_output :: "byte list"
  c_extended :: "byte list"
  remote_window :: u32
  remote_maxpacket :: u32
  local_window :: u32
  local_window_max :: u32
  local_consumed :: u32
  local_maxpacket :: u32
  extended_usage :: extended_use
  ctype :: string
  detach_user :: bool
  detach_close :: bool
  datagram :: bool

text \<open>The messages about a channel, with the recipient's number.\<close>

datatype packet =
    Data u32 "byte list"
  | Extended_data u32 u32 "byte list"
  | Eof u32
  | Close u32
  | Window_adjust u32 u32
  | Request u32 string bool
  | Status u32 bool

datatype shut_how = SHUT_RD | SHUT_WR

text \<open>
  The connection: the packets sent, the outcome of the \<open>n\<close>-th call of the \<^verbatim>\<open>sshpkt\<close> functions, the
  peer's compatibility bits, and the calls of \<^verbatim>\<open>close\<close>, \<^verbatim>\<open>read\<close>, \<^verbatim>\<open>write\<close> and \<^verbatim>\<open>shutdown\<close> in their order.
\<close>

datatype fellow = SSH_NEW_OPENSSH | SSH_BUG_EXTEOF

record ssh =
  sent :: "packet list"
  send_ok :: "nat \<Rightarrow> bool"
  datafellows :: "fellow set"
  closed :: "int list"
  was_read :: "(int \<times> byte list) list"
  wrote :: "(int \<times> byte list) list"
  shut :: "(int \<times> shut_how) list"
  exit_status :: "u32 option"

definition sshpkt :: "packet \<Rightarrow> ssh \<Rightarrow> ssh option" where
  "sshpkt p s = (if send_ok s (length (sent s)) then Some (s\<lparr>sent := sent s @ [p]\<rparr>) else None)"

definition channel_close_fd :: "int \<Rightarrow> ssh \<Rightarrow> int \<times> ssh" where
  "channel_close_fd fd s = (if fd \<noteq> - 1 then (- 1, s\<lparr>closed := closed s @ [fd]\<rparr>) else (fd, s))"

definition add_flag :: "chan_flag \<Rightarrow> channel \<Rightarrow> channel" where
  "add_flag f c = c\<lparr>flags := insert f (flags c)\<rparr>"

definition CHANNEL_EFD_INPUT_ACTIVE :: "channel \<Rightarrow> bool" where
  "CHANNEL_EFD_INPUT_ACTIVE c \<longleftrightarrow>
     extended_usage c = CHAN_EXTENDED_READ \<and> (efd c \<noteq> - 1 \<or> length (c_extended c) > 0)"

definition CHANNEL_EFD_OUTPUT_ACTIVE :: "channel \<Rightarrow> bool" where
  "CHANNEL_EFD_OUTPUT_ACTIVE c \<longleftrightarrow>
     extended_usage c = CHAN_EXTENDED_WRITE \<and> efd c \<noteq> - 1
     \<and> (\<not> (CHAN_EOF_RCVD \<in> flags c \<or> CHAN_CLOSE_RCVD \<in> flags c) \<or> length (c_extended c) > 0)"

subsection \<open>Changing the states\<close>

definition chan_set_istate :: "u32 \<Rightarrow> channel \<Rightarrow> channel option" where
  "chan_set_istate nxt c =
     (if istate c > CHAN_INPUT_CLOSED \<or> nxt > CHAN_INPUT_CLOSED then None else Some (c\<lparr>istate := nxt\<rparr>))"

definition chan_set_ostate :: "u32 \<Rightarrow> channel \<Rightarrow> channel option" where
  "chan_set_ostate nxt c =
     (if ostate c > CHAN_OUTPUT_CLOSED \<or> nxt > CHAN_OUTPUT_CLOSED then None else Some (c\<lparr>ostate := nxt\<rparr>))"

subsection \<open>Shutting down descriptors\<close>

definition chan_shutdown_write :: "channel \<Rightarrow> ssh \<Rightarrow> channel \<times> ssh" where
  "chan_shutdown_write c s =
     (let c = c\<lparr>c_output := []\<rparr>
      in if c_type c = SSH_CHANNEL_LARVAL then (c, s)
         else if sock c \<noteq> - 1 then (c, s\<lparr>shut := shut s @ [(sock c, SHUT_WR)]\<rparr>)
         else (case channel_close_fd (wfd c) s of (fd, s) \<Rightarrow> (c\<lparr>wfd := fd\<rparr>, s)))"

definition chan_shutdown_read :: "channel \<Rightarrow> ssh \<Rightarrow> channel \<times> ssh" where
  "chan_shutdown_read c s =
     (if c_type c = SSH_CHANNEL_LARVAL then (c, s)
      else if sock c \<noteq> - 1 then (c, s\<lparr>shut := shut s @ [(sock c, SHUT_RD)]\<rparr>)
      else (case channel_close_fd (rfd c) s of (fd, s) \<Rightarrow> (c\<lparr>rfd := fd\<rparr>, s)))"

definition chan_shutdown_extended_read :: "channel \<Rightarrow> ssh \<Rightarrow> channel \<times> ssh" where
  "chan_shutdown_extended_read c s =
     (if c_type c = SSH_CHANNEL_LARVAL \<or> efd c = - 1 then (c, s)
      else if extended_usage c \<noteq> CHAN_EXTENDED_READ \<and> extended_usage c \<noteq> CHAN_EXTENDED_IGNORE then (c, s)
      else (case channel_close_fd (efd c) s of (fd, s) \<Rightarrow> (c\<lparr>efd := fd\<rparr>, s)))"

subsection \<open>Sending EOF, CLOSE and EOW\<close>

definition chan_send_eof2 :: "channel \<Rightarrow> ssh \<Rightarrow> (channel \<times> ssh) option" where
  "chan_send_eof2 c s =
     (if istate c = CHAN_INPUT_WAIT_DRAIN then
        if \<not> have_remote_id c then None
        else do {s \<leftarrow> sshpkt (Eof (remote_id c)) s; Some (add_flag CHAN_EOF_SENT c, s)}
      else Some (c, s))"

definition chan_send_close2 :: "channel \<Rightarrow> ssh \<Rightarrow> (channel \<times> ssh) option" where
  "chan_send_close2 c s =
     (if ostate c \<noteq> CHAN_OUTPUT_CLOSED \<or> istate c \<noteq> CHAN_INPUT_CLOSED then Some (c, s)
      else if CHAN_CLOSE_SENT \<in> flags c then Some (c, s)
      else if \<not> have_remote_id c then None
      else do {s \<leftarrow> sshpkt (Close (remote_id c)) s; Some (add_flag CHAN_CLOSE_SENT c, s)})"

definition chan_send_eow2 :: "channel \<Rightarrow> ssh \<Rightarrow> ssh option" where
  "chan_send_eow2 c s =
     (if ostate c = CHAN_OUTPUT_CLOSED then Some s
      else if SSH_NEW_OPENSSH \<notin> datafellows s then Some s
      else if \<not> have_remote_id c then None
      else sshpkt (Request (remote_id c) ''eow@openssh.com'' False) s)"

subsection \<open>Events\<close>

definition chan_read_failed :: "channel \<Rightarrow> ssh \<Rightarrow> (channel \<times> ssh) option" where
  "chan_read_failed c s =
     (if istate c = CHAN_INPUT_OPEN then
        (case chan_shutdown_read c s of (c, s) \<Rightarrow>
           do {c \<leftarrow> chan_set_istate CHAN_INPUT_WAIT_DRAIN c; Some (c, s)})
      else Some (c, s))"

definition chan_ibuf_empty :: "channel \<Rightarrow> ssh \<Rightarrow> (channel \<times> ssh) option" where
  "chan_ibuf_empty c s =
     (if c_input c \<noteq> [] then Some (c, s)
      else if istate c = CHAN_INPUT_WAIT_DRAIN then do {
        (c, s) \<leftarrow> (if \<not> (CHAN_CLOSE_SENT \<in> flags c \<or> CHAN_LOCAL \<in> flags c) then chan_send_eof2 c s
                   else Some (c, s));
        c \<leftarrow> chan_set_istate CHAN_INPUT_CLOSED c;
        Some (c, s)}
      else Some (c, s))"

definition chan_obuf_empty :: "channel \<Rightarrow> ssh \<Rightarrow> (channel \<times> ssh) option" where
  "chan_obuf_empty c s =
     (if c_output c \<noteq> [] then Some (c, s)
      else if ostate c = CHAN_OUTPUT_WAIT_DRAIN then
        (case chan_shutdown_write c s of (c, s) \<Rightarrow>
           do {c \<leftarrow> chan_set_ostate CHAN_OUTPUT_CLOSED c; Some (c, s)})
      else Some (c, s))"

definition chan_rcvd_eow :: "channel \<Rightarrow> ssh \<Rightarrow> (channel \<times> ssh) option" where
  "chan_rcvd_eow c s =
     (if istate c = CHAN_INPUT_OPEN then
        (case chan_shutdown_read c s of (c, s) \<Rightarrow>
           do {c \<leftarrow> chan_set_istate CHAN_INPUT_CLOSED c; Some (c, s)})
      else Some (c, s))"

definition chan_rcvd_ieof :: "channel \<Rightarrow> ssh \<Rightarrow> (channel \<times> ssh) option" where
  "chan_rcvd_ieof c s =
     do {let c = add_flag CHAN_EOF_RCVD c;
         c \<leftarrow> (if ostate c = CHAN_OUTPUT_OPEN then chan_set_ostate CHAN_OUTPUT_WAIT_DRAIN c else Some c);
         if ostate c = CHAN_OUTPUT_WAIT_DRAIN \<and> c_output c = [] \<and> \<not> CHANNEL_EFD_OUTPUT_ACTIVE c
         then chan_obuf_empty c s else Some (c, s)}"

definition chan_rcvd_oclose :: "channel \<Rightarrow> ssh \<Rightarrow> (channel \<times> ssh) option" where
  "chan_rcvd_oclose c s =
     do {let c = (if CHAN_LOCAL \<notin> flags c then add_flag CHAN_CLOSE_RCVD c else c);
         if c_type c = SSH_CHANNEL_LARVAL then do {
           c \<leftarrow> chan_set_ostate CHAN_OUTPUT_CLOSED c;
           c \<leftarrow> chan_set_istate CHAN_INPUT_CLOSED c;
           Some (c, s)}
         else do {
           c \<leftarrow> (if ostate c = CHAN_OUTPUT_OPEN then chan_set_ostate CHAN_OUTPUT_WAIT_DRAIN c else Some c);
           if istate c = CHAN_INPUT_OPEN then
             (case chan_shutdown_read c s of (c, s) \<Rightarrow>
                case chan_shutdown_extended_read c s of (c, s) \<Rightarrow>
                  do {c \<leftarrow> chan_set_istate CHAN_INPUT_CLOSED c; Some (c, s)})
           else if istate c = CHAN_INPUT_WAIT_DRAIN then do {
             (c, s) \<leftarrow> (if CHAN_LOCAL \<notin> flags c then chan_send_eof2 c s else Some (c, s));
             case chan_shutdown_extended_read c s of (c, s) \<Rightarrow>
               do {c \<leftarrow> chan_set_istate CHAN_INPUT_CLOSED c; Some (c, s)}}
           else Some (c, s)}}"

definition chan_write_failed :: "channel \<Rightarrow> ssh \<Rightarrow> (channel \<times> ssh) option" where
  "chan_write_failed c s =
     (if ostate c = CHAN_OUTPUT_OPEN \<or> ostate c = CHAN_OUTPUT_WAIT_DRAIN then
        (case chan_shutdown_write c s of (c, s) \<Rightarrow> do {
           s \<leftarrow> (if ctype c = ''session'' then chan_send_eow2 c s else Some s);
           c \<leftarrow> chan_set_ostate CHAN_OUTPUT_CLOSED c;
           Some (c, s)})
      else Some (c, s))"

definition chan_mark_dead :: "channel \<Rightarrow> channel" where
  "chan_mark_dead c = c\<lparr>c_type := SSH_CHANNEL_ZOMBIE\<rparr>"

definition chan_is_dead :: "bool \<Rightarrow> channel \<Rightarrow> ssh \<Rightarrow> (bool \<times> channel \<times> ssh) option" where
  "chan_is_dead do_send c s =
     (if c_type c = SSH_CHANNEL_ZOMBIE then Some (True, c, s)
      else if istate c \<noteq> CHAN_INPUT_CLOSED \<or> ostate c \<noteq> CHAN_OUTPUT_CLOSED then Some (False, c, s)
      else if SSH_BUG_EXTEOF \<in> datafellows s \<and> extended_usage c = CHAN_EXTENDED_WRITE
        \<and> efd c \<noteq> - 1 \<and> length (c_extended c) > 0 then Some (False, c, s)
      else if CHAN_LOCAL \<in> flags c then Some (True, c, s)
      else if CHAN_CLOSE_SENT \<notin> flags c \<and> \<not> do_send \<and> CHAN_CLOSE_RCVD \<in> flags c then Some (True, c, s)
      else do {
        (c, s) \<leftarrow> (if CHAN_CLOSE_SENT \<notin> flags c \<and> do_send then chan_send_close2 c s else Some (c, s));
        Some (CHAN_CLOSE_SENT \<in> flags c \<and> CHAN_CLOSE_RCVD \<in> flags c, c, s)})"

end
