(* ===== verification/Channels.thy ===== *)
theory Channels
  imports Nchan Sshbuf_Getput
begin

text \<open>
  The data path of an open channel (\<^verbatim>\<open>openssh/openssh/channels.c\<close>): what is done before and after
  \<^verbatim>\<open>select\<close> (\<^verbatim>\<open>channel_pre_open\<close>, \<^verbatim>\<open>channel_post_open\<close> and the handlers it calls), how buffered data
  becomes packets (\<^verbatim>\<open>channel_output_poll\<close>), and what the packets of the peer do
  (\<^verbatim>\<open>channel_input_data\<close> and its relatives). Each definition works on one channel; the messages are
  given by their payload behind the channel number.

  The outcomes of \<^verbatim>\<open>read\<close> and \<^verbatim>\<open>write\<close> are arguments: an error code, or the bytes read and the
  number of bytes written. So are the filters and the callback that a user of a channel may have registered. The
  configuration is that of Windows, which has no \<^verbatim>\<open>PTY_ZEROREAD\<close> and defines
  \<^verbatim>\<open>BROKEN_TCGETATTR_ICANON\<close>.
\<close>

subsection \<open>Buffers as queues\<close>

abbreviation BUF_MAX :: nat where "BUF_MAX \<equiv> 0x8000000"

text \<open>\<^verbatim>\<open>sshbuf_put\<close>, \<^verbatim>\<open>sshbuf_put_string\<close> and \<^verbatim>\<open>sshbuf_get_string\<close> on queues; \<open>None\<close> is a refusal.\<close>

definition buf_put :: "byte list \<Rightarrow> byte list \<Rightarrow> byte list option" where
  "buf_put b bs = (if length b + length bs \<le> BUF_MAX then Some (b @ bs) else None)"

definition put_str :: "byte list \<Rightarrow> byte list" where
  "put_str bs = POKE_U32 (word_of_nat (length bs)) @ bs"

definition get_str :: "byte list \<Rightarrow> (byte list \<times> byte list) option" where
  "get_str b =
     (if length b < 4 then None
      else let len = unat (PEEK_U32 b)
           in if len > BUF_MAX - 4 \<or> length b - 4 < len then None
              else Some (take len (drop 4 b), drop (4 + len) b))"

definition get_u32 :: "byte list \<Rightarrow> (u32 \<times> byte list) option" where
  "get_u32 b = (if length b < 4 then None else Some (PEEK_U32 b, drop 4 b))"

datatype io_error = EINTR | EAGAIN | EIO

abbreviation CHAN_RBUF :: nat where "CHAN_RBUF \<equiv> 16 * 1024"

type_synonym read_result = "io_error + byte list"
type_synonym write_result = "io_error + nat"
type_synonym infilter = "byte list \<Rightarrow> channel \<Rightarrow> ssh \<Rightarrow> int \<times> channel \<times> ssh"
type_synonym outfilter = "channel \<Rightarrow> ssh \<Rightarrow> byte list option \<times> channel \<times> ssh"

text \<open>Bytes taken from a descriptor, and a write of which \<open>n\<close> bytes are taken.\<close>

definition log_read :: "int \<Rightarrow> byte list \<Rightarrow> ssh \<Rightarrow> ssh" where
  "log_read fd buf s = s\<lparr>was_read := was_read s @ [(fd, buf)]\<rparr>"

definition log_write :: "int \<Rightarrow> byte list \<Rightarrow> nat \<Rightarrow> ssh \<Rightarrow> ssh" where
  "log_write fd buf n s = s\<lparr>wrote := wrote s @ [(fd, take n buf)]\<rparr>"

subsection \<open>Before select\<close>

definition channel_pre_open :: "int set \<Rightarrow> int set \<Rightarrow> channel \<Rightarrow> ssh \<Rightarrow> (int set \<times> int set \<times> channel \<times> ssh) option" where
  "channel_pre_open readset writeset c s =
     do {let readset = (if istate c = CHAN_INPUT_OPEN \<and> remote_window c > 0
                          \<and> length (c_input c) < unat (remote_window c) \<and> length (c_input c) + CHAN_RBUF \<le> BUF_MAX
                        then insert (rfd c) readset else readset);
         (writeset, c, s) \<leftarrow>
           (if ostate c = CHAN_OUTPUT_OPEN \<or> ostate c = CHAN_OUTPUT_WAIT_DRAIN then
              if length (c_output c) > 0 then Some (insert (wfd c) writeset, c, s)
              else if ostate c = CHAN_OUTPUT_WAIT_DRAIN \<and> \<not> CHANNEL_EFD_OUTPUT_ACTIVE c
              then map_option (Pair writeset) (chan_obuf_empty c s)
              else Some (writeset, c, s)
            else Some (writeset, c, s));
         Some
           (if efd c \<noteq> - 1 \<and> \<not> (istate c = CHAN_INPUT_CLOSED \<and> ostate c = CHAN_OUTPUT_CLOSED) then
              if extended_usage c = CHAN_EXTENDED_WRITE \<and> length (c_extended c) > 0
              then (readset, insert (efd c) writeset, c, s)
              else if CHAN_EOF_SENT \<notin> flags c
                \<and> (extended_usage c = CHAN_EXTENDED_READ \<or> extended_usage c = CHAN_EXTENDED_IGNORE)
                \<and> length (c_extended c) < unat (remote_window c)
              then (insert (efd c) readset, writeset, c, s)
              else (readset, writeset, c, s)
            else (readset, writeset, c, s))}"

subsection \<open>After select\<close>

definition channel_handle_rfd :: "infilter option \<Rightarrow> int set \<Rightarrow> read_result \<Rightarrow> channel \<Rightarrow> ssh \<Rightarrow> (int \<times> channel \<times> ssh) option" where
  "channel_handle_rfd input_filter readset rd c s =
     (let force = isatty c \<and> detach_close c \<and> istate c \<noteq> CHAN_INPUT_CLOSED
      in if rfd c = - 1 \<or> \<not> force \<and> rfd c \<notin> readset then Some (1, c, s)
         else if rd = Inl EINTR \<or> rd = Inl EAGAIN \<and> \<not> force then Some (1, c, s)
         else case rd of
           Inr (b # bs) \<Rightarrow>
             let buf = b # bs; s = log_read (rfd c) buf s
             in (case input_filter of
                   Some f \<Rightarrow> (case f buf c s of (r, c, s) \<Rightarrow>
                     map_option (Pair 1) (if r = - 1 then chan_read_failed c s else Some (c, s)))
                 | None \<Rightarrow>
                     do {i \<leftarrow> buf_put (c_input c) (if datagram c then put_str buf else buf);
                         Some (1, c\<lparr>c_input := i\<rparr>, s)})
         | _ \<Rightarrow>
             if c_type c \<noteq> SSH_CHANNEL_OPEN then Some (- 1, chan_mark_dead c, s)
             else map_option (Pair (- 1)) (chan_read_failed c s))"

text \<open>The label \<open>write_fail\<close>.\<close>

definition write_fail :: "channel \<Rightarrow> ssh \<Rightarrow> (int \<times> channel \<times> ssh) option" where
  "write_fail c s =
     (if c_type c \<noteq> SSH_CHANNEL_OPEN then Some (- 1, chan_mark_dead c, s)
      else map_option (Pair (- 1)) (chan_write_failed c s))"

text \<open>What is to be written: the bytes, and the channel after they were taken from a datagram channel.\<close>

definition wfd_data :: "outfilter option \<Rightarrow> channel \<Rightarrow> ssh \<Rightarrow> (byte list option \<times> channel \<times> ssh) option" where
  "wfd_data output_filter c s =
     (case output_filter of
        Some f \<Rightarrow> Some (f c s)
      | None \<Rightarrow>
          if datagram c then do {(d, rest) \<leftarrow> get_str (c_output c); Some (Some d, c\<lparr>c_output := rest\<rparr>, s)}
          else Some (Some (c_output c), c, s))"

definition channel_handle_wfd :: "outfilter option \<Rightarrow> int set \<Rightarrow> write_result \<Rightarrow> channel \<Rightarrow> ssh \<Rightarrow> (int \<times> channel \<times> ssh) option" where
  "channel_handle_wfd output_filter writeset wr c s =
     (if wfd c = - 1 \<or> wfd c \<notin> writeset \<or> length (c_output c) = 0 then Some (1, c, s)
      else do {
        let olen = length (c_output c);
        (data, c, s) \<leftarrow> wfd_data output_filter c s;
        case data of
          None \<Rightarrow> write_fail c s
        | Some buf \<Rightarrow>
            if wr = Inl EINTR \<or> wr = Inl EAGAIN then Some (1, c, s)
            else (case wr of
                Inr (Suc n) \<Rightarrow>
                  let s = log_write (wfd c) buf (Suc n) s
                  in if \<not> datagram c \<and> length (c_output c) < Suc n then None
                     else let c = (if datagram c then c else c\<lparr>c_output := drop (Suc n) (c_output c)\<rparr>)
                          in Some (1, c\<lparr>local_consumed := local_consumed c + (word_of_nat olen - word_of_nat (length (c_output c)))\<rparr>, s)
              | _ \<Rightarrow> write_fail c s)})"

definition channel_handle_efd_write :: "int set \<Rightarrow> write_result \<Rightarrow> channel \<Rightarrow> ssh \<Rightarrow> (int \<times> channel \<times> ssh) option" where
  "channel_handle_efd_write writeset wr c s =
     (if efd c \<notin> writeset \<or> length (c_extended c) = 0 then Some (1, c, s)
      else if wr = Inl EINTR \<or> wr = Inl EAGAIN then Some (1, c, s)
      else case wr of
        Inr (Suc n) \<Rightarrow>
          let s = log_write (efd c) (c_extended c) (Suc n) s
          in if length (c_extended c) < Suc n then None
             else Some (1, c\<lparr>c_extended := drop (Suc n) (c_extended c),
                             local_consumed := local_consumed c + word_of_nat (Suc n)\<rparr>, s)
      | _ \<Rightarrow> (case channel_close_fd (efd c) s of (fd, s) \<Rightarrow> Some (1, c\<lparr>efd := fd\<rparr>, s)))"

definition channel_handle_efd_read :: "int set \<Rightarrow> read_result \<Rightarrow> channel \<Rightarrow> ssh \<Rightarrow> (int \<times> channel \<times> ssh) option" where
  "channel_handle_efd_read readset rd c s =
     (if \<not> detach_close c \<and> efd c \<notin> readset then Some (1, c, s)
      else if rd = Inl EINTR \<or> rd = Inl EAGAIN \<and> \<not> detach_close c then Some (1, c, s)
      else case rd of
        Inr (b # bs) \<Rightarrow>
          let s = log_read (efd c) (b # bs) s
          in if extended_usage c = CHAN_EXTENDED_IGNORE then Some (1, c, s)
             else do {e \<leftarrow> buf_put (c_extended c) (b # bs); Some (1, c\<lparr>c_extended := e\<rparr>, s)}
      | _ \<Rightarrow> (case channel_close_fd (efd c) s of (fd, s) \<Rightarrow> Some (1, c\<lparr>efd := fd\<rparr>, s)))"

definition channel_handle_efd ::
  "int set \<Rightarrow> int set \<Rightarrow> read_result \<Rightarrow> write_result \<Rightarrow> channel \<Rightarrow> ssh \<Rightarrow> (int \<times> channel \<times> ssh) option" where
  "channel_handle_efd readset writeset rd wr c s =
     (if efd c = - 1 then Some (1, c, s)
      else if extended_usage c = CHAN_EXTENDED_WRITE then channel_handle_efd_write writeset wr c s
      else channel_handle_efd_read readset rd c s)"

definition channel_check_window :: "channel \<Rightarrow> ssh \<Rightarrow> (channel \<times> ssh) option" where
  "channel_check_window c s =
     (if c_type c = SSH_CHANNEL_OPEN \<and> \<not> (CHAN_CLOSE_SENT \<in> flags c \<or> CHAN_CLOSE_RCVD \<in> flags c)
        \<and> (local_window_max c - local_window c > local_maxpacket c * 3
           \<or> local_window c < local_window_max c div 2)
        \<and> local_consumed c > 0
      then if \<not> have_remote_id c then None
           else do {
             s \<leftarrow> sshpkt (Window_adjust (remote_id c) (local_consumed c)) s;
             Some (c\<lparr>local_window := local_window c + local_consumed c, local_consumed := 0\<rparr>, s)}
      else Some (c, s))"

text \<open>The outcomes of the system calls of one round after \<^verbatim>\<open>select\<close>.\<close>

record io =
  io_rfd :: read_result
  io_wfd :: write_result
  io_efd_rd :: read_result
  io_efd_wr :: write_result

definition channel_post_open ::
  "infilter option \<Rightarrow> outfilter option \<Rightarrow> int set \<Rightarrow> int set \<Rightarrow> io \<Rightarrow> channel \<Rightarrow> ssh \<Rightarrow> (channel \<times> ssh) option" where
  "channel_post_open input_filter output_filter readset writeset r c s =
     do {(_, c, s) \<leftarrow> channel_handle_rfd input_filter readset (io_rfd r) c s;
         (_, c, s) \<leftarrow> channel_handle_wfd output_filter writeset (io_wfd r) c s;
         (_, c, s) \<leftarrow> channel_handle_efd readset writeset (io_efd_rd r) (io_efd_wr r) c s;
         channel_check_window c s}"

text \<open>
  \<^verbatim>\<open>channel_garbage_collect\<close>; the first result says that the channel is freed. \<open>notify\<close> is what
  the registered callback does.
\<close>

definition channel_garbage_collect ::
  "(channel \<Rightarrow> ssh \<Rightarrow> channel \<times> ssh) \<Rightarrow> channel \<Rightarrow> ssh \<Rightarrow> (bool \<times> channel \<times> ssh) option" where
  "channel_garbage_collect notify c s =
     (if detach_user c then do {
        (dead, c, s) \<leftarrow> chan_is_dead (detach_close c) c s;
        if \<not> dead then Some (False, c, s)
        else case notify c s of (c, s) \<Rightarrow>
          if detach_user c then Some (False, c, s) else chan_is_dead True c s}
      else chan_is_dead True c s)"

text \<open>
  One pass of the main loop over an open channel: \<^verbatim>\<open>channel_prepare_select\<close> and
  \<^verbatim>\<open>channel_after_select\<close> call \<^verbatim>\<open>channel_handler\<close>, which runs the channel's function of the table
  and then collects it if it is dead. \<^verbatim>\<open>select\<close> returns a part of each set.
\<close>

definition channel_round :: "bool \<Rightarrow> bool \<Rightarrow> io \<Rightarrow> channel \<Rightarrow> ssh \<Rightarrow> (bool \<times> channel \<times> ssh) option" where
  "channel_round readable writable r c s =
     do {(readset, writeset, c, s) \<leftarrow> channel_pre_open {} {} c s;
         (dead, c, s) \<leftarrow> channel_garbage_collect Pair c s;
         if dead then Some (True, c, s)
         else do {
           (c, s) \<leftarrow> channel_post_open None None (if readable then readset else {})
             (if writable then writeset else {}) r c s;
           channel_garbage_collect Pair c s}}"

subsection \<open>Sending\<close>

definition channel_output_poll_input_open :: "channel \<Rightarrow> ssh \<Rightarrow> (channel \<times> ssh) option" where
  "channel_output_poll_input_open c s =
     (if length (c_input c) = 0 then
        if istate c = CHAN_INPUT_WAIT_DRAIN then
          if CHANNEL_EFD_INPUT_ACTIVE c then Some (c, s) else chan_ibuf_empty c s
        else Some (c, s)
      else if \<not> have_remote_id c then None
      else if datagram c then do {
        (pkt, rest) \<leftarrow> get_str (c_input c);
        let c = c\<lparr>c_input := rest\<rparr>;
        if length pkt > unat (remote_window c) \<or> length pkt > unat (remote_maxpacket c) then Some (c, s)
        else do {s \<leftarrow> sshpkt (Data (remote_id c) pkt) s;
                 Some (c\<lparr>remote_window := remote_window c - word_of_nat (length pkt)\<rparr>, s)}}
      else
        let len = min (min (length (c_input c)) (unat (remote_window c))) (unat (remote_maxpacket c))
        in if len = 0 then Some (c, s)
           else do {s \<leftarrow> sshpkt (Data (remote_id c) (take len (c_input c))) s;
                    Some (c\<lparr>c_input := drop len (c_input c),
                            remote_window := remote_window c - word_of_nat len\<rparr>, s)})"

definition channel_output_poll_extended_read :: "channel \<Rightarrow> ssh \<Rightarrow> (channel \<times> ssh) option" where
  "channel_output_poll_extended_read c s =
     (if length (c_extended c) = 0 then Some (c, s)
      else
        let len = min (min (length (c_extended c)) (unat (remote_window c))) (unat (remote_maxpacket c))
        in if len = 0 then Some (c, s)
           else if \<not> have_remote_id c then None
           else do {s \<leftarrow> sshpkt (Extended_data (remote_id c) 1 (take len (c_extended c))) s;
                    Some (c\<lparr>c_extended := drop len (c_extended c),
                            remote_window := remote_window c - word_of_nat len\<rparr>, s)})"

text \<open>The body of the loop of \<^verbatim>\<open>channel_output_poll\<close>.\<close>

definition channel_output_poll :: "channel \<Rightarrow> ssh \<Rightarrow> (channel \<times> ssh) option" where
  "channel_output_poll c s =
     (if c_type c \<noteq> SSH_CHANNEL_OPEN then Some (c, s)
      else if CHAN_CLOSE_SENT \<in> flags c \<or> CHAN_CLOSE_RCVD \<in> flags c then Some (c, s)
      else do {
        (c, s) \<leftarrow> (if istate c = CHAN_INPUT_OPEN \<or> istate c = CHAN_INPUT_WAIT_DRAIN
                   then channel_output_poll_input_open c s else Some (c, s));
        if CHAN_EOF_SENT \<notin> flags c \<and> extended_usage c = CHAN_EXTENDED_READ
        then channel_output_poll_extended_read c s else Some (c, s)})"

subsection \<open>Receiving\<close>

definition channel_input_data :: "byte list \<Rightarrow> channel \<Rightarrow> ssh \<Rightarrow> (channel \<times> ssh) option" where
  "channel_input_data pay c s =
     (if c_type c \<notin> {SSH_CHANNEL_OPEN, SSH_CHANNEL_RDYNAMIC_OPEN, SSH_CHANNEL_RDYNAMIC_FINISH, SSH_CHANNEL_X11_OPEN}
      then Some (c, s)
      else do {
        (data, rest) \<leftarrow> get_str pay;
        if rest \<noteq> [] then None
        else
          let win_len = length data + (if datagram c then 4 else 0)
          in if ostate c \<noteq> CHAN_OUTPUT_OPEN
             then Some (c\<lparr>local_window := local_window c - word_of_nat win_len,
                          local_consumed := local_consumed c + word_of_nat win_len\<rparr>, s)
             else if win_len > unat (local_maxpacket c) \<or> win_len > unat (local_window c) then Some (c, s)
             else do {
               out \<leftarrow> buf_put (c_output c) (if datagram c then put_str data else data);
               Some (c\<lparr>local_window := local_window c - word_of_nat win_len, c_output := out\<rparr>, s)}})"

definition channel_input_extended_data :: "byte list \<Rightarrow> channel \<Rightarrow> ssh \<Rightarrow> (channel \<times> ssh) option" where
  "channel_input_extended_data pay c s =
     (if c_type c \<noteq> SSH_CHANNEL_OPEN then Some (c, s)
      else if CHAN_EOF_RCVD \<in> flags c \<and> SSH_BUG_EXTEOF \<notin> datafellows s then None
      else do {
        (tcode, pay) \<leftarrow> get_u32 pay;
        if efd c = - 1 \<or> extended_usage c \<noteq> CHAN_EXTENDED_WRITE \<or> tcode \<noteq> 1 then Some (c, s)
        else do {
          (data, rest) \<leftarrow> get_str pay;
          if rest \<noteq> [] then None
          else if length data > unat (local_window c) then Some (c, s)
          else Some (c\<lparr>c_extended := (case buf_put (c_extended c) data of Some e \<Rightarrow> e | None \<Rightarrow> c_extended c),
                       local_window := local_window c - word_of_nat (length data)\<rparr>, s)}})"

definition channel_input_ieof :: "byte list \<Rightarrow> channel \<Rightarrow> ssh \<Rightarrow> (channel \<times> ssh) option" where
  "channel_input_ieof pay c s =
     (if pay \<noteq> [] then None
      else do {
        (c, s) \<leftarrow> chan_rcvd_ieof c s;
        if force_drain c \<and> istate c = CHAN_INPUT_OPEN then
          let c = c\<lparr>istate := CHAN_INPUT_WAIT_DRAIN\<rparr>
          in if length (c_input c) = 0 then chan_ibuf_empty c s else Some (c, s)
        else Some (c, s)})"

definition channel_input_oclose :: "byte list \<Rightarrow> channel \<Rightarrow> ssh \<Rightarrow> (channel \<times> ssh) option" where
  "channel_input_oclose pay c s = (if pay \<noteq> [] then None else chan_rcvd_oclose c s)"

definition channel_input_window_adjust :: "byte list \<Rightarrow> channel \<Rightarrow> ssh \<Rightarrow> (channel \<times> ssh) option" where
  "channel_input_window_adjust pay c s =
     do {(adjust, rest) \<leftarrow> get_u32 pay;
         if rest \<noteq> [] then None
         else if remote_window c + adjust < remote_window c then None
         else Some (c\<lparr>remote_window := remote_window c + adjust\<rparr>, s)}"

text \<open>
  \<^verbatim>\<open>client_input_channel_req\<close> for a channel that belongs to no multiplexing client; \<open>session\<close> says
  whether it is the client's own session. C strings end at the first zero byte.
\<close>

definition is_request :: "byte list \<Rightarrow> string \<Rightarrow> bool" where
  "is_request rtype t \<longleftrightarrow> takeWhile (\<lambda>b. b \<noteq> 0) rtype = map of_char t"

definition client_input_channel_req :: "bool \<Rightarrow> byte list \<Rightarrow> channel \<Rightarrow> ssh \<Rightarrow> (channel \<times> ssh) option" where
  "client_input_channel_req session pay c s =
     do {(rtype, pay) \<leftarrow> get_str pay;
         case pay of
           [] \<Rightarrow> None
         | reply # pay \<Rightarrow> do {
             (success, c, s) \<leftarrow>
               (if is_request rtype ''eow@openssh.com'' then
                  if pay \<noteq> [] then None else map_option (Pair False) (chan_rcvd_eow c s)
                else if is_request rtype ''exit-status'' then do {
                  (exitval, pay) \<leftarrow> get_u32 pay;
                  if pay \<noteq> [] then None
                  else Some (session, c, if session then s\<lparr>exit_status := Some exitval\<rparr> else s)}
                else Some (False, c, s));
             if reply \<noteq> 0 \<and> CHAN_CLOSE_SENT \<notin> flags c then
               if \<not> have_remote_id c then None else map_option (Pair c) (sshpkt (Status (remote_id c) success) s)
             else Some (c, s)}}"

text \<open>\<^verbatim>\<open>channel_input_status_confirm\<close> for a channel on which no confirmation is awaited.\<close>

definition channel_input_status_confirm :: "byte list \<Rightarrow> channel \<Rightarrow> ssh \<Rightarrow> (channel \<times> ssh) option" where
  "channel_input_status_confirm pay c s = (if pay \<noteq> [] then None else Some (c, s))"

text \<open>What the senders put behind the channel number, and the functions registered for the messages.\<close>

fun payload :: "packet \<Rightarrow> byte list" where
  "payload (Data _ d) = put_str d"
| "payload (Extended_data _ code d) = POKE_U32 code @ put_str d"
| "payload (Eof _) = []"
| "payload (Close _) = []"
| "payload (Window_adjust _ n) = POKE_U32 n"
| "payload (Request _ t reply) = put_str (map of_char t) @ [of_bool reply]"
| "payload (Status _ _) = []"

fun channel_input :: "packet \<Rightarrow> byte list \<Rightarrow> channel \<Rightarrow> ssh \<Rightarrow> (channel \<times> ssh) option" where
  "channel_input (Data _ _) = channel_input_data"
| "channel_input (Extended_data _ _ _) = channel_input_extended_data"
| "channel_input (Eof _) = channel_input_ieof"
| "channel_input (Close _) = channel_input_oclose"
| "channel_input (Window_adjust _ _) = channel_input_window_adjust"
| "channel_input (Request _ _ _) = client_input_channel_req False"
| "channel_input (Status _ _) = channel_input_status_confirm"

lemma get_str_put_str [simp]:
  assumes "length d \<le> BUF_MAX - 4"
  shows "get_str (put_str d @ rest) = Some (d, rest)"
proof -
  have "unat (word_of_nat (length d) :: u32) = length d" using assms by (simp add: unat_of_nat)
  moreover have "length (POKE_U32 v) = 4" for v by (simp add: POKE_U32_def)
  ultimately show ?thesis using assms by (simp add: get_str_def put_str_def Let_def)
qed

lemma get_u32_POKE [simp]: "get_u32 (POKE_U32 v @ rest) = Some (v, rest)"
proof -
  have "length (POKE_U32 v) = 4" by (simp add: POKE_U32_def)
  then show ?thesis by (simp add: get_u32_def)
qed

end
