(* ===== verification/Chan_Protocol.thy ===== *)
theory Chan_Protocol
  imports Prelude "HOL-Library.Sublist"
begin

text \<open>
  What the channels of \<^verbatim>\<open>channels.c\<close> and \<^verbatim>\<open>nchan.c\<close> promise, without their code: two peers that
  exchange messages over two ordered streams. Each peer has a half that takes bytes from a local
  descriptor and sends them, and a half that gives the bytes it receives to a local descriptor,
  with the windows that limit what may be under way. The steps of a peer are an inductive relation; the theory
  \<open>Channel_Pair\<close> shows that the code takes no others.

  The facts proved here are the invariants of a pair of peers: no message after CLOSE, no data
  after EOF, windows that agree, bytes delivered in order and not lost; and that every step other than reading new
  bytes makes a measure smaller.
\<close>

subsection \<open>Peers\<close>

datatype half = Open | Drain | Closed

datatype msg = MData "byte list" | MEof | MClose | MAdjust nat | MEow

record peer =
  p_in :: half
  p_out :: half
  inq :: "byte list"
  outq :: "byte list"
  rwin :: nat
  rpkt :: nat
  lwin :: nat
  lmax :: nat
  lpkt :: nat
  credit :: nat
  log :: "msg list"
  got :: nat
  close_rcvd :: bool
  taken :: "byte list"
  given :: "byte list"
  broken :: bool

text \<open>
  What a peer does on its own: read from its descriptor, notice its end, send data, EOF and CLOSE,
  write to its descriptor or fail to, close that half when all is written, and grant window.
\<close>

inductive lstep :: "peer \<Rightarrow> peer \<Rightarrow> bool" where
  reads: "p_in p = Open \<Longrightarrow> bs \<noteq> [] \<Longrightarrow> lstep p (p\<lparr>inq := inq p @ bs, taken := taken p @ bs\<rparr>)"
| read_end: "p_in p = Open \<Longrightarrow> lstep p (p\<lparr>p_in := Drain\<rparr>)"
| send_data: "p_in p \<noteq> Closed \<Longrightarrow> 0 < n \<Longrightarrow> n \<le> length (inq p) \<Longrightarrow> n \<le> rwin p \<Longrightarrow> n \<le> rpkt p \<Longrightarrow>
    lstep p (p\<lparr>inq := drop n (inq p), rwin := rwin p - n, log := log p @ [MData (take n (inq p))]\<rparr>)"
| send_eof: "p_in p = Drain \<Longrightarrow> inq p = [] \<Longrightarrow> lstep p (p\<lparr>p_in := Closed, log := log p @ [MEof]\<rparr>)"
| writes: "p_out p \<noteq> Closed \<Longrightarrow> 0 < n \<Longrightarrow> n \<le> length (outq p) \<Longrightarrow>
    lstep p (p\<lparr>outq := drop n (outq p), given := given p @ take n (outq p), credit := credit p + n\<rparr>)"
| write_fails: "p_out p \<noteq> Closed \<Longrightarrow> ms = [] \<or> ms = [MEow] \<Longrightarrow>
    lstep p (p\<lparr>outq := [], p_out := Closed, broken := True, log := log p @ ms\<rparr>)"
| drained: "p_out p = Drain \<Longrightarrow> outq p = [] \<Longrightarrow> lstep p (p\<lparr>p_out := Closed\<rparr>)"
| adjust: "0 < credit p \<Longrightarrow> \<not> close_rcvd p \<Longrightarrow> MClose \<notin> set (log p) \<Longrightarrow>
    lstep p (p\<lparr>lwin := lwin p + credit p, credit := 0, log := log p @ [MAdjust (credit p)]\<rparr>)"
| send_close: "p_in p = Closed \<Longrightarrow> p_out p = Closed \<Longrightarrow> MClose \<notin> set (log p) \<Longrightarrow>
    lstep p (p\<lparr>log := log p @ [MClose]\<rparr>)"

text \<open>What the next message of the other peer does.\<close>

definition shut_out :: "peer \<Rightarrow> peer" where
  "shut_out p = (if p_out p = Open then p\<lparr>p_out := Drain\<rparr> else p)"

definition shut_in :: "peer \<Rightarrow> peer" where
  "shut_in p = (case p_in p of Open \<Rightarrow> p\<lparr>p_in := Closed\<rparr>
     | Drain \<Rightarrow> p\<lparr>p_in := Closed, log := log p @ [MEof]\<rparr> | Closed \<Rightarrow> p)"

fun receive :: "msg \<Rightarrow> peer \<Rightarrow> peer" where
  "receive (MData bs) p =
     (if p_out p = Open then p\<lparr>outq := outq p @ bs, lwin := lwin p - length bs\<rparr>
      else p\<lparr>lwin := lwin p - length bs, credit := credit p + length bs\<rparr>)"
| "receive MEof p = shut_out p"
| "receive MClose p = shut_in (shut_out (p\<lparr>close_rcvd := True\<rparr>))"
| "receive (MAdjust n) p = p\<lparr>rwin := rwin p + n\<rparr>"
| "receive MEow p = (if p_in p = Open then p\<lparr>p_in := Closed\<rparr> else p)"

inductive pstep :: "peer \<times> peer \<Rightarrow> peer \<times> peer \<Rightarrow> bool" where
  local_step: "lstep p p' \<Longrightarrow> pstep (p, q) (p', q)"
| deliver: "got p < length (log q) \<Longrightarrow> pstep (p, q) (receive (log q ! got p) (p\<lparr>got := Suc (got p)\<rparr>), q)"
| swap: "pstep (q, p) (q', p') \<Longrightarrow> pstep (p, q) (p', q')"

inductive_cases pstep_cases: "pstep (p, q) r"

subsection \<open>Messages in order\<close>

fun legal :: "msg list \<Rightarrow> bool" where
  "legal [] = True"
| "legal (MClose # ms) = (ms = [])"
| "legal (MEof # ms) = (legal ms \<and> MEof \<notin> set ms \<and> (\<forall>bs. MData bs \<notin> set ms))"
| "legal (_ # ms) = legal ms"

fun datas :: "msg list \<Rightarrow> byte list" where
  "datas [] = []"
| "datas (MData bs # ms) = bs @ datas ms"
| "datas (_ # ms) = datas ms"

fun grants :: "msg list \<Rightarrow> nat" where
  "grants [] = 0"
| "grants (MAdjust n # ms) = n + grants ms"
| "grants (_ # ms) = grants ms"

lemma legal_snoc:
  "legal (ms @ [m]) \<longleftrightarrow> legal ms \<and> MClose \<notin> set ms \<and> (MEof \<in> set ms \<longrightarrow> m \<noteq> MEof \<and> (\<forall>bs. m \<noteq> MData bs))"
  by (induction ms rule: legal.induct) (cases m; auto)+

lemma datas_append [simp]: "datas (ms @ ns) = datas ms @ datas ns"
  by (induction ms rule: datas.induct) simp_all

lemma grants_append [simp]: "grants (ms @ ns) = grants ms + grants ns"
  by (induction ms rule: grants.induct) simp_all

text \<open>Behind an EOF or a CLOSE there is no data; behind a CLOSE there is nothing.\<close>

lemma legal_no_data: "legal (ms @ ns) \<Longrightarrow> MEof \<in> set ms \<or> MClose \<in> set ms \<Longrightarrow> datas ns = []"
proof (induction ms rule: legal.induct)
  case (3 ms)
  have "(\<forall>bs. MData bs \<notin> set ns) \<Longrightarrow> datas ns = []" by (induction ns rule: datas.induct) auto
  with 3 show ?case by auto
qed auto

lemma legal_close_last: "legal (ms @ ns) \<Longrightarrow> MClose \<in> set ms \<Longrightarrow> ns = []"
  by (induction ms rule: legal.induct) auto

lemma legal_nth:
  "legal ms \<Longrightarrow> i < j \<Longrightarrow> j < length ms \<Longrightarrow>
   ms ! i \<noteq> MClose \<and> (ms ! i = MEof \<longrightarrow> ms ! j \<noteq> MEof \<and> (\<forall>bs. ms ! j \<noteq> MData bs))"
proof (induction ms arbitrary: i j rule: legal.induct)
  case (3 ms)
  then show ?case by (cases i; cases j) (auto dest: nth_mem)
qed (auto simp: nth_Cons split: nat.splits)

lemma legal_no_eof: "legal (ms @ m # ns) \<Longrightarrow> m = MEof \<Longrightarrow> MEof \<notin> set ms \<and> MClose \<notin> set ms"
  by (induction ms rule: legal.induct) auto

subsection \<open>Invariants\<close>

text \<open>One peer.\<close>

definition linv :: "peer \<Rightarrow> bool" where
  "linv p \<longleftrightarrow> legal (log p) \<and> (MEof \<in> set (log p) \<longrightarrow> p_in p = Closed)
     \<and> (MClose \<in> set (log p) \<longrightarrow> p_in p = Closed \<and> p_out p = Closed)
     \<and> (p_out p = Closed \<longrightarrow> outq p = [])
     \<and> lwin p + credit p + length (outq p) \<le> lmax p
     \<and> (\<not> broken p \<longrightarrow> lwin p + credit p + length (outq p) = lmax p)
     \<and> (close_rcvd p \<longrightarrow> p_in p = Closed \<and> p_out p \<noteq> Open)
     \<and> (MEow \<in> set (log p) \<longrightarrow> broken p) \<and> (broken p \<longrightarrow> p_out p = Closed)"

text \<open>From the peer \<open>p\<close> to the peer \<open>q\<close>: the messages under way, and those that arrived.\<close>

definition under_way :: "peer \<Rightarrow> peer \<Rightarrow> msg list" where
  "under_way p q = drop (got q) (log p)"

definition arrived :: "peer \<Rightarrow> peer \<Rightarrow> msg set" where
  "arrived p q = set (take (got q) (log p))"

text \<open>The windows agree, up to what is under way.\<close>

definition dwin :: "peer \<Rightarrow> peer \<Rightarrow> bool" where
  "dwin p q \<longleftrightarrow> got q \<le> length (log p)
     \<and> rwin p + length (datas (under_way p q)) + grants (under_way q p) = lwin q
     \<and> rpkt p = lpkt q \<and> (\<forall>bs. MData bs \<in> set (under_way p q) \<longrightarrow> bs \<noteq> [] \<and> length bs \<le> lpkt q)"

text \<open>The halves follow the messages.\<close>

definition dclose :: "peer \<Rightarrow> peer \<Rightarrow> bool" where
  "dclose p q \<longleftrightarrow> (close_rcvd q \<longleftrightarrow> MClose \<in> arrived p q)
     \<and> (MEof \<in> arrived p q \<or> MClose \<in> arrived p q \<longrightarrow> p_out q \<noteq> Open)
     \<and> (p_out q \<noteq> Open \<longrightarrow> broken q \<or> MEof \<in> arrived p q \<or> MClose \<in> arrived p q)
     \<and> (p_in p = Closed \<longrightarrow> MEof \<in> set (log p) \<or> MClose \<in> arrived q p \<or> MEow \<in> arrived q p)"

text \<open>The bytes arrive in order, and all of them if nothing fails.\<close>

definition ddata :: "peer \<Rightarrow> peer \<Rightarrow> bool" where
  "ddata p q \<longleftrightarrow> prefix (given q) (taken p)
     \<and> (\<not> broken q \<longrightarrow> given q @ outq q @ datas (under_way p q) @ inq p = taken p)
     \<and> (\<not> broken p \<and> \<not> broken q \<and> p_in p = Closed \<longrightarrow> inq p = [] \<and> MEof \<in> set (log p))"

definition dinv :: "peer \<Rightarrow> peer \<Rightarrow> bool" where
  "dinv p q \<longleftrightarrow> dwin p q \<and> dclose p q \<and> ddata p q"

definition pinv :: "peer \<times> peer \<Rightarrow> bool" where
  "pinv s \<longleftrightarrow> (case s of (p, q) \<Rightarrow> linv p \<and> linv q \<and> dinv p q \<and> dinv q p)"

lemma pinv_swap: "pinv (p, q) = pinv (q, p)"
  by (auto simp: pinv_def)

lemma linv_lstep: "lstep p p' \<Longrightarrow> linv p \<Longrightarrow> linv p'"
  by (induction rule: lstep.induct) (auto simp: linv_def legal_snoc)

lemma drop_snoc [simp]: "n \<le> length ms \<Longrightarrow> drop n (ms @ ns) = drop n ms @ ns"
  by simp

lemma take_snoc [simp]: "n \<le> length ms \<Longrightarrow> take n (ms @ ns) = take n ms"
  by simp

lemmas pair_defs = under_way_def arrived_def

lemma dwin_lstep:
  "lstep p p' \<Longrightarrow> dwin p q \<Longrightarrow> dwin q p \<Longrightarrow> dwin p' q"
  "lstep p p' \<Longrightarrow> dwin p q \<Longrightarrow> dwin q p \<Longrightarrow> dwin q p'"
  by (induction rule: lstep.induct) (auto simp: dwin_def pair_defs)

lemma dclose_lstep:
  "lstep p p' \<Longrightarrow> linv p \<Longrightarrow> dwin p q \<Longrightarrow> dclose p q \<Longrightarrow> dclose p' q"
  "lstep p p' \<Longrightarrow> linv p \<Longrightarrow> dwin p q \<Longrightarrow> dclose q p \<Longrightarrow> dclose q p'"
  by (induction rule: lstep.induct) (auto simp: dclose_def dwin_def linv_def pair_defs)

lemma ddata_lstep_sender: "lstep p p' \<Longrightarrow> linv p \<Longrightarrow> dwin p q \<Longrightarrow> ddata p q \<Longrightarrow> ddata p' q"
proof (induction rule: lstep.induct)
  case (reads p bs)
  then show ?case by (auto simp: ddata_def dwin_def pair_defs prefix_def)
next
  case (send_data p n)
  then show ?case by (simp add: ddata_def dwin_def pair_defs)
next
  case (write_fails p ms)
  then show ?case by (auto simp: ddata_def dwin_def pair_defs)
qed (simp_all add: ddata_def dwin_def linv_def pair_defs)

lemma ddata_lstep_receiver: "lstep p p' \<Longrightarrow> linv p \<Longrightarrow> dwin p q \<Longrightarrow> ddata q p \<Longrightarrow> ddata q p'"
proof (induction rule: lstep.induct)
  case (writes p n)
  then have "taken q = given p @ outq p @ datas (drop (got p) (log q)) @ inq q"
    by (auto simp: ddata_def pair_defs linv_def)
  moreover have "outq p = take n (outq p) @ drop n (outq p)" by simp
  ultimately have eq: "taken q = (given p @ take n (outq p)) @ drop n (outq p) @ datas (drop (got p) (log q)) @ inq q"
    by (metis append.assoc)
  then have "prefix (given p @ take n (outq p)) (taken q)" by (rule prefixI)
  moreover have "given p @ take n (outq p) @ drop n (outq p) @ datas (drop (got p) (log q)) @ inq q = taken q"
    using eq by (simp only: append.assoc)
  ultimately show ?case using writes(6) unfolding ddata_def pair_defs by simp
qed (simp_all add: ddata_def pair_defs)

text \<open>The next message of \<open>q\<close> is \<open>m\<close>; \<open>ms\<close> have arrived.\<close>

lemma linv_receive:
  assumes "linv p" "dwin q p" "dclose q p" and m: "log q = ms @ m # ns" "got p = length ms" and q: "linv q"
  shows "linv (receive m (p\<lparr>got := Suc (got p)\<rparr>))"
proof (cases m)
  case (MData bs)
  then have "length bs \<le> lwin p" using assms(2) m by (simp add: dwin_def pair_defs)
  with MData assms(1) show ?thesis by (auto simp: linv_def)
next
  case MEof
  with assms(1) show ?thesis by (auto simp: linv_def shut_out_def)
next
  case MClose
  with assms(1) show ?thesis by (cases "p_in p") (auto simp: linv_def shut_out_def shut_in_def legal_snoc)
next
  case (MAdjust n)
  with assms(1) show ?thesis by (simp add: linv_def)
next
  case MEow
  with assms(1) show ?thesis by (auto simp: linv_def)
qed


lemma dwin_receive:
  assumes "dwin q p" "dwin p q" and m: "log q = ms @ m # ns" "got p = length ms"
  shows "dwin q (receive m (p\<lparr>got := Suc (got p)\<rparr>))" "dwin (receive m (p\<lparr>got := Suc (got p)\<rparr>)) q"
proof -
  have "dwin q (receive m (p\<lparr>got := Suc (got p)\<rparr>)) \<and> dwin (receive m (p\<lparr>got := Suc (got p)\<rparr>)) q"
  proof (cases m)
    case MClose
    with assms show ?thesis by (cases "p_in p"; auto simp: dwin_def pair_defs shut_out_def shut_in_def)
  qed (use assms in \<open>auto simp: dwin_def pair_defs shut_out_def\<close>)
  then show "dwin q (receive m (p\<lparr>got := Suc (got p)\<rparr>))" "dwin (receive m (p\<lparr>got := Suc (got p)\<rparr>)) q" by simp_all
qed

lemma dclose_receive:
  assumes "linv p" "linv q" "dwin q p" "dwin p q" "dclose q p" "dclose p q" and m: "log q = ms @ m # ns" "got p = length ms"
  shows "dclose q (receive m (p\<lparr>got := Suc (got p)\<rparr>)) \<and> dclose (receive m (p\<lparr>got := Suc (got p)\<rparr>)) q"
proof (cases m)
  case MClose
  with assms show ?thesis by (cases "p_in p"; auto simp: dclose_def dwin_def pair_defs shut_out_def shut_in_def)
next
  case MEof
  with assms show ?thesis by (auto simp: dclose_def pair_defs shut_out_def)
next
  case (MData bs)
  with assms show ?thesis by (auto simp: dclose_def pair_defs)
next
  case (MAdjust n)
  with assms show ?thesis by (auto simp: dclose_def pair_defs)
next
  case MEow
  with assms show ?thesis by (auto simp: dclose_def pair_defs)
qed

lemma ddata_receive_receiver:
  assumes "linv p" "linv q" "dwin q p" "dclose q p" "ddata q p" and m: "log q = ms @ m # ns" "got p = length ms"
  shows "ddata q (receive m (p\<lparr>got := Suc (got p)\<rparr>))"
proof (cases m)
  case (MData bs)
  have "broken p" if "p_out p \<noteq> Open"
  proof (rule ccontr)
    assume "\<not> broken p"
    with that assms(4) m have "MEof \<in> set ms \<or> MClose \<in> set ms" by (auto simp: dclose_def pair_defs)
    moreover have "legal (ms @ m # ns)" using assms(2) m by (simp add: linv_def)
    ultimately have "datas (m # ns) = []" by (metis legal_no_data)
    with MData assms(3) m show False by (simp add: dwin_def pair_defs)
  qed
  with MData assms(5) m show ?thesis by (auto simp: ddata_def pair_defs)
next
  case MClose
  with assms show ?thesis by (cases "p_in p"; auto simp: ddata_def pair_defs shut_out_def shut_in_def)
qed (use assms in \<open>auto simp: ddata_def pair_defs shut_out_def\<close>)

lemma arrived_sub: "arrived p q \<subseteq> set (log p)"
  by (auto simp: arrived_def dest: in_set_takeD)

text \<open>A CLOSE or EOW can only cut off input when a descriptor has failed.\<close>

lemma close_after_eof:
  assumes "linv p" "linv q" "dclose p q" "\<not> broken q" "MClose \<in> set (log q)"
  shows "p_in p = Closed"
  using assms arrived_sub [of p q] by (auto simp: linv_def dclose_def)

lemma ddata_receive_sender:
  assumes "linv p" "linv q" "dwin p q" "dclose p q" "ddata p q" and m: "log q = ms @ m # ns" "got p = length ms"
  shows "ddata (receive m (p\<lparr>got := Suc (got p)\<rparr>)) q"
proof (cases m)
  case MClose
  then have "p_in p = Closed \<or> broken q" using close_after_eof [OF assms(1,2,4)] m by auto
  with MClose assms(3,5) show ?thesis
    by (cases "p_in p"; auto simp: ddata_def dwin_def pair_defs shut_out_def shut_in_def)
next
  case MEow
  then have "broken q" using assms(2) m by (simp add: linv_def)
  with MEow assms(5) show ?thesis by (simp add: ddata_def)
qed (use assms(5) in \<open>auto simp: ddata_def pair_defs shut_out_def\<close>)

lemma pinv_pstep: "pstep s s' \<Longrightarrow> pinv s \<Longrightarrow> pinv s'"
proof (induction rule: pstep.induct)
  case (local_step p p' q)
  then show ?case
    unfolding pinv_def dinv_def prod.case
    using linv_lstep dwin_lstep dclose_lstep ddata_lstep_sender ddata_lstep_receiver by meson
next
  case (deliver p q)
  let ?m = "log q ! got p" and ?ms = "take (got p) (log q)"
  have m: "log q = ?ms @ ?m # drop (Suc (got p)) (log q)" "got p = length ?ms"
    using deliver(1) by (simp_all add: id_take_nth_drop [symmetric])
  from deliver(2) have i: "linv p" "linv q" "dwin p q" "dclose p q" "ddata p q" "dwin q p" "dclose q p" "ddata q p"
    by (simp_all add: pinv_def dinv_def)
  show ?case
    unfolding pinv_def dinv_def prod.case
    using linv_receive [OF i(1,6,7) m i(2)] dwin_receive [OF i(6,3) m] dclose_receive [OF i(1,2,6,3,7,4) m]
      ddata_receive_receiver [OF i(1,2,6,7,8) m] ddata_receive_sender [OF i(1-5) m] i(2) by blast
next
  case (swap q p q' p')
  then show ?case by (simp add: pinv_swap)
qed
subsection \<open>Only reading goes on for ever\<close>

fun rank :: "half \<Rightarrow> nat" where
  "rank Open = 2"
| "rank Drain = 1"
| "rank Closed = 0"

definition load :: "peer \<Rightarrow> peer \<Rightarrow> nat" where
  "load p q = 3 * length (inq p) + 2 * length (datas (under_way p q)) + length (outq q)"

definition stage :: "peer \<Rightarrow> nat" where
  "stage p = rank (p_in p) + rank (p_out p) + (if MClose \<in> set (log p) then 0 else 1)"

definition owes :: "peer \<Rightarrow> nat" where
  "owes p = (if credit p = 0 then 0 else 1)"

definition pless :: "((peer \<times> peer) \<times> (peer \<times> peer)) set" where
  "pless = measures [\<lambda>(p, q). load p q + load q p, \<lambda>(p, q). stage p + stage q, \<lambda>(p, q). owes p + owes q,
     \<lambda>(p, q). length (under_way p q) + length (under_way q p)]"

lemma wf_pless: "wf pless"
  by (simp add: pless_def)

lemma pless_swap: "((p', q'), (p, q)) \<in> pless \<longleftrightarrow> ((q', p'), (q, p)) \<in> pless"
  by (simp add: pless_def add.commute)

lemma trans_pless: "trans pless"
  unfolding pless_def by (auto intro!: transI)

lemma pless_load: "load p' q' + load q' p' < load p q + load q p \<Longrightarrow> ((p', q'), (p, q)) \<in> pless"
  by (simp add: pless_def)

lemma pless_stage:
  "load p' q' + load q' p' \<le> load p q + load q p \<Longrightarrow> stage p' + stage q' < stage p + stage q \<Longrightarrow> ((p', q'), (p, q)) \<in> pless"
  by (auto simp: pless_def)

lemma pless_owes:
  "load p' q' + load q' p' = load p q + load q p \<Longrightarrow> stage p' + stage q' = stage p + stage q \<Longrightarrow>
   owes p' + owes q' < owes p + owes q \<Longrightarrow> ((p', q'), (p, q)) \<in> pless"
  by (auto simp: pless_def)

lemma pless_way:
  "load p' q' + load q' p' = load p q + load q p \<Longrightarrow> stage p' + stage q' \<le> stage p + stage q \<Longrightarrow>
   owes p' + owes q' = owes p + owes q \<Longrightarrow>
   length (under_way p' q') + length (under_way q' p') < length (under_way p q) + length (under_way q p) \<Longrightarrow>
   ((p', q'), (p, q)) \<in> pless"
  by (auto simp: pless_def)

lemma rank_pos: "h \<noteq> Closed \<Longrightarrow> 0 < rank h"
  by (cases h) simp_all

text \<open>What a peer does is not undone.\<close>

lemma lsteps_mono:
  assumes "lstep\<^sup>*\<^sup>* p p'"
  shows "rank (p_in p') \<le> rank (p_in p) \<and> rank (p_out p') \<le> rank (p_out p) \<and> prefix (log p) (log p')
    \<and> prefix (taken p) (taken p') \<and> prefix (given p) (given p') \<and> close_rcvd p' = close_rcvd p"
  using assms
proof (induction rule: rtranclp_induct)
  case (step p' p'')
  from step(2) have "rank (p_in p'') \<le> rank (p_in p') \<and> rank (p_out p'') \<le> rank (p_out p') \<and> prefix (log p') (log p'')
    \<and> prefix (taken p') (taken p'') \<and> prefix (given p') (given p'') \<and> close_rcvd p'' = close_rcvd p'"
    by cases simp_all
  with step(3) show ?case by (meson le_trans prefix_order.trans)
qed simp

lemma lstep_less:
  assumes "lstep p p'" "got q \<le> length (log p)" "taken p' = taken p"
  shows "((p', q), (p, q)) \<in> pless"
  using assms
proof (induction rule: lstep.induct)
  case (send_data p n)
  then show ?case by (intro pless_load) (simp add: load_def pair_defs)
next
  case (writes p n)
  then show ?case by (intro pless_load) (simp add: load_def pair_defs)
next
  case (write_fails p ms)
  then have "datas ms = []" "rank (p_out p) > 0" by (auto simp: rank_pos)
  with write_fails show ?case by (intro pless_stage) (auto simp: load_def stage_def pair_defs)
next
  case (adjust p)
  then show ?case by (intro pless_owes) (simp_all add: load_def stage_def owes_def pair_defs)
qed (simp, (intro pless_stage; simp add: load_def stage_def pair_defs)+)

lemma deliver_less:
  assumes "dwin q p" "got q \<le> length (log p)" and m: "log q = ms @ m # ns" "got p = length ms"
  shows "((receive m (p\<lparr>got := Suc (got p)\<rparr>), q), (p, q)) \<in> pless"
proof (cases m)
  case (MData bs)
  then have "bs \<noteq> []" using assms(1) m by (simp add: dwin_def pair_defs)
  with MData m assms(2) show ?thesis by (intro pless_load) (simp add: load_def pair_defs)
next
  case MEof
  with m show ?thesis
    by (intro pless_way) (simp_all add: load_def stage_def owes_def pair_defs shut_out_def)
next
  case MClose
  show ?thesis
  proof (cases "p_in p = Drain")
    case True
    with MClose m assms(2) show ?thesis
      by (intro pless_stage) (auto simp: load_def stage_def pair_defs shut_in_def shut_out_def)
  next
    case False
    with MClose m show ?thesis
      by (cases "p_in p"; intro pless_way) (auto simp: load_def stage_def owes_def pair_defs shut_in_def shut_out_def)
  qed
next
  case (MAdjust n)
  with m show ?thesis by (intro pless_way) (simp_all add: load_def stage_def owes_def pair_defs)
next
  case MEow
  with m show ?thesis by (intro pless_way) (simp_all add: load_def stage_def owes_def pair_defs)
qed
end
