(* ===== verification/Channel_Steps.thy ===== *)
theory Channel_Steps
  imports Channels Chan_Protocol
begin

text \<open>
  The operations of a channel take the steps of a peer. A channel together with its connection is
  read as a peer of the theory \<open>Chan_Protocol\<close>; each function of \<^verbatim>\<open>nchan.c\<close> and each function of the data
  path is shown to return, and to do what a sequence of steps of the peer does.
\<close>

subsection \<open>Who reads\<close>

text \<open>Only \<^verbatim>\<open>channel_handle_rfd\<close> and \<^verbatim>\<open>channel_handle_efd_read\<close> take bytes from a descriptor.\<close>

lemma nchan_was_read:
  "sshpkt p s = Some s' \<Longrightarrow> was_read s' = was_read s"
  "chan_shutdown_read c s = (c', s') \<Longrightarrow> was_read s' = was_read s"
  "chan_shutdown_write c s = (c', s') \<Longrightarrow> was_read s' = was_read s"
  "chan_shutdown_extended_read c s = (c', s') \<Longrightarrow> was_read s' = was_read s"
  by (auto simp: sshpkt_def chan_shutdown_read_def chan_shutdown_write_def chan_shutdown_extended_read_def
      channel_close_fd_def Let_def split: if_splits)

lemma send_was_read:
  "chan_send_eof2 c s = Some (c', s') \<Longrightarrow> was_read s' = was_read s"
  "chan_send_close2 c s = Some (c', s') \<Longrightarrow> was_read s' = was_read s"
  "chan_send_eow2 c s = Some s' \<Longrightarrow> was_read s' = was_read s"
  by (auto simp: chan_send_eof2_def chan_send_close2_def chan_send_eow2_def split: if_splits Option.bind_splits dest!: nchan_was_read)

lemma event_was_read:
  "chan_read_failed c s = Some (c', s') \<Longrightarrow> was_read s' = was_read s"
  "chan_ibuf_empty c s = Some (c', s') \<Longrightarrow> was_read s' = was_read s"
  "chan_obuf_empty c s = Some (c', s') \<Longrightarrow> was_read s' = was_read s"
  "chan_rcvd_eow c s = Some (c', s') \<Longrightarrow> was_read s' = was_read s"
  "chan_write_failed c s = Some (c', s') \<Longrightarrow> was_read s' = was_read s"
  by (auto simp: chan_read_failed_def chan_ibuf_empty_def chan_obuf_empty_def chan_rcvd_eow_def chan_write_failed_def
      split: if_splits Option.bind_splits prod.splits dest!: nchan_was_read send_was_read)

lemma event2_was_read:
  "chan_rcvd_ieof c s = Some (c', s') \<Longrightarrow> was_read s' = was_read s"
  "chan_rcvd_oclose c s = Some (c', s') \<Longrightarrow> was_read s' = was_read s"
  "chan_is_dead b c s = Some (d, c', s') \<Longrightarrow> was_read s' = was_read s"
  subgoal by (auto simp: chan_rcvd_ieof_def Let_def split: if_splits Option.bind_splits dest!: event_was_read)
  subgoal by (auto simp: chan_rcvd_oclose_def Let_def split: if_splits Option.bind_splits prod.splits dest!: nchan_was_read send_was_read)
  subgoal by (auto simp: chan_is_dead_def split: if_splits Option.bind_splits dest!: send_was_read)
  done

lemma poll_was_read: "channel_output_poll c s = Some (c', s') \<Longrightarrow> was_read s' = was_read s"
proof -
  have opn: "channel_output_poll_input_open c s = Some (c', s') \<Longrightarrow> was_read s' = was_read s" for c c' :: channel and s s'
    by (auto simp: channel_output_poll_input_open_def Let_def split: if_splits Option.bind_splits
        dest!: nchan_was_read event_was_read)
  have ext: "channel_output_poll_extended_read c s = Some (c', s') \<Longrightarrow> was_read s' = was_read s" for c c' :: channel and s s'
    by (auto simp: channel_output_poll_extended_read_def Let_def split: if_splits Option.bind_splits dest!: nchan_was_read)
  assume "channel_output_poll c s = Some (c', s')"
  then show ?thesis by (auto simp: channel_output_poll_def split: if_splits Option.bind_splits dest!: opn ext)
qed

lemma input_was_read: "channel_input m pay c s = Some (c', s') \<Longrightarrow> was_read s' = was_read s"
proof (cases m)
  case (Request i t r)
  assume "channel_input m pay c s = Some (c', s')"
  with Request show ?thesis
    by (auto simp: client_input_channel_req_def split: if_splits Option.bind_splits list.splits dest!: nchan_was_read event_was_read)
qed (auto simp: channel_input_data_def channel_input_extended_data_def channel_input_ieof_def channel_input_oclose_def
    channel_input_window_adjust_def channel_input_status_confirm_def Let_def
    split: if_splits Option.bind_splits dest!: event_was_read event2_was_read)

lemma data_path_was_read:
  "channel_pre_open {} {} c s = Some (R, W, c', s') \<Longrightarrow> was_read s' = was_read s"
  "channel_garbage_collect Pair c s = Some (d, c', s') \<Longrightarrow> was_read s' = was_read s"
  "channel_check_window c s = Some (c', s') \<Longrightarrow> was_read s' = was_read s"
  subgoal by (auto simp: channel_pre_open_def Let_def split: if_splits Option.bind_splits dest!: event_was_read)
  subgoal by (auto simp: channel_garbage_collect_def split: if_splits Option.bind_splits dest!: event2_was_read)
  subgoal by (auto simp: channel_check_window_def split: if_splits Option.bind_splits dest!: nchan_was_read)
  done

lemma rfd_was_read:
  "channel_handle_rfd None R rd c s = Some (x, c', s') \<Longrightarrow> \<not> isatty c \<Longrightarrow> R = {} \<or> rd = Inr [] \<Longrightarrow> was_read s' = was_read s"
  by (auto simp: channel_handle_rfd_def Let_def split: if_splits dest!: event_was_read)

lemma wfd_was_read: "channel_handle_wfd None W wr c s = Some (x, c', s') \<Longrightarrow> was_read s' = was_read s"
  by (auto simp: channel_handle_wfd_def wfd_data_def write_fail_def log_write_def Let_def
      split: if_splits Option.bind_splits sum.splits nat.splits dest!: event_was_read)

subsection \<open>A channel as a peer\<close>

definition half_of :: "u32 \<Rightarrow> half" where
  "half_of w = (if w = 0 then Open else if w = 1 then Drain else Closed)"

fun msg_of :: "packet \<Rightarrow> msg" where
  "msg_of (Data _ bs) = MData bs"
| "msg_of (Extended_data _ _ bs) = MData bs"
| "msg_of (Eof _) = MEof"
| "msg_of (Close _) = MClose"
| "msg_of (Window_adjust _ n) = MAdjust (unat n)"
| "msg_of (Request _ _ _) = MEow"
| "msg_of (Status _ _) = MEow"

definition peer_of :: "bool \<Rightarrow> nat \<Rightarrow> channel \<Rightarrow> ssh \<Rightarrow> peer" where
  "peer_of b g c s =
     \<lparr>p_in = half_of (istate c), p_out = half_of (ostate c), inq = c_input c, outq = c_output c,
      rwin = unat (remote_window c), rpkt = unat (remote_maxpacket c), lwin = unat (local_window c),
      lmax = unat (local_window_max c), lpkt = unat (local_maxpacket c), credit = unat (local_consumed c),
      log = map msg_of (sent s), got = g, close_rcvd = (CHAN_CLOSE_RCVD \<in> flags c),
      taken = concat (map snd (was_read s)), given = concat (map snd (wrote s)), broken = b\<rparr>"

lemma half_of_simps [simp]: "half_of 0 = Open" "half_of 1 = Drain" "half_of 3 = Closed"
  by (simp_all add: half_of_def)

lemma peer_of_sel [simp]:
  "p_in (peer_of b g c s) = half_of (istate c)" "p_out (peer_of b g c s) = half_of (ostate c)"
  "inq (peer_of b g c s) = c_input c" "outq (peer_of b g c s) = c_output c"
  "rwin (peer_of b g c s) = unat (remote_window c)" "rpkt (peer_of b g c s) = unat (remote_maxpacket c)"
  "lwin (peer_of b g c s) = unat (local_window c)" "lmax (peer_of b g c s) = unat (local_window_max c)"
  "lpkt (peer_of b g c s) = unat (local_maxpacket c)" "credit (peer_of b g c s) = unat (local_consumed c)"
  "log (peer_of b g c s) = map msg_of (sent s)" "got (peer_of b g c s) = g"
  "close_rcvd (peer_of b g c s) = (CHAN_CLOSE_RCVD \<in> flags c)"
  "taken (peer_of b g c s) = concat (map snd (was_read s))" "given (peer_of b g c s) = concat (map snd (wrote s))"
  "broken (peer_of b g c s) = b"
  by (simp_all add: peer_of_def)

text \<open>
  A channel between two descriptors, as for a forwarded connection: open, without a third
  descriptor, not a terminal, not for datagrams, no registered user, on a connection that takes every packet.
\<close>

definition plain_packet :: "packet \<Rightarrow> bool" where
  "plain_packet p = (case p of Data _ bs \<Rightarrow> length bs \<le> BUF_MAX - 4 | Extended_data _ _ _ \<Rightarrow> False | Status _ _ \<Rightarrow> False
     | Request _ t r \<Rightarrow> t = ''eow@openssh.com'' \<and> \<not> r | _ \<Rightarrow> True)"

definition plain :: "channel \<Rightarrow> ssh \<Rightarrow> bool" where
  "plain c s \<longleftrightarrow> c_type c = SSH_CHANNEL_OPEN \<and> efd c = - 1 \<and> c_extended c = [] \<and> \<not> datagram c \<and> \<not> isatty c
     \<and> CHAN_LOCAL \<notin> flags c \<and> have_remote_id c \<and> \<not> detach_user c
     \<and> istate c \<in> {0, 1, 3} \<and> ostate c \<in> {0, 1, 3}
     \<and> (istate c = 0 \<longrightarrow> rfd c \<noteq> - 1) \<and> (ostate c \<noteq> 3 \<longrightarrow> wfd c \<noteq> - 1)
     \<and> (CHAN_EOF_SENT \<in> flags c \<longleftrightarrow> MEof \<in> msg_of ` set (sent s))
     \<and> (CHAN_CLOSE_SENT \<in> flags c \<longleftrightarrow> MClose \<in> msg_of ` set (sent s))
     \<and> 2 \<le> local_window_max c \<and> local_window_max c \<le> word_of_nat BUF_MAX
     \<and> 0 < remote_maxpacket c \<and> remote_maxpacket c \<le> word_of_nat (BUF_MAX - 4)
     \<and> send_ok s = (\<lambda>_. True) \<and> (\<forall>p \<in> set (sent s). plain_packet p)"

definition refines :: "bool \<Rightarrow> nat \<Rightarrow> channel \<times> ssh \<Rightarrow> bool \<Rightarrow> channel \<times> ssh \<Rightarrow> bool" where
  "refines b g x b' y = (case x of (c, s) \<Rightarrow> case y of (c', s') \<Rightarrow>
     plain c' s' \<and> lstep\<^sup>*\<^sup>* (peer_of b g c s) (peer_of b' g c' s'))"

lemma refines_step:
  "lstep (peer_of b g c s) p \<Longrightarrow> peer_of b' g c' s' = p \<Longrightarrow> plain c' s' \<Longrightarrow> refines b g (c, s) b' (c', s')"
  by (auto simp: refines_def)

lemma refines_refl [intro]: "plain c s \<Longrightarrow> refines b g (c, s) b (c, s)"
  by (simp add: refines_def)

lemma refines_trans: "refines b g x b' y \<Longrightarrow> refines b' g y b'' z \<Longrightarrow> refines b g x b'' z"
  by (auto simp: refines_def)

lemma half_eq [simp]:
  "plain c s \<Longrightarrow> half_of (istate c) = Open \<longleftrightarrow> istate c = 0" "plain c s \<Longrightarrow> half_of (istate c) = Drain \<longleftrightarrow> istate c = 1"
  "plain c s \<Longrightarrow> half_of (istate c) = Closed \<longleftrightarrow> istate c = 3"
  "plain c s \<Longrightarrow> half_of (ostate c) = Open \<longleftrightarrow> ostate c = 0" "plain c s \<Longrightarrow> half_of (ostate c) = Drain \<longleftrightarrow> ostate c = 1"
  "plain c s \<Longrightarrow> half_of (ostate c) = Closed \<longleftrightarrow> ostate c = 3"
  by (auto simp: plain_def half_of_def)

lemma read_failed_refines:
  assumes "plain c s"
  shows "\<exists>c' s'. chan_read_failed c s = Some (c', s') \<and> refines b g (c, s) b (c', s')"
proof (cases "istate c = 0")
  case True
  let ?p = "peer_of b g c s"
  have "lstep ?p (?p\<lparr>p_in := Drain\<rparr>)" by (rule lstep.read_end) (simp add: True)
  then have st: "lstep\<^sup>*\<^sup>* ?p (?p\<lparr>p_in := Drain\<rparr>)" by blast
  show ?thesis using True assms st
    by (auto simp: chan_read_failed_def chan_shutdown_read_def channel_close_fd_def chan_set_istate_def
        plain_def peer_of_def refines_def)
next
  case False
  with assms show ?thesis by (auto simp: chan_read_failed_def)
qed


lemma linv_channel:
  assumes "plain c s" "linv (peer_of b g c s)"
  shows "CHAN_CLOSE_SENT \<in> flags c \<Longrightarrow> istate c = 3 \<and> ostate c = 3" "CHAN_EOF_SENT \<in> flags c \<Longrightarrow> istate c = 3"
    "ostate c = 3 \<Longrightarrow> c_output c = []" "CHAN_CLOSE_RCVD \<in> flags c \<Longrightarrow> istate c = 3 \<and> ostate c \<noteq> 0"
    "unat (local_window c) + unat (local_consumed c) + length (c_output c) \<le> unat (local_window_max c)"
    "\<not> b \<Longrightarrow> unat (local_window c) + unat (local_consumed c) + length (c_output c) = unat (local_window_max c)"
    "unat (local_window_max c) \<le> BUF_MAX"
proof -
  note l = assms(2)[unfolded linv_def]
  have e: "CHAN_CLOSE_SENT \<in> flags c \<longleftrightarrow> MClose \<in> set (log (peer_of b g c s))"
    "CHAN_EOF_SENT \<in> flags c \<longleftrightarrow> MEof \<in> set (log (peer_of b g c s))"
    using assms(1) by (auto simp: plain_def)
  show "CHAN_CLOSE_SENT \<in> flags c \<Longrightarrow> istate c = 3 \<and> ostate c = 3" using l e(1) half_eq [OF assms(1)] by auto
  show "CHAN_EOF_SENT \<in> flags c \<Longrightarrow> istate c = 3" using l e(2) half_eq [OF assms(1)] by auto
  show "ostate c = 3 \<Longrightarrow> c_output c = []" using l by simp
  show "CHAN_CLOSE_RCVD \<in> flags c \<Longrightarrow> istate c = 3 \<and> ostate c \<noteq> 0" using l half_eq [OF assms(1)] by auto
  show "unat (local_window c) + unat (local_consumed c) + length (c_output c) \<le> unat (local_window_max c)"
    "\<not> b \<Longrightarrow> unat (local_window c) + unat (local_consumed c) + length (c_output c) = unat (local_window_max c)"
    using l by simp_all
  show "unat (local_window_max c) \<le> BUF_MAX" using assms(1) by (simp add: plain_def word_le_nat_alt)
qed

lemma ibuf_empty_refines:
  assumes "plain c s" "linv (peer_of b g c s)"
  shows "\<exists>c' s'. chan_ibuf_empty c s = Some (c', s') \<and> refines b g (c, s) b (c', s')"
proof (cases "istate c = 1 \<and> c_input c = []")
  case True
  let ?p = "peer_of b g c s"
  have "lstep ?p (?p\<lparr>p_in := Closed, log := log ?p @ [MEof]\<rparr>)" by (rule lstep.send_eof) (simp_all add: True)
  then have st: "lstep\<^sup>*\<^sup>* ?p (?p\<lparr>p_in := Closed, log := log ?p @ [MEof]\<rparr>)" by blast
  have "CHAN_CLOSE_SENT \<notin> flags c" using linv_channel(1) [OF assms] True by auto
  then show ?thesis using True assms(1) st
    by (auto simp: chan_ibuf_empty_def chan_send_eof2_def sshpkt_def chan_set_istate_def add_flag_def
        plain_def plain_packet_def peer_of_def refines_def)
next
  case False
  with assms show ?thesis by (auto simp: chan_ibuf_empty_def)
qed

lemma obuf_empty_refines:
  assumes "plain c s"
  shows "\<exists>c' s'. chan_obuf_empty c s = Some (c', s') \<and> refines b g (c, s) b (c', s')"
proof (cases "ostate c = 1 \<and> c_output c = []")
  case True
  let ?p = "peer_of b g c s"
  have "lstep ?p (?p\<lparr>p_out := Closed\<rparr>)" by (rule lstep.drained) (simp_all add: True)
  then have st: "lstep\<^sup>*\<^sup>* ?p (?p\<lparr>p_out := Closed\<rparr>)" by blast
  show ?thesis using True assms st
    by (auto simp: chan_obuf_empty_def chan_shutdown_write_def Let_def channel_close_fd_def chan_set_ostate_def
        plain_def peer_of_def refines_def)
next
  case False
  with assms show ?thesis by (auto simp: chan_obuf_empty_def)
qed

lemma write_failed_refines:
  assumes "plain c s" "linv (peer_of b g c s)" "ostate c \<noteq> 3"
  shows "\<exists>c' s'. chan_write_failed c s = Some (c', s') \<and> refines b g (c, s) True (c', s')"
proof -
  let ?p = "peer_of b g c s"
  let ?ms = "if ctype c = ''session'' \<and> SSH_NEW_OPENSSH \<in> datafellows s then [MEow] else []"
  have "lstep ?p (?p\<lparr>outq := [], p_out := Closed, broken := True, log := log ?p @ ?ms\<rparr>)"
    by (rule lstep.write_fails) (use assms in auto)
  then have st: "lstep\<^sup>*\<^sup>* ?p (?p\<lparr>outq := [], p_out := Closed, broken := True, log := log ?p @ ?ms\<rparr>)" by blast
  show ?thesis using assms(1,3) st
    by (auto simp: chan_write_failed_def chan_shutdown_write_def Let_def channel_close_fd_def chan_set_ostate_def
        chan_send_eow2_def sshpkt_def plain_def plain_packet_def peer_of_def refines_def split: if_splits)
qed

lemma is_dead_refines:
  assumes "plain c s" "linv (peer_of b g c s)"
  shows "\<exists>d c' s'. chan_is_dead True c s = Some (d, c', s') \<and> refines b g (c, s) b (c', s')
    \<and> (d \<longleftrightarrow> CHAN_CLOSE_SENT \<in> flags c' \<and> CHAN_CLOSE_RCVD \<in> flags c')
    \<and> (istate c = 3 \<and> ostate c = 3 \<longrightarrow> CHAN_CLOSE_SENT \<in> flags c')
    \<and> c' = c\<lparr>flags := flags c'\<rparr> \<and> flags c' \<subseteq> insert CHAN_CLOSE_SENT (flags c)"
proof (cases "istate c = 3 \<and> ostate c = 3 \<and> CHAN_CLOSE_SENT \<notin> flags c")
  case True
  let ?p = "peer_of b g c s"
  have st: "lstep ?p (?p\<lparr>log := log ?p @ [MClose]\<rparr>)"
    by (rule lstep.send_close) (use True assms(1) in \<open>auto simp: plain_def\<close>)
  let ?c = "add_flag CHAN_CLOSE_SENT c" and ?s = "s\<lparr>sent := sent s @ [Close (remote_id c)]\<rparr>"
  have "chan_is_dead True c s = Some (CHAN_CLOSE_RCVD \<in> flags c, ?c, ?s)"
    using True assms(1) by (simp add: chan_is_dead_def chan_send_close2_def sshpkt_def add_flag_def plain_def)
  moreover have "refines b g (c, s) b (?c, ?s)"
    by (rule refines_step [OF st]) (use True assms(1) in \<open>simp_all add: plain_def add_flag_def plain_packet_def peer_of_def\<close>)
  moreover have "CHAN_CLOSE_SENT \<in> flags ?c" "CHAN_CLOSE_RCVD \<in> flags ?c \<longleftrightarrow> CHAN_CLOSE_RCVD \<in> flags c"
    "?c = c\<lparr>flags := flags ?c\<rparr>" "flags ?c \<subseteq> insert CHAN_CLOSE_SENT (flags c)"
    by (simp_all add: add_flag_def)
  ultimately show ?thesis by blast
next
  case False
  then have "chan_is_dead True c s = Some (CHAN_CLOSE_SENT \<in> flags c \<and> CHAN_CLOSE_RCVD \<in> flags c, c, s)"
    using assms(1) linv_channel(1) [OF assms]
    by (cases "istate c = 3 \<and> ostate c = 3") (auto simp: chan_is_dead_def plain_def split del: if_split)
  moreover have "refines b g (c, s) b (c, s)" using assms(1) by (rule refines_refl)
  moreover have "c = c\<lparr>flags := flags c\<rparr>" by simp
  ultimately show ?thesis using False by blast
qed

subsection \<open>The data path\<close>

lemma refines_linv: "refines b g (c, s) b' (c', s') \<Longrightarrow> linv (peer_of b g c s) \<Longrightarrow> linv (peer_of b' g c' s')"
proof -
  have "lstep\<^sup>*\<^sup>* p p' \<Longrightarrow> linv p \<Longrightarrow> linv p'" for p p'
    by (induction rule: rtranclp_induct) (auto intro: linv_lstep)
  then show "refines b g (c, s) b' (c', s') \<Longrightarrow> linv (peer_of b g c s) \<Longrightarrow> linv (peer_of b' g c' s')"
    by (auto simp: refines_def)
qed

lemma refines_plain: "refines b g x b' (c', s') \<Longrightarrow> plain c' s'"
  by (auto simp: refines_def split: prod.splits)

lemma obuf_empty_frame:
  assumes "chan_obuf_empty c s = Some (c', s')"
  shows "istate c' = istate c" "rfd c' = rfd c" "c_input c' = c_input c" "flags c' = flags c"
    "local_window c' = local_window c" "local_consumed c' = local_consumed c"
  using assms by (auto simp: chan_obuf_empty_def chan_shutdown_write_def Let_def channel_close_fd_def
      chan_set_ostate_def split: if_splits)

text \<open>Before \<^verbatim>\<open>select\<close>: the sets ask only for what the halves allow, and for no closed descriptor.\<close>

definition want_read :: "channel \<Rightarrow> bool" where
  "want_read c \<longleftrightarrow> istate c = 0 \<and> length (c_input c) < unat (remote_window c) \<and> length (c_input c) + CHAN_RBUF \<le> BUF_MAX"

definition want_write :: "channel \<Rightarrow> bool" where
  "want_write c \<longleftrightarrow> ostate c \<noteq> 3 \<and> c_output c \<noteq> []"

lemma pre_open_refines:
  assumes "plain c s"
  obtains c' s' where
    "channel_pre_open {} {} c s =
       Some (if want_read c then {rfd c} else {}, if want_write c then {wfd c} else {}, c', s')"
    "refines b g (c, s) b (c', s')" "istate c' = istate c" "rfd c' = rfd c" "c_input c' = c_input c"
    "want_write c \<Longrightarrow> c' = c \<and> s' = s" "ostate c = 1 \<Longrightarrow> c_output c = [] \<Longrightarrow> ostate c' = 3"
    "flags c' = flags c" "local_window c' = local_window c" "local_consumed c' = local_consumed c"
proof -
  have w: "remote_window c > 0" if "length (c_input c) < unat (remote_window c)"
    using that by (metis gr_implies_not0 unat_0 word_neq_0_conv)
  have o: "ostate c = 0 \<or> ostate c = 1 \<or> ostate c = 3" "efd c = - 1" using assms by (auto simp: plain_def)
  show thesis
  proof (cases "ostate c = 1 \<and> c_output c = []")
    case True
    obtain c' s' where r: "chan_obuf_empty c s = Some (c', s')" "refines b g (c, s) b (c', s')"
      using obuf_empty_refines [OF assms] by blast
    have "efd c' = - 1" using refines_plain [OF r(2)] by (simp add: plain_def)
    then have "channel_pre_open {} {} c s =
       Some (if want_read c then {rfd c} else {}, if want_write c then {wfd c} else {}, c', s')"
      using True r(1) o(2) w by (auto simp: channel_pre_open_def want_read_def want_write_def CHANNEL_EFD_OUTPUT_ACTIVE_def Let_def)
    moreover have "ostate c' = 3" using r(1) True
      by (auto simp: chan_obuf_empty_def chan_shutdown_write_def Let_def channel_close_fd_def chan_set_ostate_def split: if_splits)
    ultimately show thesis using that [OF _ r(2)] obuf_empty_frame [OF r(1)] True by (simp add: want_write_def)
  next
    case False
    then have "channel_pre_open {} {} c s =
       Some (if want_read c then {rfd c} else {}, if want_write c then {wfd c} else {}, c, s)"
      using o w by (auto simp: channel_pre_open_def want_read_def want_write_def Let_def)
    then show thesis using that [OF _ refines_refl [OF assms]] False by blast
  qed
qed

text \<open>After \<^verbatim>\<open>select\<close>: a read of at most the size of the buffer.\<close>

lemma handle_rfd_refines:
  assumes "plain c s" and r: "rfd c \<in> R \<Longrightarrow> istate c = 0 \<and> length (c_input c) + CHAN_RBUF \<le> BUF_MAX"
    and rd: "\<And>bs. rd = Inr bs \<Longrightarrow> length bs \<le> CHAN_RBUF"
  obtains x c' s' where "channel_handle_rfd None R rd c s = Some (x, c', s')" "refines b g (c, s) b (c', s')"
    "wfd c' = wfd c" "ostate c' = ostate c" "c_output c' = c_output c"
    "rfd c \<in> R \<Longrightarrow> rd = Inr [] \<Longrightarrow> istate c' \<noteq> 0" "rfd c \<notin> R \<Longrightarrow> c' = c \<and> s' = s"
proof (cases "rfd c \<in> R \<and> rd \<noteq> Inl EINTR \<and> rd \<noteq> Inl EAGAIN")
  case False
  then have "channel_handle_rfd None R rd c s = Some (1, c, s)"
    using assms(1) by (auto simp: channel_handle_rfd_def plain_def Let_def)
  then show thesis using that [OF _ refines_refl [OF assms(1)]] False by blast
next
  case True
  note i = r [OF conjunct1 [OF True]]
  have p: "rfd c \<noteq> - 1" "c_type c = SSH_CHANNEL_OPEN" "\<not> isatty c" "\<not> datagram c" using assms(1) i by (auto simp: plain_def)
  show thesis
  proof (cases "\<exists>b bs. rd = Inr (b # bs)")
    case True
    then obtain x bs where x: "rd = Inr (x # bs)" by blast
    let ?c = "c\<lparr>c_input := c_input c @ x # bs\<rparr>" and ?s = "log_read (rfd c) (x # bs) s"
    have h: "channel_handle_rfd None R rd c s = Some (1, ?c, ?s)"
      using p \<open>rfd c \<in> R \<and> _\<close> x i rd [OF x] by (simp add: channel_handle_rfd_def buf_put_def Let_def)
    let ?p = "peer_of b g c s"
    have "lstep ?p (?p\<lparr>inq := inq ?p @ x # bs, taken := taken ?p @ x # bs\<rparr>)"
      by (rule lstep.reads) (simp_all add: i)
    then have "refines b g (c, s) b (?c, ?s)"
      by (rule refines_step) (use assms(1) in \<open>simp_all add: plain_def log_read_def peer_of_def\<close>)
    then show thesis by (rule that [OF h]) (use \<open>rfd c \<in> R \<and> _\<close> x in simp_all)
  next
    case no: False
    obtain c' s' where f: "chan_read_failed c s = Some (c', s')" "refines b g (c, s) b (c', s')"
      using read_failed_refines [OF assms(1)] by blast
    have "channel_handle_rfd None R rd c s = Some (- 1, c', s')"
      using p True f(1) no by (auto simp: channel_handle_rfd_def split: sum.split list.split)
    moreover have "wfd c' = wfd c" "ostate c' = ostate c" "c_output c' = c_output c" "istate c' \<noteq> 0"
      using f(1) i by (auto simp: chan_read_failed_def chan_shutdown_read_def channel_close_fd_def chan_set_istate_def split: if_splits)
    ultimately show thesis using that f(2) True by blast
  qed
qed

text \<open>A write that takes at most what it is given.\<close>

definition fails :: "write_result \<Rightarrow> bool" where
  "fails wr \<longleftrightarrow> wr = Inl EIO \<or> wr = Inr 0"

lemma handle_wfd_refines:
  assumes "plain c s" "linv (peer_of b g c s)" and w: "wfd c \<in> W \<Longrightarrow> ostate c \<noteq> 3"
    and wr: "\<And>n. wfd c \<in> W \<Longrightarrow> wr = Inr n \<Longrightarrow> n \<le> length (c_output c)"
  obtains x b' c' s' where "channel_handle_wfd None W wr c s = Some (x, c', s')" "refines b g (c, s) b' (c', s')"
    "b' \<longleftrightarrow> b \<or> wfd c \<in> W \<and> c_output c \<noteq> [] \<and> fails wr"
    "\<And>n. wfd c \<in> W \<Longrightarrow> c_output c \<noteq> [] \<Longrightarrow> wr = Inr n \<Longrightarrow> 0 < n \<Longrightarrow>
      wrote s' = wrote s @ [(wfd c, take n (c_output c))]"
    "wfd c \<notin> W \<Longrightarrow> c' = c \<and> s' = s"
proof (cases "wfd c \<in> W \<and> c_output c \<noteq> [] \<and> wr \<noteq> Inl EINTR \<and> wr \<noteq> Inl EAGAIN")
  case False
  have "wfd c \<in> W \<Longrightarrow> wfd c \<noteq> - 1" using w assms(1) by (auto simp: plain_def)
  then have "channel_handle_wfd None W wr c s = Some (1, c, s)"
    using False assms(1) by (auto simp: channel_handle_wfd_def wfd_data_def plain_def Let_def)
  moreover have "\<not> (wfd c \<in> W \<and> c_output c \<noteq> [] \<and> fails wr)" using False by (auto simp: fails_def)
  ultimately show thesis using that [OF _ refines_refl [OF assms(1)]] False by blast
next
  case True
  have p: "wfd c \<noteq> - 1" "c_type c = SSH_CHANNEL_OPEN" "\<not> datagram c" "ostate c \<noteq> 3"
    using assms(1) w True by (auto simp: plain_def)
  show thesis
  proof (cases "\<exists>n. wr = Inr (Suc n)")
    case suc: True
    then obtain n where n: "wr = Inr (Suc n)" "Suc n \<le> length (c_output c)" using wr True by blast
    let ?c = "c\<lparr>c_output := drop (Suc n) (c_output c), local_consumed := local_consumed c + word_of_nat (Suc n)\<rparr>"
      and ?s = "log_write (wfd c) (c_output c) (Suc n) s"
    have "word_of_nat (length (c_output c)) - word_of_nat (length (c_output c) - Suc n) = (word_of_nat (Suc n) :: u32)"
      using n(2) by (simp only: of_nat_diff) simp
    then have h: "channel_handle_wfd None W wr c s = Some (1, ?c, ?s)"
      using p True n by (simp add: channel_handle_wfd_def wfd_data_def Let_def log_write_def)
    let ?p = "peer_of b g c s"
    have st: "lstep ?p (?p\<lparr>outq := drop (Suc n) (outq ?p), given := given ?p @ take (Suc n) (outq ?p), credit := credit ?p + Suc n\<rparr>)"
      by (rule lstep.writes) (use n p assms(1) in simp_all)
    note l = linv_channel(5,7) [OF assms(1,2)]
    have "unat (local_consumed c + word_of_nat (Suc n)) = unat (local_consumed c) + Suc n"
      using l n(2) by (intro unat_add_of_nat) simp
    then have "refines b g (c, s) b (?c, ?s)"
      by (intro refines_step [OF st]) (use assms(1) in \<open>simp_all add: plain_def log_write_def peer_of_def\<close>)
    then show thesis by (rule that [OF h]) (use n True in \<open>simp_all add: log_write_def fails_def\<close>)
  next
    case no: False
    obtain c' s' where f: "chan_write_failed c s = Some (c', s')" "refines b g (c, s) True (c', s')"
      using write_failed_refines [OF assms(1,2) p(4)] by blast
    have fl: "fails wr" using True no by (cases wr rule: sum.exhaust; auto simp: fails_def) (metis io_error.exhaust, metis not0_implies_Suc)
    have "channel_handle_wfd None W wr c s = Some (- 1, c', s')"
      using p True f(1) no by (auto simp: channel_handle_wfd_def wfd_data_def write_fail_def Let_def split: sum.split nat.split)
    moreover have "wr \<noteq> Inr n" if "0 < n" for n using that no gr0_conv_Suc by auto
    ultimately show thesis using that f(2) fl True by blast
  qed
qed

lemma check_window_refines:
  assumes "plain c s" "linv (peer_of b g c s)"
  obtains c' s' where "channel_check_window c s = Some (c', s')" "refines b g (c, s) b (c', s')"
    "CHAN_CLOSE_SENT \<notin> flags c \<Longrightarrow> CHAN_CLOSE_RCVD \<notin> flags c \<Longrightarrow> local_window c = 0 \<Longrightarrow> local_consumed c \<noteq> 0
      \<Longrightarrow> length (sent s) < length (sent s')"
proof (cases "c_type c = SSH_CHANNEL_OPEN \<and> \<not> (CHAN_CLOSE_SENT \<in> flags c \<or> CHAN_CLOSE_RCVD \<in> flags c)
        \<and> (local_window_max c - local_window c > local_maxpacket c * 3 \<or> local_window c < local_window_max c div 2)
        \<and> local_consumed c > 0")
  case True
  let ?c = "c\<lparr>local_window := local_window c + local_consumed c, local_consumed := 0\<rparr>"
    and ?s = "s\<lparr>sent := sent s @ [Window_adjust (remote_id c) (local_consumed c)]\<rparr>" and ?p = "peer_of b g c s"
  have h: "channel_check_window c s = Some (?c, ?s)"
    unfolding channel_check_window_def if_P [OF True] using assms(1) by (simp add: plain_def sshpkt_def)
  have st: "lstep ?p (?p\<lparr>lwin := lwin ?p + credit ?p, credit := 0, log := log ?p @ [MAdjust (credit ?p)]\<rparr>)"
    by (rule lstep.adjust) (use True assms(1) in \<open>auto simp: plain_def unat_gt_0\<close>)
  have "unat (local_window c + local_consumed c) = unat (local_window c) + unat (local_consumed c)"
    using linv_channel(5,7) [OF assms] by (intro unat_add_lem [THEN iffD1]) simp
  then have "refines b g (c, s) b (?c, ?s)"
    by (intro refines_step [OF st]) (use assms(1) in \<open>simp_all add: plain_def plain_packet_def peer_of_def\<close>)
  then show thesis by (rule that [OF h]) simp
next
  case False
  have "2 \<le> local_window_max c" "c_type c = SSH_CHANNEL_OPEN" using assms(1) by (simp_all add: plain_def)
  then have "0 < local_window_max c div 2" by (simp add: word_less_nat_alt word_le_nat_alt unat_div div_greater_zero_iff)
  moreover have "channel_check_window c s = Some (c, s)" unfolding channel_check_window_def if_not_P [OF False] ..
  ultimately show thesis using that [OF _ refines_refl [OF assms(1)]] False \<open>c_type c = _\<close>
    by (metis word_neq_0_conv)
qed

lemma output_poll_refines:
  assumes "plain c s" "linv (peer_of b g c s)"
  obtains c' s' where "channel_output_poll c s = Some (c', s')" "refines b g (c, s) b (c', s')"
    "istate c \<noteq> 3 \<Longrightarrow> c_input c \<noteq> [] \<Longrightarrow> remote_window c \<noteq> 0 \<Longrightarrow> length (sent s) < length (sent s')"
    "istate c = 1 \<Longrightarrow> c_input c = [] \<Longrightarrow> istate c' = 3"
proof (cases "istate c = 3")
  case True
  then have "channel_output_poll c s = Some (c, s)"
    using assms(1) by (simp add: channel_output_poll_def channel_output_poll_extended_read_def plain_def)
  with True show thesis using that [OF _ refines_refl [OF assms(1)]] by blast
next
  case False
  have f: "CHAN_CLOSE_SENT \<notin> flags c" "CHAN_CLOSE_RCVD \<notin> flags c" "CHAN_EOF_SENT \<notin> flags c"
    using False linv_channel(1,2,4) [OF assms] by auto
  have i: "istate c = 0 \<or> istate c = 1" using False assms(1) by (auto simp: plain_def)
  let ?len = "min (min (length (c_input c)) (unat (remote_window c))) (unat (remote_maxpacket c))"
  have ext: "channel_output_poll_extended_read c' s' = Some (c', s')" if "plain c' s'" for c' s'
    using that by (simp add: channel_output_poll_extended_read_def plain_def)
  have poll: "channel_output_poll c s = Some (c', s')"
    if "channel_output_poll_input_open c s = Some (c', s')" "plain c' s'" for c' s'
    using that i f ext [OF that(2)] assms(1) by (auto simp: channel_output_poll_def plain_def)
  have z: "(min (x :: nat) y = 0) = (x = 0 \<or> y = 0)" for x y by (auto simp: min_def)
  consider (empty) "c_input c = []" | (stuck) "c_input c \<noteq> []" "?len = 0" | (send) "c_input c \<noteq> []" "0 < ?len" by fastforce
  then show thesis
  proof cases
    case empty
    show thesis
    proof (cases "istate c = 1")
      case True
      obtain c' s' where e: "chan_ibuf_empty c s = Some (c', s')" "refines b g (c, s) b (c', s')"
        using ibuf_empty_refines [OF assms] by blast
      have "channel_output_poll_input_open c s = Some (c', s')"
        using empty True e(1) assms(1) by (simp add: channel_output_poll_input_open_def CHANNEL_EFD_INPUT_ACTIVE_def plain_def)
      note p = poll [OF this refines_plain [OF e(2)]]
      have "istate c' = 3" using e(1) empty True
        by (auto simp: chan_ibuf_empty_def chan_set_istate_def chan_send_eof2_def add_flag_def split: if_splits Option.bind_splits)
      with p empty show thesis using that [OF p e(2)] by blast
    next
      case False
      then have "channel_output_poll_input_open c s = Some (c, s)" using empty by (simp add: channel_output_poll_input_open_def)
      then show thesis using that [OF poll refines_refl [OF assms(1)]] assms(1) False empty by blast
    qed
  next
    case stuck
    then have "channel_output_poll_input_open c s = Some (c, s)"
      using assms(1) by (simp add: channel_output_poll_input_open_def plain_def Let_def)
    note p = poll [OF this assms(1)]
    have "remote_window c = 0" using stuck assms(1) by (auto simp: min_def plain_def unat_gt_0 [symmetric] unat_eq_zero split: if_splits)
    then show thesis using that [OF p refines_refl [OF assms(1)]] stuck by blast
  next
    case send
    let ?c = "c\<lparr>c_input := drop ?len (c_input c), remote_window := remote_window c - word_of_nat ?len\<rparr>"
      and ?s = "s\<lparr>sent := sent s @ [Data (remote_id c) (take ?len (c_input c))]\<rparr>" and ?p = "peer_of b g c s"
    have h: "channel_output_poll_input_open c s = Some (?c, ?s)"
      using send assms(1) by (auto simp: channel_output_poll_input_open_def plain_def Let_def sshpkt_def z)
    have st: "lstep ?p (?p\<lparr>inq := drop ?len (inq ?p), rwin := rwin ?p - ?len, log := log ?p @ [MData (take ?len (inq ?p))]\<rparr>)"
      by (rule lstep.send_data) (use send False half_eq [OF assms(1)] in auto)
    have "unat (remote_window c - word_of_nat ?len) = unat (remote_window c) - ?len" by (rule unat_diff_of_nat) simp
    moreover have "unat (remote_maxpacket c) \<le> BUF_MAX - 4" using assms(1) by (simp add: plain_def word_le_nat_alt)
    ultimately have r: "refines b g (c, s) b (?c, ?s)"
      by (intro refines_step [OF st]) (use assms(1) in \<open>auto simp: plain_def plain_packet_def peer_of_def\<close>)
    show thesis by (rule that [OF poll [OF h refines_plain [OF r]] r]) (use send in simp_all)
  qed
qed

lemma refines_mono:
  assumes "plain c s" "refines b g (c, s) b' (c', s')"
  shows "istate c \<noteq> 0 \<Longrightarrow> istate c' \<noteq> 0" "ostate c = 3 \<Longrightarrow> ostate c' = 3" "istate c = 3 \<Longrightarrow> istate c' = 3"
    "length (sent s) \<le> length (sent s')"
    "length (concat (map snd (wrote s))) \<le> length (concat (map snd (wrote s')))"
proof -
  have m: "rank (half_of (istate c')) \<le> rank (half_of (istate c))" "rank (half_of (ostate c')) \<le> rank (half_of (ostate c))"
    "prefix (map msg_of (sent s)) (map msg_of (sent s'))" "prefix (concat (map snd (wrote s))) (concat (map snd (wrote s')))"
    using assms(2) lsteps_mono [of "peer_of b g c s" "peer_of b' g c' s'"] by (simp_all add: refines_def)
  have p: "istate c \<in> {0, 1, 3}" "istate c' \<in> {0, 1, 3}" "ostate c' \<in> {0, 1, 3}"
    using assms(1) refines_plain [OF assms(2)] by (simp_all add: plain_def)
  show "istate c \<noteq> 0 \<Longrightarrow> istate c' \<noteq> 0" "ostate c = 3 \<Longrightarrow> ostate c' = 3" "istate c = 3 \<Longrightarrow> istate c' = 3"
    using m(1,2) p by auto
  show "length (sent s) \<le> length (sent s')" using prefix_length_le [OF m(3)] by simp
  show "length (concat (map snd (wrote s))) \<le> length (concat (map snd (wrote s')))" using prefix_length_le [OF m(4)] .
qed

lemma refines_close:
  assumes "plain c s" "refines b g (c, s) b' (c', s')" "CHAN_CLOSE_SENT \<notin> flags c" "CHAN_CLOSE_SENT \<in> flags c'"
  shows "length (sent s) < length (sent s')"
proof -
  have "prefix (map msg_of (sent s)) (map msg_of (sent s'))"
    using assms(2) lsteps_mono [of "peer_of b g c s" "peer_of b' g c' s'"] by (simp add: refines_def)
  moreover have "map msg_of (sent s) \<noteq> map msg_of (sent s')"
    using assms(1,3,4) refines_plain [OF assms(2)] by (metis list.set_map plain_def)
  ultimately have "strict_prefix (map msg_of (sent s)) (map msg_of (sent s'))" by (rule strict_prefixI)
  from prefix_length_less [OF this] show ?thesis by simp
qed

lemma garbage_collect_refines:
  assumes "plain c s" "linv (peer_of b g c s)"
  obtains d c' s' where "channel_garbage_collect Pair c s = Some (d, c', s')" "refines b g (c, s) b (c', s')"
    "d \<longleftrightarrow> CHAN_CLOSE_SENT \<in> flags c' \<and> CHAN_CLOSE_RCVD \<in> flags c'"
    "istate c = 3 \<Longrightarrow> ostate c = 3 \<Longrightarrow> CHAN_CLOSE_SENT \<in> flags c'" "c' = c\<lparr>flags := flags c'\<rparr>"
    "flags c' \<subseteq> insert CHAN_CLOSE_SENT (flags c)"
  using is_dead_refines [OF assms] assms(1) unfolding channel_garbage_collect_def plain_def by (auto intro: that)

text \<open>A whole pass.\<close>

lemma post_open_refines:
  assumes p: "plain c s" "linv (peer_of b g c s)"
    and R: "rfd c \<in> R \<Longrightarrow> istate c = 0 \<and> length (c_input c) + CHAN_RBUF \<le> BUF_MAX" and W: "wfd c \<in> W \<Longrightarrow> ostate c \<noteq> 3"
    and rd: "\<And>bs. io_rfd r = Inr bs \<Longrightarrow> length bs \<le> CHAN_RBUF"
    and wr: "\<And>n. wfd c \<in> W \<Longrightarrow> io_wfd r = Inr n \<Longrightarrow> n \<le> length (c_output c)"
  obtains b' c' s' where "channel_post_open None None R W r c s = Some (c', s')" "refines b g (c, s) b' (c', s')"
    "b' \<longleftrightarrow> b \<or> wfd c \<in> W \<and> c_output c \<noteq> [] \<and> fails (io_wfd r)" "rfd c \<in> R \<Longrightarrow> io_rfd r = Inr [] \<Longrightarrow> istate c' \<noteq> 0"
    "\<And>n. wfd c \<in> W \<Longrightarrow> c_output c \<noteq> [] \<Longrightarrow> io_wfd r = Inr n \<Longrightarrow> 0 < n \<Longrightarrow>
      length (concat (map snd (wrote s))) < length (concat (map snd (wrote s')))"
    "R = {} \<Longrightarrow> W = {} \<Longrightarrow> CHAN_CLOSE_SENT \<notin> flags c \<Longrightarrow> CHAN_CLOSE_RCVD \<notin> flags c \<Longrightarrow> local_window c = 0 \<Longrightarrow>
      local_consumed c \<noteq> 0 \<Longrightarrow> length (sent s) < length (sent s')"
    "R = {} \<or> io_rfd r = Inr [] \<Longrightarrow> was_read s' = was_read s"
proof -
  obtain x c1 s1 where 1: "channel_handle_rfd None R (io_rfd r) c s = Some (x, c1, s1)" "refines b g (c, s) b (c1, s1)"
    "wfd c1 = wfd c" "ostate c1 = ostate c" "c_output c1 = c_output c"
    "rfd c \<in> R \<Longrightarrow> io_rfd r = Inr [] \<Longrightarrow> istate c1 \<noteq> 0" "rfd c \<notin> R \<Longrightarrow> c1 = c \<and> s1 = s"
    by (rule handle_rfd_refines [OF p(1) R rd]) blast+
  note p1 = refines_plain [OF 1(2)] refines_linv [OF 1(2) p(2)]
  obtain y b' c2 s2 where 2: "channel_handle_wfd None W (io_wfd r) c1 s1 = Some (y, c2, s2)" "refines b g (c1, s1) b' (c2, s2)"
    "b' \<longleftrightarrow> b \<or> wfd c1 \<in> W \<and> c_output c1 \<noteq> [] \<and> fails (io_wfd r)"
    "\<And>n. wfd c1 \<in> W \<Longrightarrow> c_output c1 \<noteq> [] \<Longrightarrow> io_wfd r = Inr n \<Longrightarrow> 0 < n \<Longrightarrow>
      wrote s2 = wrote s1 @ [(wfd c1, take n (c_output c1))]"
    "wfd c1 \<notin> W \<Longrightarrow> c2 = c1 \<and> s2 = s1"
  proof (rule handle_wfd_refines [OF p1])
    show "wfd c1 \<in> W \<Longrightarrow> ostate c1 \<noteq> 3" using W 1(3,4) by simp
    show "\<And>n. wfd c1 \<in> W \<Longrightarrow> io_wfd r = Inr n \<Longrightarrow> n \<le> length (c_output c1)" using wr 1(3,5) by simp
  qed blast
  note p2 = refines_plain [OF 2(2)] refines_linv [OF 2(2) p1(2)]
  obtain c3 s3 where 3: "channel_check_window c2 s2 = Some (c3, s3)" "refines b' g (c2, s2) b' (c3, s3)"
    "CHAN_CLOSE_SENT \<notin> flags c2 \<Longrightarrow> CHAN_CLOSE_RCVD \<notin> flags c2 \<Longrightarrow> local_window c2 = 0 \<Longrightarrow> local_consumed c2 \<noteq> 0
      \<Longrightarrow> length (sent s2) < length (sent s3)"
    by (rule check_window_refines [OF p2]) (rule that)
  have "efd c2 = - 1" using p2(1) by (simp add: plain_def)
  then have "channel_post_open None None R W r c s = Some (c3, s3)"
    using 1(1) 2(1) 3(1) by (simp add: channel_post_open_def channel_handle_efd_def)
  moreover have "refines b g (c, s) b' (c3, s3)" using refines_trans [OF 1(2) refines_trans [OF 2(2) 3(2)]] .
  moreover have "istate c3 \<noteq> 0" if "rfd c \<in> R" "io_rfd r = Inr []"
    using 1(6) [OF that] refines_mono(1) [OF p1(1) 2(2)] refines_mono(1) [OF p2(1) 3(2)] by blast
  moreover have "length (concat (map snd (wrote s))) < length (concat (map snd (wrote s3)))"
    if "wfd c \<in> W" "c_output c \<noteq> []" "io_wfd r = Inr n" "0 < n" for n
  proof -
    have "length (concat (map snd (wrote s1))) < length (concat (map snd (wrote s2)))"
      using 2(4) [of n] that 1(3,5) by simp
    then show ?thesis using refines_mono(5) [OF p(1) 1(2)] refines_mono(5) [OF p2(1) 3(2)] by linarith
  qed
  moreover have "length (sent s) < length (sent s3)" if "R = {}" "W = {}" "CHAN_CLOSE_SENT \<notin> flags c"
    "CHAN_CLOSE_RCVD \<notin> flags c" "local_window c = 0" "local_consumed c \<noteq> 0"
    using that 1(7) 2(5) 3(3) by auto
  moreover have "b' \<longleftrightarrow> b \<or> wfd c \<in> W \<and> c_output c \<noteq> [] \<and> fails (io_wfd r)" using 2(3) 1(3,5) by simp
  moreover have "was_read s3 = was_read s" if "R = {} \<or> io_rfd r = Inr []"
    using rfd_was_read [OF 1(1) _ that] wfd_was_read [OF 2(1)] data_path_was_read(3) [OF 3(1)] p(1) by (simp add: plain_def)
  ultimately show thesis using that by blast
qed

lemma round_refines:
  assumes p: "plain c s" "linv (peer_of b g c s)" and rd: "\<And>bs. io_rfd r = Inr bs \<Longrightarrow> length bs \<le> CHAN_RBUF"
    and wr: "\<And>n. io_wfd r = Inr n \<Longrightarrow> n \<le> length (c_output c)"
  obtains d b' c' s' where "channel_round readable writable r c s = Some (d, c', s')" "refines b g (c, s) b' (c', s')"
    "b' \<longleftrightarrow> b \<or> writable \<and> want_write c \<and> fails (io_wfd r)" "d \<longleftrightarrow> CHAN_CLOSE_SENT \<in> flags c' \<and> CHAN_CLOSE_RCVD \<in> flags c'"
    "readable \<Longrightarrow> want_read c \<Longrightarrow> io_rfd r = Inr [] \<Longrightarrow> istate c' \<noteq> 0"
    "\<And>n. writable \<Longrightarrow> want_write c \<Longrightarrow> io_wfd r = Inr n \<Longrightarrow> 0 < n \<Longrightarrow>
      length (concat (map snd (wrote s))) < length (concat (map snd (wrote s')))"
    "ostate c = 1 \<Longrightarrow> c_output c = [] \<Longrightarrow> ostate c' = 3"
    "\<not> readable \<Longrightarrow> \<not> writable \<Longrightarrow> CHAN_CLOSE_SENT \<notin> flags c \<Longrightarrow> CHAN_CLOSE_RCVD \<notin> flags c \<Longrightarrow> local_window c = 0 \<Longrightarrow>
      local_consumed c \<noteq> 0 \<Longrightarrow> length (sent s) < length (sent s')"
    "istate c = 3 \<Longrightarrow> ostate c = 3 \<Longrightarrow> CHAN_CLOSE_SENT \<in> flags c'"
    "\<not> readable \<or> io_rfd r = Inr [] \<Longrightarrow> was_read s' = was_read s"
proof -
  obtain c1 s1 where 1:
    "channel_pre_open {} {} c s = Some (if want_read c then {rfd c} else {}, if want_write c then {wfd c} else {}, c1, s1)"
    "refines b g (c, s) b (c1, s1)" "istate c1 = istate c" "rfd c1 = rfd c" "c_input c1 = c_input c"
    "want_write c \<Longrightarrow> c1 = c \<and> s1 = s" "ostate c = 1 \<Longrightarrow> c_output c = [] \<Longrightarrow> ostate c1 = 3"
    "flags c1 = flags c" "local_window c1 = local_window c" "local_consumed c1 = local_consumed c"
    by (rule pre_open_refines [OF p(1)]) (rule that)
  note p1 = refines_plain [OF 1(2)] refines_linv [OF 1(2) p(2)]
  obtain d c2 s2 where 2: "channel_garbage_collect Pair c1 s1 = Some (d, c2, s2)" "refines b g (c1, s1) b (c2, s2)"
    "d \<longleftrightarrow> CHAN_CLOSE_SENT \<in> flags c2 \<and> CHAN_CLOSE_RCVD \<in> flags c2"
    "istate c1 = 3 \<Longrightarrow> ostate c1 = 3 \<Longrightarrow> CHAN_CLOSE_SENT \<in> flags c2" "c2 = c1\<lparr>flags := flags c2\<rparr>"
    "flags c2 \<subseteq> insert CHAN_CLOSE_SENT (flags c1)"
    by (rule garbage_collect_refines [OF p1]) (rule that)
  note p2 = refines_plain [OF 2(2)] refines_linv [OF 2(2) p1(2)] and r2 = refines_trans [OF 1(2) 2(2)]
  have f2: "istate c2 = istate c1" "ostate c2 = ostate c1" "rfd c2 = rfd c1" "wfd c2 = wfd c1" "c_input c2 = c_input c1"
    "c_output c2 = c_output c1" "local_window c2 = local_window c1" "local_consumed c2 = local_consumed c1"
    by (subst 2(5), simp)+
  have w2: "was_read s2 = was_read s" using data_path_was_read(1) [OF 1(1)] data_path_was_read(2) [OF 2(1)] by simp
  have o3: "ostate c = 3 \<Longrightarrow> ostate c2 = 3" using refines_mono(2) [OF p(1) r2] by blast
  show thesis
  proof (cases d)
    case True
    have x: "istate c2 = 3" "ostate c2 = 3" "CHAN_CLOSE_SENT \<in> flags c2" "CHAN_CLOSE_RCVD \<in> flags c2"
      using True 2(3) linv_channel(1) [OF p2] by auto
    have "channel_round readable writable r c s = Some (True, c2, s2)" using True 1(1) 2(1) by (simp add: channel_round_def)
    moreover have "\<not> want_write c" using x(2) 1(6) f2(2) by (auto simp: want_write_def)
    moreover have "CHAN_CLOSE_RCVD \<in> flags c" using x(4) 1(8) 2(6) by blast
    ultimately show thesis using x r2 1(3) f2(1) w2 by (intro that [of True c2 s2 b]) (auto simp: want_read_def)
  next
    case False
    let ?R = "if readable then if want_read c then {rfd c} else {} else {}" and ?W = "if writable then if want_write c then {wfd c} else {} else {}"
    obtain b' c3 s3 where 3: "channel_post_open None None ?R ?W r c2 s2 = Some (c3, s3)" "refines b g (c2, s2) b' (c3, s3)"
      "b' \<longleftrightarrow> b \<or> wfd c2 \<in> ?W \<and> c_output c2 \<noteq> [] \<and> fails (io_wfd r)" "rfd c2 \<in> ?R \<Longrightarrow> io_rfd r = Inr [] \<Longrightarrow> istate c3 \<noteq> 0"
      "\<And>n. wfd c2 \<in> ?W \<Longrightarrow> c_output c2 \<noteq> [] \<Longrightarrow> io_wfd r = Inr n \<Longrightarrow> 0 < n \<Longrightarrow>
        length (concat (map snd (wrote s2))) < length (concat (map snd (wrote s3)))"
      "?R = {} \<Longrightarrow> ?W = {} \<Longrightarrow> CHAN_CLOSE_SENT \<notin> flags c2 \<Longrightarrow> CHAN_CLOSE_RCVD \<notin> flags c2 \<Longrightarrow> local_window c2 = 0 \<Longrightarrow>
        local_consumed c2 \<noteq> 0 \<Longrightarrow> length (sent s2) < length (sent s3)"
      "?R = {} \<or> io_rfd r = Inr [] \<Longrightarrow> was_read s3 = was_read s2"
    proof (rule post_open_refines [OF p2])
      show "rfd c2 \<in> ?R \<Longrightarrow> istate c2 = 0 \<and> length (c_input c2) + CHAN_RBUF \<le> BUF_MAX"
        using 1(3,5) f2(1,5) by (simp add: want_read_def split: if_splits)
      have w: "want_write c" if "wfd c2 \<in> ?W" using that by (simp split: if_splits)
      show "wfd c2 \<in> ?W \<Longrightarrow> ostate c2 \<noteq> 3" using w 1(6) f2(2) by (auto simp: want_write_def)
      show "\<And>n. wfd c2 \<in> ?W \<Longrightarrow> io_wfd r = Inr n \<Longrightarrow> n \<le> length (c_output c2)" using w 1(6) f2(6) wr by auto
    qed (use rd in blast)+
    note p3 = refines_plain [OF 3(2)] refines_linv [OF 3(2) p2(2)]
    obtain d' c4 s4 where 4: "channel_garbage_collect Pair c3 s3 = Some (d', c4, s4)" "refines b' g (c3, s3) b' (c4, s4)"
      "d' \<longleftrightarrow> CHAN_CLOSE_SENT \<in> flags c4 \<and> CHAN_CLOSE_RCVD \<in> flags c4"
      "istate c3 = 3 \<Longrightarrow> ostate c3 = 3 \<Longrightarrow> CHAN_CLOSE_SENT \<in> flags c4" "c4 = c3\<lparr>flags := flags c4\<rparr>"
      by (rule garbage_collect_refines [OF p3]) (rule that)
    note r = refines_trans [OF r2 refines_trans [OF 3(2) 4(2)]] and m2 = refines_mono [OF p(1) r2]
      and m3 = refines_mono [OF p2(1) 3(2)] and m4 = refines_mono [OF p3(1) 4(2)]
    have "channel_round readable writable r c s = Some (d', c4, s4)"
      using False 1(1) 2(1) 3(1) 4(1) by (simp add: channel_round_def)
    moreover have "istate c4 \<noteq> 0" if "readable" "want_read c" "io_rfd r = Inr []"
      using 3(4) that 1(4) f2(3) m4(1) by simp
    moreover have "length (concat (map snd (wrote s))) < length (concat (map snd (wrote s4)))"
      if "writable" "want_write c" "io_wfd r = Inr n" "0 < n" for n
    proof -
      have "wfd c2 \<in> ?W" "c_output c2 \<noteq> []" using that 1(6) f2(4,6) by (auto simp: want_write_def)
      from 3(5) [OF this that(3,4)] show ?thesis using m2(5) m4(5) by linarith
    qed
    moreover have "ostate c4 = 3" if "ostate c = 1" "c_output c = []" using 1(7) that f2(2) m3(2) m4(2) by simp
    moreover have "length (sent s) < length (sent s4)" if "\<not> readable" "\<not> writable" "CHAN_CLOSE_SENT \<notin> flags c"
      "CHAN_CLOSE_RCVD \<notin> flags c" "local_window c = 0" "local_consumed c \<noteq> 0"
    proof (cases "CHAN_CLOSE_SENT \<in> flags c2")
      case True
      with refines_close [OF p(1) r2 that(3)] m3(4) m4(4) show ?thesis by linarith
    next
      case False
      then have "length (sent s2) < length (sent s3)" using 3(6) that 1(8-10) f2(7,8) 2(6) by auto
      then show ?thesis using m2(4) m4(4) by linarith
    qed
    moreover have "CHAN_CLOSE_SENT \<in> flags c4" if "istate c = 3" "ostate c = 3"
      using that m2(2,3) m3(2,3) 4(4) by blast
    moreover have "b' \<longleftrightarrow> b \<or> writable \<and> want_write c \<and> fails (io_wfd r)"
      using 3(3) 1(6) f2(4,6) by (auto simp: want_write_def split: if_splits)
    moreover have "was_read s4 = was_read s" if "\<not> readable \<or> io_rfd r = Inr []"
      using that 3(7) w2 data_path_was_read(2) [OF 4(1)] by auto
    ultimately show thesis using that r 4(3) by blast
  qed
qed

subsection \<open>Messages\<close>

definition input_refines :: "packet \<Rightarrow> bool \<Rightarrow> nat \<Rightarrow> channel \<Rightarrow> ssh \<Rightarrow> bool" where
  "input_refines m b g c s \<longleftrightarrow> (\<exists>c' s'. channel_input m (payload m) c s = Some (c', s') \<and> plain c' s'
     \<and> lstep\<^sup>*\<^sup>* (receive (msg_of m) (peer_of b g c s)) (peer_of b g c' s'))"

lemma input_refinesI:
  "channel_input m (payload m) c s = Some (c', s') \<Longrightarrow> plain c' s' \<Longrightarrow>
   peer_of b g c' s' = receive (msg_of m) (peer_of b g c s) \<Longrightarrow> input_refines m b g c s"
  unfolding input_refines_def by (metis rtranclp.rtrancl_refl)

lemma input_data_refines:
  assumes p: "plain c s" "linv (peer_of b g c s)" and m: "m = Data i bs" "plain_packet m"
    and w: "length bs \<le> unat (local_window c)" "length bs \<le> unat (local_maxpacket c)"
  shows "input_refines m b g c s"
proof -
  have l: "length bs \<le> BUF_MAX - 4" using m by (simp add: plain_packet_def)
  have g: "get_str (put_str bs) = Some (bs, [])" using get_str_put_str [OF l, of "[]"] by simp
  note c = linv_channel(5,7) [OF p]
  have u: "unat (local_window c - word_of_nat (length bs)) = unat (local_window c) - length bs"
    by (rule unat_diff_of_nat) (rule w)
  show ?thesis
  proof (cases "ostate c = 0")
    case True
    let ?c = "c\<lparr>local_window := local_window c - word_of_nat (length bs), c_output := c_output c @ bs\<rparr>"
    have "channel_input m (payload m) c s = Some (?c, s)"
      using True p(1) m(1) g w c by (simp add: channel_input_data_def plain_def buf_put_def Let_def)
    then show ?thesis
      by (rule input_refinesI) (use True p(1) m(1) u in \<open>simp_all add: plain_def peer_of_def\<close>)
  next
    case False
    let ?c = "c\<lparr>local_window := local_window c - word_of_nat (length bs),
                 local_consumed := local_consumed c + word_of_nat (length bs)\<rparr>"
    have a: "unat (local_consumed c + word_of_nat (length bs)) = unat (local_consumed c) + length bs"
      using c w by (intro unat_add_of_nat) simp
    have h: "half_of (ostate c) \<noteq> Open" using False half_eq [OF p(1)] by simp
    have "channel_input m (payload m) c s = Some (?c, s)"
      using False p(1) m(1) g by (simp add: channel_input_data_def plain_def Let_def)
    then show ?thesis
      by (rule input_refinesI) (use p(1) m(1) u a h in \<open>simp_all add: plain_def peer_of_def\<close>)
  qed
qed

lemma input_adjust_refines:
  assumes "plain c s" "m = Window_adjust i n" "unat (remote_window c) + unat n < 2 ^ 32"
  shows "input_refines m b g c s"
proof -
  have u: "unat (remote_window c + n) = unat (remote_window c) + unat n"
    using assms(3) by (intro unat_add_lem [THEN iffD1]) simp
  have "get_u32 (POKE_U32 n) = Some (n, [])" using get_u32_POKE [of n "[]"] by simp
  moreover have "\<not> remote_window c + n < remote_window c" using u by (simp add: word_less_nat_alt)
  ultimately have "channel_input m (payload m) c s = Some (c\<lparr>remote_window := remote_window c + n\<rparr>, s)"
    by (simp add: assms(2) channel_input_window_adjust_def)
  then show ?thesis by (rule input_refinesI) (use assms(1,2) u in \<open>simp_all add: plain_def peer_of_def\<close>)
qed

lemma input_eow_refines:
  assumes "plain c s" "m = Request i t r" "plain_packet m"
  shows "input_refines m b g c s"
proof -
  have m: "t = ''eow@openssh.com''" "\<not> r" using assms(2,3) by (simp_all add: plain_packet_def)
  have "is_request (map of_char ''eow@openssh.com'') ''eow@openssh.com''" by (simp add: is_request_def)
  then have "channel_input m (payload m) c s = chan_rcvd_eow c s"
    using m by (cases "chan_rcvd_eow c s") (simp_all add: assms(2) client_input_channel_req_def)
  moreover have "\<exists>c' s'. chan_rcvd_eow c s = Some (c', s') \<and> plain c' s' \<and> peer_of b g c' s' = receive MEow (peer_of b g c s)"
    using assms(1) half_eq [OF assms(1)]
    by (auto simp: chan_rcvd_eow_def chan_shutdown_read_def channel_close_fd_def chan_set_istate_def plain_def peer_of_def)
  ultimately show ?thesis using input_refinesI assms(2) by (metis msg_of.simps(6))
qed


lemma input_eof_refines:
  assumes p: "plain c s" and m: "m = Eof i" and l: "linv (receive MEof (peer_of b g c s))"
  shows "input_refines m b g c s"
proof -
  let ?c = "if ostate c = 0 then (add_flag CHAN_EOF_RCVD c)\<lparr>ostate := 1\<rparr> else add_flag CHAN_EOF_RCVD c"
  have 0: "plain ?c s" using p by (auto simp: plain_def add_flag_def)
  have e: "peer_of b g ?c s = receive MEof (peer_of b g c s)"
    using half_eq [OF p] by (simp add: peer_of_def add_flag_def shut_out_def)
  have ef: "\<not> CHANNEL_EFD_OUTPUT_ACTIVE x" if "efd x = - 1" for x using that by (simp add: CHANNEL_EFD_OUTPUT_ACTIVE_def)
  have q: "efd c = - 1" using p by (simp add: plain_def)
  have r: "chan_rcvd_ieof c s = (if ostate ?c = 1 \<and> c_output ?c = [] then chan_obuf_empty ?c s else Some (?c, s))"
    using q by (cases "ostate c = 0") (simp_all add: chan_rcvd_ieof_def Let_def chan_set_ostate_def add_flag_def ef)
  obtain c1 s1 where 1: "chan_rcvd_ieof c s = Some (c1, s1)" "refines b g (?c, s) b (c1, s1)"
    using r obuf_empty_refines [OF 0] refines_refl [OF 0] by (metis (no_types, lifting))
  note p1 = refines_plain [OF 1(2)] refines_linv [OF 1(2) l [folded e]]
  show ?thesis
  proof (cases "force_drain c1 \<and> istate c1 = 0")
    case False
    then have "channel_input m (payload m) c s = Some (c1, s1)" using 1(1) m by (auto simp: channel_input_ieof_def)
    then show ?thesis using 1(2) e m by (auto simp: input_refines_def refines_def)
  next
    case True
    let ?c1 = "c1\<lparr>istate := CHAN_INPUT_WAIT_DRAIN\<rparr>" and ?p = "peer_of b g c1 s1"
    have st: "lstep ?p (?p\<lparr>p_in := Drain\<rparr>)" by (rule lstep.read_end) (simp add: True)
    have 2: "refines b g (c1, s1) b (?c1, s1)"
      by (rule refines_step [OF st]) (use p1(1) in \<open>simp_all add: plain_def peer_of_def\<close>)
    obtain c2 s2 where 3: "(if length (c_input ?c1) = 0 then chan_ibuf_empty ?c1 s1 else Some (?c1, s1)) = Some (c2, s2)"
      "refines b g (?c1, s1) b (c2, s2)"
      using ibuf_empty_refines [OF refines_plain [OF 2] refines_linv [OF 2 p1(2)]] refines_refl [OF refines_plain [OF 2]]
      by (metis (no_types, lifting))
    have "channel_input m (payload m) c s = Some (c2, s2)"
      using 1(1) m True 3(1) by (simp add: channel_input_ieof_def Let_def)
    moreover have "refines b g (?c, s) b (c2, s2)" by (rule refines_trans [OF 1(2) refines_trans [OF 2 3(2)]])
    ultimately show ?thesis using e m by (auto simp: input_refines_def refines_def)
  qed
qed

lemma input_close_refines:
  assumes p: "plain c s" and m: "m = Close i"
  shows "input_refines m b g c s"
proof -
  define x where "x = (if ostate c = 0 then (add_flag CHAN_CLOSE_RCVD c)\<lparr>ostate := 1\<rparr> else add_flag CHAN_CLOSE_RCVD c)"
  have x: "istate x = istate c" "c_type x = SSH_CHANNEL_OPEN" "efd x = - 1" "CHAN_LOCAL \<notin> flags x" "have_remote_id x"
    "remote_id x = remote_id c" "send_ok s = (\<lambda>_. True)"
    using p by (simp_all add: plain_def x_def add_flag_def)
  have px: "plain x s" using p by (auto simp: plain_def x_def add_flag_def)
  have e: "peer_of b g x s = shut_out ((peer_of b g c s)\<lparr>close_rcvd := True\<rparr>)"
    using half_eq [OF p] by (simp add: x_def peer_of_def add_flag_def shut_out_def)
  have r: "channel_input m (payload m) c s =
    (if istate x = CHAN_INPUT_OPEN then
       (case chan_shutdown_read x s of (c, s) \<Rightarrow>
          case chan_shutdown_extended_read c s of (c, s) \<Rightarrow>
            do {c \<leftarrow> chan_set_istate CHAN_INPUT_CLOSED c; Some (c, s)})
     else if istate x = CHAN_INPUT_WAIT_DRAIN then do {
       (c, s) \<leftarrow> (if CHAN_LOCAL \<notin> flags x then chan_send_eof2 x s else Some (x, s));
       case chan_shutdown_extended_read c s of (c, s) \<Rightarrow>
         do {c \<leftarrow> chan_set_istate CHAN_INPUT_CLOSED c; Some (c, s)}}
     else Some (x, s))"
    using p by (cases "ostate c = 0")
      (simp_all add: m channel_input_oclose_def chan_rcvd_oclose_def Let_def x_def add_flag_def chan_set_ostate_def plain_def)
  consider (op) "istate x = 0" | (dr) "istate x = 1" | (cl) "istate x = 3" using px by (auto simp: plain_def)
  then show ?thesis
  proof cases
    case op
    have "\<exists>fd s'. chan_shutdown_read x s = (x\<lparr>rfd := fd\<rparr>, s') \<and> sent s' = sent s \<and> send_ok s' = send_ok s
        \<and> was_read s' = was_read s \<and> wrote s' = wrote s"
      using x(2) by (cases "sock x = - 1"; cases "rfd x = - 1")
        (auto simp: chan_shutdown_read_def channel_close_fd_def intro: exI [of _ "rfd x"])
    then obtain fd s' where h: "chan_shutdown_read x s = (x\<lparr>rfd := fd\<rparr>, s')" "sent s' = sent s" "send_ok s' = send_ok s"
      "was_read s' = was_read s" "wrote s' = wrote s" by blast
    have "channel_input m (payload m) c s = Some (x\<lparr>rfd := fd, istate := 3\<rparr>, s')"
      using op h(1) x(3) unfolding r by (simp add: chan_shutdown_extended_read_def chan_set_istate_def)
    moreover have "plain (x\<lparr>rfd := fd, istate := 3\<rparr>) s'" using px h(2,3) by (simp add: plain_def)
    moreover have "peer_of b g (x\<lparr>rfd := fd, istate := 3\<rparr>) s' = shut_in (peer_of b g x s)"
      using op h(2,4,5) by (simp add: peer_of_def shut_in_def)
    ultimately show ?thesis using e m input_refinesI by (metis msg_of.simps(4) receive.simps(3))
  next
    case dr
    let ?c = "(add_flag CHAN_EOF_SENT x)\<lparr>istate := 3\<rparr>" and ?s = "s\<lparr>sent := sent s @ [Eof (remote_id c)]\<rparr>"
    have "channel_input m (payload m) c s = Some (?c, ?s)"
      using dr x unfolding r by (simp add: chan_send_eof2_def sshpkt_def add_flag_def chan_shutdown_extended_read_def chan_set_istate_def)
    moreover have "plain ?c ?s" using px by (simp add: plain_def plain_packet_def add_flag_def)
    moreover have "peer_of b g ?c ?s = shut_in (peer_of b g x s)" using dr by (simp add: peer_of_def shut_in_def add_flag_def)
    ultimately show ?thesis using e m input_refinesI by (metis msg_of.simps(4) receive.simps(3))
  next
    case cl
    have "channel_input m (payload m) c s = Some (x, s)" using cl unfolding r by simp
    moreover have "peer_of b g x s = shut_in (peer_of b g x s)" using cl by (simp add: shut_in_def)
    ultimately show ?thesis using px e m input_refinesI by (metis msg_of.simps(4) receive.simps(3))
  qed
qed

end
