(* ===== verification/Channel_Pair.thy ===== *)
theory Channel_Pair
  imports Channel_Steps
begin

text \<open>
  Two programs with an open channel between them, each running the functions of \<^verbatim>\<open>nchan.c\<close> and
  \<^verbatim>\<open>channels.c\<close> in any order that their main loops allow, connected by two ordered streams of packets. The theory
  composes the operations of \<open>Channels\<close> and carries the facts of \<open>Chan_Protocol\<close> over to them.
\<close>

subsection \<open>Endpoints\<close>

record endpoint =
  ch :: channel
  net :: ssh
  rcvd :: nat
  sink_failed :: bool
  freed :: bool

text \<open>
  What the system calls promise: a read returns at most what fits the buffer, a write takes at
  most what it is given.
\<close>

definition io_ok :: "io \<Rightarrow> channel \<Rightarrow> bool" where
  "io_ok r c \<longleftrightarrow> (case io_rfd r of Inr bs \<Rightarrow> length bs \<le> CHAN_RBUF | Inl _ \<Rightarrow> True)
     \<and> (case io_wfd r of Inr n \<Rightarrow> n \<le> length (c_output c) | Inl _ \<Rightarrow> True)"

inductive pair_step :: "endpoint \<times> endpoint \<Rightarrow> endpoint \<times> endpoint \<Rightarrow> bool" where
  poll: "\<not> freed e \<Longrightarrow> channel_output_poll (ch e) (net e) = Some (c, s) \<Longrightarrow> pair_step (e, f) (e\<lparr>ch := c, net := s\<rparr>, f)"
| pass: "\<not> freed e \<Longrightarrow> io_ok r (ch e) \<Longrightarrow> channel_round readable writable r (ch e) (net e) = Some (d, c, s) \<Longrightarrow>
    pair_step (e, f) (e\<lparr>ch := c, net := s, freed := d,
      sink_failed := sink_failed e \<or> writable \<and> want_write (ch e) \<and> fails (io_wfd r)\<rparr>, f)"
| input: "\<not> freed e \<Longrightarrow> rcvd e < length (sent (net f)) \<Longrightarrow> m = sent (net f) ! rcvd e \<Longrightarrow>
    channel_input m (payload m) (ch e) (net e) = Some (c, s) \<Longrightarrow>
    pair_step (e, f) (e\<lparr>ch := c, net := s, rcvd := Suc (rcvd e)\<rparr>, f)"
| other: "pair_step (f, e) (f', e') \<Longrightarrow> pair_step (e, f) (e', f')"

text \<open>A channel just opened, and two that were opened for each other.\<close>

definition fresh_end :: "endpoint \<Rightarrow> bool" where
  "fresh_end e \<longleftrightarrow> plain (ch e) (net e) \<and> istate (ch e) = CHAN_INPUT_OPEN \<and> ostate (ch e) = CHAN_OUTPUT_OPEN
     \<and> flags (ch e) = {} \<and> c_input (ch e) = [] \<and> c_output (ch e) = [] \<and> local_consumed (ch e) = 0
     \<and> local_window (ch e) = local_window_max (ch e) \<and> sent (net e) = [] \<and> was_read (net e) = [] \<and> wrote (net e) = []
     \<and> rcvd e = 0 \<and> \<not> sink_failed e \<and> \<not> freed e"

definition opened :: "endpoint \<times> endpoint \<Rightarrow> bool" where
  "opened x \<longleftrightarrow> (case x of (e, f) \<Rightarrow> fresh_end e \<and> fresh_end f
     \<and> remote_window (ch e) = local_window (ch f) \<and> remote_maxpacket (ch e) = local_maxpacket (ch f)
     \<and> remote_window (ch f) = local_window (ch e) \<and> remote_maxpacket (ch f) = local_maxpacket (ch e))"

subsection \<open>The invariant of the pair\<close>

definition peer :: "endpoint \<Rightarrow> peer" where
  "peer e = peer_of (sink_failed e) (rcvd e) (ch e) (net e)"

definition end_ok :: "endpoint \<Rightarrow> bool" where
  "end_ok e \<longleftrightarrow> plain (ch e) (net e)
     \<and> (freed e \<longrightarrow> CHAN_CLOSE_SENT \<in> flags (ch e) \<and> CHAN_CLOSE_RCVD \<in> flags (ch e))"

definition pair_ok :: "endpoint \<times> endpoint \<Rightarrow> bool" where
  "pair_ok x \<longleftrightarrow> (case x of (e, f) \<Rightarrow> end_ok e \<and> end_ok f \<and> pinv (peer e, peer f))"

lemma pair_ok_swap: "pair_ok (e, f) = pair_ok (f, e)"
  by (auto simp: pair_ok_def pinv_swap)

lemma opened_ok: "opened x \<Longrightarrow> pair_ok x"
  by (cases x) (auto simp: opened_def fresh_end_def pair_ok_def end_ok_def peer_def pinv_def linv_def dinv_def
      dwin_def dclose_def ddata_def pair_defs peer_of_def)

lemma pinv_lsteps: "lstep\<^sup>*\<^sup>* p p' \<Longrightarrow> pinv (p, q) \<Longrightarrow> pinv (p', q)"
  by (induction rule: rtranclp_induct) (auto intro: pinv_pstep pstep.intros)


text \<open>The operations return, and keep the invariant.\<close>

lemma poll_ok:
  assumes "pair_ok (e, f)"
  obtains c s where "channel_output_poll (ch e) (net e) = Some (c, s)" "plain c s"
    "lstep\<^sup>*\<^sup>* (peer e) (peer (e\<lparr>ch := c, net := s\<rparr>))"
    "istate (ch e) \<noteq> 3 \<Longrightarrow> c_input (ch e) \<noteq> [] \<Longrightarrow> remote_window (ch e) \<noteq> 0 \<Longrightarrow> length (sent (net e)) < length (sent s)"
    "istate (ch e) = 1 \<Longrightarrow> c_input (ch e) = [] \<Longrightarrow> istate c = 3"
proof -
  have p: "plain (ch e) (net e)" "linv (peer_of (sink_failed e) (rcvd e) (ch e) (net e))"
    using assms by (simp_all add: pair_ok_def end_ok_def pinv_def peer_def)
  show thesis by (rule output_poll_refines [OF p]) (auto simp: refines_def peer_def intro: that)
qed

lemma pass_ok:
  assumes "pair_ok (e, f)" "io_ok r (ch e)"
  obtains d c s e' where "channel_round readable writable r (ch e) (net e) = Some (d, c, s)"
    "e' = e\<lparr>ch := c, net := s, freed := d, sink_failed := sink_failed e \<or> writable \<and> want_write (ch e) \<and> fails (io_wfd r)\<rparr>"
    "end_ok e'" "lstep\<^sup>*\<^sup>* (peer e) (peer e')" "d \<longleftrightarrow> CHAN_CLOSE_SENT \<in> flags c \<and> CHAN_CLOSE_RCVD \<in> flags c"
    "readable \<Longrightarrow> want_read (ch e) \<Longrightarrow> io_rfd r = Inr [] \<Longrightarrow> istate c \<noteq> 0"
    "\<And>n. writable \<Longrightarrow> want_write (ch e) \<Longrightarrow> io_wfd r = Inr n \<Longrightarrow> 0 < n \<Longrightarrow> given (peer e') \<noteq> given (peer e)"
    "ostate (ch e) = 1 \<Longrightarrow> c_output (ch e) = [] \<Longrightarrow> ostate c = 3"
    "\<not> readable \<Longrightarrow> \<not> writable \<Longrightarrow> CHAN_CLOSE_SENT \<notin> flags (ch e) \<Longrightarrow> CHAN_CLOSE_RCVD \<notin> flags (ch e) \<Longrightarrow>
      local_window (ch e) = 0 \<Longrightarrow> local_consumed (ch e) \<noteq> 0 \<Longrightarrow> length (sent (net e)) < length (sent s)"
    "istate (ch e) = 3 \<Longrightarrow> ostate (ch e) = 3 \<Longrightarrow> CHAN_CLOSE_SENT \<in> flags c"
    "\<not> readable \<or> io_rfd r = Inr [] \<Longrightarrow> was_read s = was_read (net e)"
proof -
  have p: "plain (ch e) (net e)" "linv (peer_of (sink_failed e) (rcvd e) (ch e) (net e))"
    using assms by (simp_all add: pair_ok_def end_ok_def pinv_def peer_def)
  have rd: "\<And>bs. io_rfd r = Inr bs \<Longrightarrow> length bs \<le> CHAN_RBUF" and wr: "\<And>n. io_wfd r = Inr n \<Longrightarrow> n \<le> length (c_output (ch e))"
    using assms(2) by (auto simp: io_ok_def)
  obtain d b' c s where 1: "channel_round readable writable r (ch e) (net e) = Some (d, c, s)"
    "refines (sink_failed e) (rcvd e) (ch e, net e) b' (c, s)"
    "b' \<longleftrightarrow> sink_failed e \<or> writable \<and> want_write (ch e) \<and> fails (io_wfd r)"
    "d \<longleftrightarrow> CHAN_CLOSE_SENT \<in> flags c \<and> CHAN_CLOSE_RCVD \<in> flags c"
    "readable \<Longrightarrow> want_read (ch e) \<Longrightarrow> io_rfd r = Inr [] \<Longrightarrow> istate c \<noteq> 0"
    "\<And>n. writable \<Longrightarrow> want_write (ch e) \<Longrightarrow> io_wfd r = Inr n \<Longrightarrow> 0 < n \<Longrightarrow>
      length (concat (map snd (wrote (net e)))) < length (concat (map snd (wrote s)))"
    "ostate (ch e) = 1 \<Longrightarrow> c_output (ch e) = [] \<Longrightarrow> ostate c = 3"
    "\<not> readable \<Longrightarrow> \<not> writable \<Longrightarrow> CHAN_CLOSE_SENT \<notin> flags (ch e) \<Longrightarrow> CHAN_CLOSE_RCVD \<notin> flags (ch e) \<Longrightarrow>
      local_window (ch e) = 0 \<Longrightarrow> local_consumed (ch e) \<noteq> 0 \<Longrightarrow> length (sent (net e)) < length (sent s)"
    "istate (ch e) = 3 \<Longrightarrow> ostate (ch e) = 3 \<Longrightarrow> CHAN_CLOSE_SENT \<in> flags c"
    "\<not> readable \<or> io_rfd r = Inr [] \<Longrightarrow> was_read s = was_read (net e)"
    by (rule round_refines [where readable = readable and writable = writable, OF p rd wr]) (assumption | rule that)+
  show thesis
  proof (rule that [OF 1(1) refl])
    show "end_ok (e\<lparr>ch := c, net := s, freed := d, sink_failed := sink_failed e \<or> writable \<and> want_write (ch e) \<and> fails (io_wfd r)\<rparr>)"
      using refines_plain [OF 1(2)] 1(4) by (simp add: end_ok_def)
    show "lstep\<^sup>*\<^sup>* (peer e) (peer (e\<lparr>ch := c, net := s, freed := d,
        sink_failed := sink_failed e \<or> writable \<and> want_write (ch e) \<and> fails (io_wfd r)\<rparr>))"
      using 1(2) unfolding 1(3) by (simp add: refines_def peer_def)
    show "\<And>n. writable \<Longrightarrow> want_write (ch e) \<Longrightarrow> io_wfd r = Inr n \<Longrightarrow> 0 < n \<Longrightarrow>
        given (peer (e\<lparr>ch := c, net := s, freed := d,
          sink_failed := sink_failed e \<or> writable \<and> want_write (ch e) \<and> fails (io_wfd r)\<rparr>)) \<noteq> given (peer e)"
      using 1(6) by (fastforce simp: peer_def)
  qed (use 1 in blast)+
qed

lemma input_ok:
  assumes "pair_ok (e, f)" "rcvd e < length (sent (net f))" "m = sent (net f) ! rcvd e"
  obtains c s where "channel_input m (payload m) (ch e) (net e) = Some (c, s)" "plain c s"
    "lstep\<^sup>*\<^sup>* (receive (msg_of m) ((peer e)\<lparr>got := Suc (rcvd e)\<rparr>)) (peer (e\<lparr>ch := c, net := s, rcvd := Suc (rcvd e)\<rparr>))"
proof -
  let ?b = "sink_failed e" and ?g = "Suc (rcvd e)"
  have i: "plain (ch e) (net e)" "plain (ch f) (net f)" "linv (peer e)" "linv (peer f)" "dwin (peer f) (peer e)"
    "dwin (peer e) (peer f)" "dclose (peer f) (peer e)"
    using assms(1) by (simp_all add: pair_ok_def end_ok_def pinv_def dinv_def)
  have pm: "plain_packet m" using i(2) assms(2,3) by (simp add: plain_def)
  have p': "(peer e)\<lparr>got := Suc (rcvd e)\<rparr> = peer_of ?b ?g (ch e) (net e)" by (simp add: peer_def peer_of_def)
  have g: "got (peer e) = rcvd e" by (simp add: peer_def)
  have way: "under_way (peer f) (peer e) = msg_of m # map msg_of (drop (Suc (rcvd e)) (sent (net f)))"
    using assms(2,3) by (simp add: under_way_def peer_def drop_map [symmetric] Cons_nth_drop_Suc [symmetric])
  have log: "log (peer f) = take (rcvd e) (log (peer f)) @ msg_of m # drop (Suc (rcvd e)) (log (peer f))"
    "got (peer e) = length (take (rcvd e) (log (peer f)))"
    using assms(2,3) id_take_nth_drop [of "rcvd e" "log (peer f)"] by (simp_all add: peer_def)
  have lg: "linv (peer_of ?b ?g (ch e) (net e))" using i(3) by (simp add: peer_def linv_def)
  have lr: "linv (receive (msg_of m) (peer_of ?b ?g (ch e) (net e)))"
    using linv_receive [OF i(3,5,7) log i(4)] unfolding g p' .
  have "input_refines m ?b ?g (ch e) (net e)"
  proof (cases m)
    case (Data n bs)
    have "length bs \<le> unat (local_window (ch e))" "length bs \<le> unat (local_maxpacket (ch e))"
      using i(5) way Data by (simp_all add: dwin_def peer_def)
    then show ?thesis by (rule input_data_refines [OF i(1) lg Data pm])
  next
    case (Window_adjust n k)
    have "unat (remote_window (ch e)) + unat k \<le> unat (local_window (ch f))"
      using i(6) way Window_adjust by (simp add: dwin_def peer_def)
    also have "\<dots> < 2 ^ 32" using unsigned_less [of "local_window (ch f)"] by simp
    finally show ?thesis by (rule input_adjust_refines [OF i(1) Window_adjust])
  next
    case (Eof n)
    then show ?thesis using input_eof_refines [OF i(1)] lr by simp
  next
    case (Close n)
    then show ?thesis by (rule input_close_refines [OF i(1)])
  next
    case (Request n t r)
    then show ?thesis using input_eow_refines [OF i(1) _ pm] by blast
  qed (use pm in \<open>simp_all add: plain_packet_def\<close>)
  then show thesis using that unfolding input_refines_def p' by (auto simp: peer_def)
qed

lemma pair_ok_step: "pair_step x y \<Longrightarrow> pair_ok x \<Longrightarrow> pair_ok y"
proof (induction rule: pair_step.induct)
  case (poll e c s f)
  obtain c' s' where "channel_output_poll (ch e) (net e) = Some (c', s')" "plain c' s'"
    "lstep\<^sup>*\<^sup>* (peer e) (peer (e\<lparr>ch := c', net := s'\<rparr>))" by (rule poll_ok [OF poll(3)]) (rule that)
  with poll show ?case by (auto simp: pair_ok_def end_ok_def intro: pinv_lsteps)
next
  case (pass e r readable writable d c s f)
  obtain d' c' s' e' where "channel_round readable writable r (ch e) (net e) = Some (d', c', s')"
    "e' = e\<lparr>ch := c', net := s', freed := d', sink_failed := sink_failed e \<or> writable \<and> want_write (ch e) \<and> fails (io_wfd r)\<rparr>"
    "end_ok e'" "lstep\<^sup>*\<^sup>* (peer e) (peer e')"
    by (rule pass_ok [where readable = readable and writable = writable, OF pass(4,2)]) (rule that)
  with pass show ?case by (auto simp: pair_ok_def intro: pinv_lsteps)
next
  case (input e f m c s)
  obtain c' s' where 1: "channel_input m (payload m) (ch e) (net e) = Some (c', s')" "plain c' s'"
    "lstep\<^sup>*\<^sup>* (receive (msg_of m) ((peer e)\<lparr>got := Suc (rcvd e)\<rparr>)) (peer (e\<lparr>ch := c', net := s', rcvd := Suc (rcvd e)\<rparr>))"
    by (rule input_ok [OF input(5,2,3)]) (rule that)
  have "pstep (peer e, peer f) (receive (msg_of m) ((peer e)\<lparr>got := Suc (rcvd e)\<rparr>), peer f)"
    using pstep.deliver [of "peer e" "peer f"] input(2,3) by (simp add: peer_def)
  then have "pinv (receive (msg_of m) ((peer e)\<lparr>got := Suc (rcvd e)\<rparr>), peer f)"
    using input(5) pinv_pstep by (auto simp: pair_ok_def)
  with 1 input show ?case by (auto simp: pair_ok_def end_ok_def intro: pinv_lsteps)
next
  case (other f e f' e')
  then show ?case by (simp add: pair_ok_swap)
qed

lemma reachable_ok: "pair_step\<^sup>*\<^sup>* x y \<Longrightarrow> opened x \<Longrightarrow> pair_ok y"
  by (induction rule: rtranclp_induct) (auto intro: opened_ok pair_ok_step)

subsection \<open>Towards the end\<close>



















subsection \<open>Reaching the end\<close>




fun data_of :: "packet list \<Rightarrow> byte list" where
  "data_of [] = []"
| "data_of (Data _ d # ps) = d @ data_of ps"
| "data_of (_ # ps) = data_of ps"

lemma datas_data_of: "(\<forall>p \<in> set ps. plain_packet p) \<Longrightarrow> datas (map msg_of ps) = data_of ps"
  by (induction ps rule: data_of.induct) (simp_all add: plain_packet_def)

lemma under_way_data:
  assumes "pair_ok (e, f)"
  shows "datas (under_way (peer e) (peer f)) = data_of (drop (rcvd f) (sent (net e)))"
proof -
  have "\<forall>p \<in> set (sent (net e)). plain_packet p" using assms by (simp add: pair_ok_def end_ok_def plain_def)
  then have "\<forall>p \<in> set (drop (rcvd f) (sent (net e))). plain_packet p" by (blast dest: in_set_dropD)
  then show ?thesis by (simp add: under_way_def peer_def drop_map datas_data_of)
qed

subsection \<open>An example\<close>

definition example_channel :: channel where
  "example_channel =
     \<lparr>c_type = SSH_CHANNEL_OPEN, self = 0, remote_id = 0, have_remote_id = True, istate = 0, ostate = 0, flags = {},
      rfd = 5, wfd = 6, efd = - 1, sock = - 1, isatty = False, force_drain = False, c_input = [], c_output = [],
      c_extended = [], remote_window = 2097152, remote_maxpacket = 32768, local_window = 2097152,
      local_window_max = 2097152, local_consumed = 0, local_maxpacket = 32768, extended_usage = CHAN_EXTENDED_IGNORE,
      ctype = ''direct-tcpip'', detach_user = False, detach_close = False, datagram = False\<rparr>"

definition example_ssh :: ssh where
  "example_ssh = \<lparr>sent = [], send_ok = \<lambda>_. True, datafellows = {}, closed = [], was_read = [], wrote = [], shut = [],
     exit_status = None\<rparr>"

definition example_end :: endpoint where
  "example_end = \<lparr>ch = example_channel, net = example_ssh, rcvd = 0, sink_failed = False, freed = False\<rparr>"

text \<open>The endpoint after reading two bytes and the end of its input, and sending them.\<close>

definition example_sent :: endpoint where
  "example_sent = example_end
     \<lparr>ch := example_channel\<lparr>istate := 3, flags := {CHAN_EOF_SENT}, rfd := - 1, remote_window := 2097150\<rparr>,
      net := example_ssh\<lparr>sent := [Data 0 [104, 105], Eof 0], closed := [5], was_read := [(5, [104, 105])]\<rparr>\<rparr>"

lemma example_opened: "opened (example_end, example_end)"
  by (simp add: opened_def fresh_end_def plain_def example_end_def example_channel_def example_ssh_def)

lemma example_run: "pair_step\<^sup>*\<^sup>* (example_end, example_end) (example_sent, example_end)"
proof -
  let ?r = "\<lambda>bs. \<lparr>io_rfd = Inr bs, io_wfd = Inl EAGAIN, io_efd_rd = Inl EAGAIN, io_efd_wr = Inl EAGAIN\<rparr>"
  note defs = example_sent_def example_end_def example_channel_def example_ssh_def
  define a where "a = example_end\<lparr>ch := example_channel\<lparr>c_input := [104, 105]\<rparr>, net := example_ssh\<lparr>was_read := [(5, [104, 105])]\<rparr>\<rparr>"
  define b where "b = a\<lparr>ch := example_channel\<lparr>remote_window := 2097150\<rparr>, net := (net a)\<lparr>sent := [Data 0 [104, 105]]\<rparr>\<rparr>"
  define c where "c = b\<lparr>ch := (ch b)\<lparr>istate := 1, rfd := - 1\<rparr>, net := (net b)\<lparr>closed := [5]\<rparr>\<rparr>"
  have "pair_step (example_end, example_end) (a, example_end)"
    using pair_step.pass [of example_end "?r [104, 105]" True False False "ch a" "net a" example_end]
    by (simp add: defs a_def io_ok_def channel_round_def channel_pre_open_def channel_garbage_collect_def chan_is_dead_def
        channel_post_open_def channel_handle_rfd_def channel_handle_wfd_def channel_handle_efd_def channel_check_window_def
        buf_put_def log_read_def Let_def)
  moreover have "pair_step (a, example_end) (b, example_end)"
    using pair_step.poll [of a "ch b" "net b" example_end]
    by (simp add: defs a_def b_def channel_output_poll_def channel_output_poll_input_open_def sshpkt_def Let_def)
  moreover have "pair_step (b, example_end) (c, example_end)"
    using pair_step.pass [of b "?r []" True False False "ch c" "net c" example_end]
    by (simp add: defs a_def b_def c_def io_ok_def channel_round_def channel_pre_open_def channel_garbage_collect_def chan_is_dead_def
        channel_post_open_def channel_handle_rfd_def channel_handle_wfd_def channel_handle_efd_def channel_check_window_def
        chan_read_failed_def chan_shutdown_read_def channel_close_fd_def chan_set_istate_def Let_def)
  moreover have "pair_step (c, example_end) (example_sent, example_end)"
    using pair_step.poll [of c "ch example_sent" "net example_sent" example_end]
    by (simp add: defs a_def b_def c_def channel_output_poll_def channel_output_poll_input_open_def CHANNEL_EFD_INPUT_ACTIVE_def
        chan_ibuf_empty_def chan_send_eof2_def chan_set_istate_def add_flag_def sshpkt_def Let_def)
  ultimately show ?thesis by (meson converse_rtranclp_into_rtranclp rtranclp.rtrancl_refl)
qed

subsection \<open>What the pair guarantees\<close>

text \<open>
  Claim C3: the bytes of a channel arrive in order and none is lost. Whatever the two programs do from the
  opening of the channel on, in whatever order, what one has written to its descriptor is a prefix of
  what the other has read from its own; as long as the writing descriptor has not failed, the rest is in the buffers
  and in the packets under way. The window that a sender believes to have, together with the data under
  way, never exceeds the window that the receiver keeps, and the receiver never buffers more than its
  maximal window.
\<close>

theorem channels_deliver:
  assumes "opened x" "pair_step\<^sup>*\<^sup>* x (e, f)"
  shows "prefix (concat (map snd (wrote (net f)))) (concat (map snd (was_read (net e))))
    \<and> (\<not> sink_failed f \<longrightarrow>
        concat (map snd (wrote (net f))) @ c_output (ch f) @ data_of (drop (rcvd f) (sent (net e))) @ c_input (ch e)
          = concat (map snd (was_read (net e))))
    \<and> unat (remote_window (ch e)) + length (data_of (drop (rcvd f) (sent (net e)))) \<le> unat (local_window (ch f))
    \<and> unat (local_window (ch f)) + length (c_output (ch f)) \<le> unat (local_window_max (ch f))"
proof -
  have ok: "pair_ok (e, f)" by (rule reachable_ok [OF assms(2,1)])
  then have p: "linv (peer f)" "dwin (peer e) (peer f)" "ddata (peer e) (peer f)"
    by (simp_all add: pair_ok_def pinv_def dinv_def)
  show ?thesis
    using p unfolding ddata_def dwin_def linv_def under_way_data [OF ok] by (simp add: peer_def)
qed

theorem channels_deliver_witness:
  "concat (map snd (wrote (net example_end))) @ c_output (ch example_end) @ data_of (drop (rcvd example_end) (sent (net example_sent)))
     @ c_input (ch example_sent) = [104, 105]"
  using channels_deliver [OF example_opened example_run] by (simp add: example_sent_def example_end_def example_ssh_def)





text \<open>
  Claim C6: the order of messages. Nothing is sent after CLOSE, and after EOF neither data nor a second EOF.
\<close>

theorem channels_message_order:
  assumes "opened x" "pair_step\<^sup>*\<^sup>* x (e, f)" "i < j" "j < length (sent (net e))"
  shows "sent (net e) ! i \<noteq> Close n
    \<and> (sent (net e) ! i = Eof n \<longrightarrow> sent (net e) ! j \<noteq> Eof k \<and> sent (net e) ! j \<noteq> Data k d)"
proof -
  have "pair_ok (e, f)" by (rule reachable_ok [OF assms(2,1)])
  then have "legal (map msg_of (sent (net e)))" by (simp add: pair_ok_def pinv_def linv_def peer_def)
  from legal_nth [OF this assms(3)] assms(3,4) show ?thesis by force
qed

theorem channels_message_order_witness:
  "sent (net example_sent) ! 0 \<noteq> Close 0 \<and> sent (net example_sent) ! 1 = Eof 0"
proof -
  have s: "sent (net example_sent) = [Data 0 [104, 105], Eof 0]" by (simp add: example_sent_def)
  then have "1 < length (sent (net example_sent))" by simp
  from channels_message_order [OF example_opened example_run zero_less_one this] s show ?thesis by simp
qed

text \<open>
  Claim C7: the states of a channel stay in range. Both halves are open, draining or closed, the states
  \<^verbatim>\<open>CHAN_INPUT_WAIT_OCLOSE\<close> and \<^verbatim>\<open>CHAN_OUTPUT_WAIT_IEOF\<close> are never entered, CLOSE is sent only when both halves are closed, and
  no closed descriptor is put into a set for \<^verbatim>\<open>select\<close>.
\<close>

theorem channels_typed:
  assumes "opened x" "pair_step\<^sup>*\<^sup>* x (e, f)"
  shows "istate (ch e) \<in> {CHAN_INPUT_OPEN, CHAN_INPUT_WAIT_DRAIN, CHAN_INPUT_CLOSED}
    \<and> ostate (ch e) \<in> {CHAN_OUTPUT_OPEN, CHAN_OUTPUT_WAIT_DRAIN, CHAN_OUTPUT_CLOSED}
    \<and> (CHAN_CLOSE_SENT \<in> flags (ch e) \<longrightarrow> istate (ch e) = CHAN_INPUT_CLOSED \<and> ostate (ch e) = CHAN_OUTPUT_CLOSED)
    \<and> (\<forall>R W c s. channel_pre_open {} {} (ch e) (net e) = Some (R, W, c, s) \<longrightarrow> - 1 \<notin> R \<union> W)"
proof -
  have ok: "plain (ch e) (net e)" "linv (peer e)"
    using reachable_ok [OF assms(2,1)] by (simp_all add: pair_ok_def end_ok_def pinv_def)
  have "- 1 \<notin> R \<union> W" if "channel_pre_open {} {} (ch e) (net e) = Some (R, W, c, s)" for R W c s
    by (rule pre_open_refines [OF ok(1)]) (use that ok(1) in \<open>auto simp: want_read_def want_write_def plain_def split: if_splits\<close>)
  then show ?thesis using ok(1) linv_channel(1) [OF ok(1) ok(2) [unfolded peer_def]] by (auto simp: plain_def)
qed

theorem channels_typed_witness:
  "istate (ch example_sent) \<in> {CHAN_INPUT_OPEN, CHAN_INPUT_WAIT_DRAIN, CHAN_INPUT_CLOSED}"
  using channels_typed [OF example_opened example_run] by blast

end
