(* ===== verification/Spec2Isabelle.thy ===== *)
theory Spec2Isabelle
  imports Lrz_Transfer Sshbuf_Values Bitmap Addrmatch Channel_Pair
begin

text \<open>
  A verification library for woterm: a terminal with sessions over SSH and file transfer by ZMODEM.

  \<^bold>\<open>The program.\<close> \<^verbatim>\<open>src/lszrz\<close> holds the programs \<^verbatim>\<open>sz\<close> and \<^verbatim>\<open>rz\<close> that a session
  starts for a transfer: \<^verbatim>\<open>lsz.c\<close> sends, \<^verbatim>\<open>lrz.c\<close> receives, both over the frames of \<^verbatim>\<open>zm.c\<close>, which
  uses the checks of \<^verbatim>\<open>crctab.c\<close> and the line of \<^verbatim>\<open>zreadline.c\<close>, \<^verbatim>\<open>rbsb.c\<close> and \<^verbatim>\<open>canit.c\<close>.
  \<^verbatim>\<open>src/openssh\<close> is OpenSSH for Windows with a bridge to the terminal: packet buffers
  (\<^verbatim>\<open>sshbuf.c\<close>, \<^verbatim>\<open>sshbuf-getput-basic.c\<close>), channels (\<^verbatim>\<open>channels.c\<close>, \<^verbatim>\<open>nchan.c\<close>), access by names
  and addresses (\<^verbatim>\<open>match.c\<close>, \<^verbatim>\<open>addrmatch.c\<close>), bit vectors of revocation lists (\<^verbatim>\<open>bitmap.c\<close>) and
  the protocol around them. \<^verbatim>\<open>src/woterm\<close> is the terminal widget and the session manager, in C++ over Qt.

  \<^bold>\<open>Conventions.\<close> Bytes are words of 8 bits, \<^verbatim>\<open>int\<close>, \<^verbatim>\<open>u_int\<close> and \<^verbatim>\<open>long\<close> words of 32 bits and
  \<^verbatim>\<open>size_t\<close> words of 64 bits, the widths of the Windows build; where the widths cannot matter a length
  is a natural number. A C function is a HOL function that takes and returns the state it changes. An
  error code is a value of the result. The result \<^const>\<open>None\<close> stands for a run without a result that C
  defines: in the \<^verbatim>\<open>lszrz\<close> theories an access outside an object or a loop that does not end, in the
  buffer theories the abort by SIGSEGV of a failed sanity check or an access outside a block, in the
  channel theories a call of \<^verbatim>\<open>fatal\<close> or of \<^verbatim>\<open>ssh_packet_disconnect\<close>. What the environment decides
  (the bytes on a line, the outcome of an allocation, what \<^verbatim>\<open>read\<close> and \<^verbatim>\<open>write\<close> return) is an argument
  or a part of the state.

  \<^bold>\<open>Theories.\<close>
  \<^item> \<open>Prelude\<close>: machine types, the collections \<open>frame_simps\<close>, \<open>wire_simps\<close> and \<open>buf_simps\<close>, lemmas on
    words and lists. It models no code.
  \<^item> \<open>Crctab\<close>: both tables and both update steps of \<^verbatim>\<open>crctab.c\<close>; they equal the bit-serial
    registers and detect every burst within the register's width (locale \<open>frame_check\<close>, interpreted for
    both checks).
  \<^item> \<open>Zreadline\<close>: the buffered line (\<^verbatim>\<open>readline_internal\<close>, \<^verbatim>\<open>purgeline\<close>, \<^verbatim>\<open>canit\<close>); reading through the
    buffer yields the bytes of the line, whatever the chunks (locale \<open>byte_source\<close>).
  \<^item> \<open>Zm\<close>, \<open>Zm_Roundtrip\<close>: \<^verbatim>\<open>zm.c\<close>. Escaped bytes, the three forms of headers and the subpackets with
    both checks are received as sent (locales \<open>coded_source\<close>, \<open>header_source\<close>); what a subpacket may
    write behind its buffer; the empty subpacket that runs past its buffer.
  \<^item> \<open>Lrz_File\<close>, \<open>Lrz_Xmodem\<close>, \<open>Lrz\<close>, \<open>Lrz_Transfer\<close>: \<^verbatim>\<open>lrz.c\<close>, with files as byte lists with a position.
    A YMODEM or XMODEM transfer and a ZMODEM transfer both leave the file that was sent.
  \<^item> \<open>Sshbuf\<close>, \<open>Sshbuf_Getput\<close>: \<^verbatim>\<open>sshbuf.c\<close> and \<^verbatim>\<open>sshbuf-getput-basic.c\<close> over a store of blocks and
    structures in which allocations may fail. \<open>Sshbuf_Contract\<close>, \<open>Sshbuf_Ops\<close>: the invariant of the
    store, and every allowed sequence of calls refines independent queues of bytes; nothing leaks.
    \<open>Sshbuf_Values\<close>: values put are the values got (locale \<open>value_queue\<close>, interpreted for the four sizes
    of integers).
  \<^item> \<open>Bitmap\<close>: \<^verbatim>\<open>bitmap.c\<close> refines sets of numbers; its byte strings round trip.
  \<^item> \<open>Match\<close>, \<open>Addrmatch\<close>: \<^verbatim>\<open>match.c\<close> and \<^verbatim>\<open>addrmatch.c\<close> against their meaning: wildcard patterns,
    lists with negation, proposals, prefixes of addresses. \<^verbatim>\<open>getaddrinfo\<close> is a parameter.
  \<^item> \<open>Nchan\<close>, \<open>Channels\<close>: \<^verbatim>\<open>nchan.c\<close> and the data path of \<^verbatim>\<open>channels.c\<close>. \<open>Chan_Protocol\<close> is the
    abstract contract, two peers with windows as a step relation with invariants and a measure;
    \<open>Channel_Steps\<close> shows that every function takes steps of a peer; \<open>Channel_Pair\<close> joins two programs
    over a connection: no byte is lost or reordered, no run ends in \<^verbatim>\<open>fatal\<close>, nothing follows CLOSE, and
    from every state both ends can finish (locale \<open>progress_system\<close>).

  \<^bold>\<open>Loops and fuel.\<close> Loops are structural recursions, functions with a measure, or partial functions
  over options where the source may loop for ever; no definition takes fuel. The properties
  that a partial function returns are stated as such: the result is \<^const>\<open>Some\<close> with its value.

  \<^bold>\<open>Not modelled.\<close>
  \<^item> \<^verbatim>\<open>lszrz\<close>: of the sender \<^verbatim>\<open>lsz.c\<close> only the constants it shares; the option parsing of both programs;
    \<^verbatim>\<open>timing.c\<close>, \<^verbatim>\<open>lsyslog.c\<close>, \<^verbatim>\<open>zperr.c\<close> (clock and log), \<^verbatim>\<open>mywin.c\<close> (Windows consoles).
  \<^item> \<^verbatim>\<open>channels.c\<close>: listeners, connection setup, SOCKS, X11 and multiplexed channels.
  \<^item> \<^verbatim>\<open>openssh\<close>: key exchange, ciphers, signatures and keys rest on OpenSSL and on number theory that the
    library theories at hand do not have; authentication, sessions, agents, configuration files and the
    server are calls into the operating system for the most part; \<^verbatim>\<open>contrib/win32\<close> wraps the Windows
    interface.
  \<^item> \<^verbatim>\<open>src/woterm\<close>: widgets, dialogs, models and processes are calls into Qt.
\<close>

end
